(* ===== verification/Redis_Prelude.thy ===== *)
theory Redis_Prelude
  imports Main "HOL-Library.Word" "HOL-Library.Monad_Syntax"
begin

text \<open>
  What every component shares: the byte type of the C sources (\<open>unsigned char\<close>),
  raw memory as a byte list with \<open>memcpy\<close>/\<open>memmove\<close>-style writes, little-endian
  storage of fixed-width integers, and the integer ranges of the C types.
  Facts about memory go to the collection \<open>mem_simps\<close>, facts about integer
  ranges to \<open>range_simps\<close>.
\<close>

unbundle bit_operations_syntax

named_theorems mem_simps \<open>reads after writes on raw memory\<close>
named_theorems range_simps \<open>ranges of the C integer types\<close>

section \<open>C integer types\<close>

type_synonym byte = "8 word"

definition INT64_MIN :: int where [range_simps]: "INT64_MIN = - (2 ^ 63)"
definition INT64_MAX :: int where [range_simps]: "INT64_MAX = 2 ^ 63 - 1"
definition UINT64_MAX :: int where [range_simps]: "UINT64_MAX = 2 ^ 64 - 1"
definition INT32_MIN :: int where [range_simps]: "INT32_MIN = - (2 ^ 31)"
definition INT32_MAX :: int where [range_simps]: "INT32_MAX = 2 ^ 31 - 1"
definition INT16_MIN :: int where [range_simps]: "INT16_MIN = - (2 ^ 15)"
definition INT16_MAX :: int where [range_simps]: "INT16_MAX = 2 ^ 15 - 1"
definition UINT32_MAX :: nat where [range_simps]: "UINT32_MAX = 2 ^ 32 - 1"

definition is_int64 :: "int \<Rightarrow> bool" where
  [range_simps]: "is_int64 v \<longleftrightarrow> INT64_MIN \<le> v \<and> v \<le> INT64_MAX"

section \<open>Assertions and array accesses\<close>

text \<open>An assertion of the code: \<open>None\<close> when it fails.\<close>

definition c_assert :: "bool \<Rightarrow> unit option" where
  "c_assert b = (if b then Some () else None)"

lemma c_assert_simps [simp]: "c_assert True = Some ()" "c_assert False = None"
  "c_assert b = Some u \<longleftrightarrow> b"
  by (simp_all add: c_assert_def)

text \<open>An access to an array: \<open>None\<close> when the index is out of range.\<close>

definition aref :: "'a list \<Rightarrow> nat \<Rightarrow> 'a option" where
  "aref xs i = (if i < length xs then Some (xs ! i) else None)"

lemma aref_Some [simp]: "aref xs i = Some x \<longleftrightarrow> i < length xs \<and> xs ! i = x"
  by (auto simp: aref_def)

lemma aref_in: "i < length xs \<Longrightarrow> aref xs i = Some (xs ! i)"
  by simp

section \<open>Raw memory\<close>

text \<open>Memory a fresh allocation has not initialised: nothing is known about its bytes.\<close>

definition uninit :: byte where
  "uninit = undefined"

definition read_at :: "nat \<Rightarrow> nat \<Rightarrow> byte list \<Rightarrow> byte list" where
  "read_at off n m = take n (drop off m)"

text \<open>
  \<open>memcpy(m + off, bs, length bs)\<close>. Bytes that would fall outside the allocation are lost, so
  that a result that needs them cannot be proved of code that allocates too little.
\<close>

definition write_at :: "nat \<Rightarrow> byte list \<Rightarrow> byte list \<Rightarrow> byte list" where
  "write_at off bs m = take (length m) (take off m @ bs @ drop (off + length bs) m)"

text \<open>\<open>memmove(m + dst, m + src, n)\<close>: the source is read before anything is written.\<close>

definition memmove :: "nat \<Rightarrow> nat \<Rightarrow> nat \<Rightarrow> byte list \<Rightarrow> byte list" where
  "memmove dst src n m = write_at dst (read_at src n m) m"

text \<open>\<open>realloc\<close>: the common prefix is kept, new bytes are uninitialised.\<close>

definition realloc :: "nat \<Rightarrow> byte list \<Rightarrow> byte list" where
  "realloc n m = take n m @ replicate (n - length m) uninit"

lemma length_read_at [mem_simps]: "off + n \<le> length m \<Longrightarrow> length (read_at off n m) = n"
  by (simp add: read_at_def)

lemma write_at_inside:
  "off + length bs \<le> length m \<Longrightarrow> write_at off bs m = take off m @ bs @ drop (off + length bs) m"
  by (simp add: write_at_def)

lemma length_write_at [mem_simps]: "length (write_at off bs m) = length m"
  by (simp add: write_at_def)

lemma length_memmove [mem_simps]:
  "dst + n \<le> length m \<Longrightarrow> src + n \<le> length m \<Longrightarrow> length (memmove dst src n m) = length m"
  by (simp add: memmove_def mem_simps)

lemma length_realloc [simp, mem_simps]: "length (realloc n m) = n"
  by (simp add: realloc_def)

lemma read_write_same [mem_simps]:
  "off + length bs \<le> length m \<Longrightarrow> n = length bs \<Longrightarrow> read_at off n (write_at off bs m) = bs"
  by (simp add: read_at_def write_at_inside)

lemma read_write_before [mem_simps]:
  "off + n \<le> off' \<Longrightarrow> off' + length bs \<le> length m \<Longrightarrow>
   read_at off n (write_at off' bs m) = read_at off n m"
  by (auto simp: read_at_def write_at_inside drop_take min_def)

lemma read_write_after [mem_simps]:
  assumes "off' + length bs \<le> off" "off' + length bs \<le> length m"
  shows "read_at off n (write_at off' bs m) = read_at off n m"
  using assms by (simp add: read_at_def write_at_inside)

lemma read_realloc [mem_simps]:
  "off + n \<le> length m \<Longrightarrow> off + n \<le> k \<Longrightarrow> read_at off n (realloc k m) = read_at off n m"
  by (auto simp: read_at_def realloc_def drop_take min_def)

lemma read_read [mem_simps]:
  "o1 + n1 \<le> n2 \<Longrightarrow> read_at o1 n1 (read_at o2 n2 m) = read_at (o2 + o1) n1 m"
  by (simp add: read_at_def drop_take add.commute)

lemma read_memmove_inside [mem_simps]:
  assumes "dst + n \<le> length m" "src + n \<le> length m" "dst \<le> off" "off + k \<le> dst + n"
  shows "read_at off k (memmove dst src n m) = read_at (src + (off - dst)) k m"
proof -
  have len: "length (read_at src n m) = n" using assms by (simp add: mem_simps)
  have "drop off (write_at dst (read_at src n m) m)
      = drop (off - dst) (read_at src n m @ drop (dst + n) m)"
    using assms len by (simp add: write_at_inside)
  also have "\<dots> = drop (off - dst) (read_at src n m) @ drop (dst + n) m"
    using assms len by simp
  finally have "read_at off k (memmove dst src n m) = take k (drop (off - dst) (read_at src n m))"
    using assms len by (simp add: memmove_def read_at_def)
  also have "\<dots> = read_at (src + (off - dst)) k m"
    using assms by (simp add: read_at_def drop_take add.commute)
  finally show ?thesis .
qed

section \<open>Little-endian integers\<close>

primrec le_bytes :: "nat \<Rightarrow> int \<Rightarrow> byte list" where
  "le_bytes 0 v = []"
| "le_bytes (Suc n) v = word_of_int v # le_bytes n (v div 256)"

primrec le_val :: "byte list \<Rightarrow> int" where
  "le_val [] = 0"
| "le_val (b # bs) = uint b + 256 * le_val bs"

text \<open>Two's complement reading of an unsigned value of \<open>n\<close> bytes.\<close>

definition to_signed :: "nat \<Rightarrow> int \<Rightarrow> int" where
  "to_signed n u = (if u < 2 ^ (8 * n - 1) then u else u - 2 ^ (8 * n))"

lemma length_le_bytes [simp]: "length (le_bytes n v) = n"
  by (induction n arbitrary: v) auto

lemma le_bytes_le_val: "le_bytes (length bs) (le_val bs) = bs"
proof (induction bs)
  case (Cons b bs)
  have "uint b < 256" using uint_bounded[of b] by simp
  then have "(uint b + 256 * le_val bs) div 256 = le_val bs" by simp
  moreover have "word_of_int (uint b + 256 * le_val bs) = b"
  proof -
    have z: "(256 :: byte) = 0" by code_simp
    have "word_of_int (uint b + 256 * le_val bs) = b + 256 * word_of_int (le_val bs)" by simp
    also have "\<dots> = b" unfolding z by simp
    finally show ?thesis .
  qed
  ultimately show ?case using Cons by simp
qed simp

lemma le_val_nonneg [simp]: "0 \<le> le_val bs"
  by (induction bs) auto

lemma le_val_bound: "le_val bs < 256 ^ length bs"
proof (induction bs)
  case (Cons b bs)
  have "uint b < 256" using uint_lt2p[of b] by simp
  with Cons show ?case by simp
qed simp

lemma le_val_le_bytes [simp]: "le_val (le_bytes n v) = v mod 256 ^ n"
proof (induction n arbitrary: v)
  case (Suc n)
  have "le_val (le_bytes (Suc n) v) = v mod 256 + 256 * ((v div 256) mod 256 ^ n)"
    by (simp add: Suc uint_word_of_int)
  also have "\<dots> = v mod (256 * 256 ^ n)"
    by (subst zmod_zmult2_eq) auto
  finally show ?case by simp
qed simp

lemma to_signed_mod:
  assumes "0 < n" "- (2 ^ (8 * n - 1)) \<le> v" "v < 2 ^ (8 * n - 1)"
  shows "to_signed n (v mod 256 ^ n) = v"
proof -
  have p: "(256 :: int) ^ n = 2 ^ (8 * n)" by (simp add: power_mult)
  have h: "(2 :: int) ^ (8 * n) = 2 * 2 ^ (8 * n - 1)"
    using \<open>0 < n\<close> by (simp flip: power_Suc)
  show ?thesis
  proof (cases "0 \<le> v")
    case True
    then have "v mod 2 ^ (8 * n) = v" using assms h by (intro mod_pos_pos_trivial) linarith+
    then show ?thesis using assms by (simp add: to_signed_def p)
  next
    case False
    then have "v mod 2 ^ (8 * n) = v + 2 ^ (8 * n)"
      using assms h by (subst mod_add_self2[symmetric], intro mod_pos_pos_trivial) linarith+
    then show ?thesis using False assms h by (simp add: to_signed_def p)
  qed
qed

section \<open>Positions in lists\<close>

text \<open>An array read element by element after an element was inserted or removed.\<close>

lemma map_upt_insert:
  assumes "p \<le> length xs"
    and "\<And>i. i \<le> length xs \<Longrightarrow> f i = (if i < p then xs ! i else if i = p then v else xs ! (i - 1))"
  shows "map f [0..<Suc (length xs)] = take p xs @ v # drop p xs"
  using assms by (intro nth_equalityI) (auto simp: nth_append nth_Cons' simp del: upt_Suc)

lemma map_upt_remove:
  assumes "p < length xs"
    and "\<And>i. i < length xs - 1 \<Longrightarrow> f i = (if i < p then xs ! i else xs ! Suc i)"
  shows "map f [0..<length xs - 1] = take p xs @ drop (Suc p) xs"
  using assms by (intro nth_equalityI) (auto simp: nth_append)

text \<open>The insertion point of a value in a sorted list.\<close>

abbreviation below :: "'a::linorder \<Rightarrow> 'a list \<Rightarrow> nat" where
  "below v xs \<equiv> length (takeWhile (\<lambda>x. x < v) xs)"

lemma below_le [simp]: "below v xs \<le> length xs"
  by (simp add: length_takeWhile_le)

lemma below_eqI:
  assumes "k \<le> length xs" "\<And>i. i < k \<Longrightarrow> xs ! i < v" "k < length xs \<Longrightarrow> \<not> xs ! k < v"
  shows "below v xs = k"
  using assms(1,2,3)
proof (induction xs arbitrary: k)
  case (Cons x xs)
  show ?case
  proof (cases k)
    case 0
    with Cons.prems show ?thesis by simp
  next
    case (Suc j)
    have "below v xs = j"
      using Suc Cons.prems(1,3) by (intro Cons.IH) (use Cons.prems(2)[of "Suc _"] in auto)
    moreover have "x < v" using Cons.prems(2)[of 0] Suc by simp
    ultimately show ?thesis using Suc by simp
  qed
qed simp

lemma takeWhile_below: "takeWhile (\<lambda>x. x < v) xs = take (below v xs) xs"
  by (rule takeWhile_eq_take)

lemma sorted_wrt_insert_middle:
  assumes "sorted_wrt (<) (l @ r)" "\<And>x. x \<in> set l \<Longrightarrow> x < v" "\<And>x. x \<in> set r \<Longrightarrow> v < x"
  shows "sorted_wrt (<) (l @ v # r)"
  using assms by (auto simp: sorted_wrt_append)

lemma takeWhile_sorted_filter:
  "sorted_wrt (<) (xs :: 'a::linorder list) \<Longrightarrow> takeWhile (\<lambda>x. x < v) xs = filter (\<lambda>x. x < v) xs"
proof (induction xs)
  case (Cons x xs)
  have "filter (\<lambda>x. x < v) xs = []" if "\<not> x < v"
    using that Cons.prems by (auto simp: filter_empty_conv)
  then show ?case using Cons by simp
qed simp

lemma sorted_insert_below:
  assumes "sorted_wrt (<) xs" "v \<notin> set xs"
  shows "sorted_wrt (<) (take (below v xs) xs @ v # drop (below v xs) xs)"
proof (rule sorted_wrt_insert_middle)
  show "sorted_wrt (<) (take (below v xs) xs @ drop (below v xs) xs)"
    using assms(1) by (simp only: append_take_drop_id)
  show "x < v" if "x \<in> set (take (below v xs) xs)" for x
    using that by (metis set_takeWhileD takeWhile_below)
  show "v < x" if "x \<in> set (drop (below v xs) xs)" for x
  proof (cases "drop (below v xs) xs")
    case (Cons y ys)
    then have "below v xs < length xs" "y = xs ! below v xs"
      by (metis drop_eq_Nil leI list.distinct(1), metis hd_drop_conv_nth drop_eq_Nil leI list.distinct(1) list.sel(1))
    then have "\<not> y < v" "y \<in> set xs"
      using nth_length_takeWhile[of "\<lambda>x. x < v" xs] by auto
    then have "v < y" using assms(2) by (metis linorder_neqE)
    moreover have "sorted_wrt (<) (y # ys)" using assms(1) Cons by (metis sorted_wrt_drop)
    ultimately show ?thesis using that unfolding Cons by auto
  qed (use that in simp)
qed

lemma sorted_below_mem:
  assumes "sorted_wrt (<) xs" "v \<in> set xs"
  shows "below v xs < length xs" "xs ! below v xs = v"
    "remove1 v xs = take (below v xs) xs @ drop (Suc (below v xs)) xs"
proof -
  obtain i where i: "i < length xs" "xs ! i = v" using assms(2) by (auto simp: in_set_conv_nth)
  have "below v xs = i"
    using i assms(1) by (intro below_eqI) (auto simp: sorted_wrt_iff_nth_less)
  then show "below v xs < length xs" "xs ! below v xs = v" using i by simp_all
  have "xs = take i xs @ v # drop (Suc i) xs" using i by (metis id_take_nth_drop)
  moreover have "v \<notin> set (take i xs)"
    using i assms(1) by (auto simp: in_set_conv_nth sorted_wrt_iff_nth_less) (metis less_irrefl)
  ultimately have "remove1 v xs = take i xs @ drop (Suc i) xs"
    by (metis remove1.simps(2) remove1_append)
  then show "remove1 v xs = take (below v xs) xs @ drop (Suc (below v xs)) xs"
    using \<open>below v xs = i\<close> by simp
qed

lemma sorted_wrt_remove1: "sorted_wrt P xs \<Longrightarrow> sorted_wrt P (remove1 v xs)"
  by (induction xs) (auto dest: set_remove1_subset[THEN subsetD])

section \<open>Bit operations as arithmetic\<close>

lemma int_and_255: "(v :: int) AND 255 = v mod 256"
proof -
  have "v AND 255 = v AND mask 8" by (simp add: mask_eq_exp_minus_1)
  then show ?thesis by (simp add: take_bit_eq_mask[symmetric] take_bit_eq_mod)
qed

lemma nat_and_255: "(v :: nat) AND 255 = v mod 256"
proof -
  have "v AND 255 = v AND mask 8" by (simp add: mask_eq_exp_minus_1)
  then show ?thesis by (simp add: take_bit_eq_mask[symmetric] take_bit_eq_mod)
qed

lemma nat_and_127: "(v :: nat) AND 127 = v mod 128"
proof -
  have "v AND 127 = v AND mask 7" by (simp add: mask_eq_exp_minus_1)
  then show ?thesis by (simp add: take_bit_eq_mask[symmetric] take_bit_eq_mod)
qed

lemma int_or_push_bit:
  fixes a :: int
  assumes "0 \<le> a" "a < 2 ^ n"
  shows "a OR push_bit n b = a + 2 ^ n * b"
proof -
  have "take_bit n a = a" using assms by (simp add: take_bit_eq_mod)
  then have "k < n" if "bit a k" for k using that by (metis bit_take_bit_iff)
  then have "a AND push_bit n b = 0"
    by (intro bit_eqI) (auto simp: bit_and_iff bit_push_bit_iff not_less[symmetric])
  then show ?thesis
    by (simp add: disjunctive_add_eq_or[symmetric] push_bit_eq_mult mult.commute)
qed

lemma nat_or_push_bit:
  fixes a :: nat
  assumes "a < 2 ^ n"
  shows "a OR push_bit n b = a + 2 ^ n * b"
proof -
  have "int (a OR push_bit n b) = int a OR push_bit n (int b)"
    by (simp add: of_nat_or_eq of_nat_push_bit)
  also have "\<dots> = int a + 2 ^ n * int b"
    using assms by (intro int_or_push_bit) (simp_all flip: of_nat_power)
  finally have "int (a OR push_bit n b) = int (a + 2 ^ n * b)" by simp
  then show ?thesis by (simp only: of_nat_eq_iff)
qed

lemma le_val_snoc: "le_val (bs @ [b]) = le_val bs + 256 ^ length bs * uint b"
  by (induction bs) (simp_all add: algebra_simps)

lemma le_val_or:
  "n = 8 * length bs \<Longrightarrow> le_val bs OR push_bit n (uint b) = le_val (bs @ [b])"
  using le_val_bound[of bs] by (simp add: int_or_push_bit le_val_snoc power_mult)

lemma le_bytes_cong: "v mod 256 ^ n = w mod 256 ^ n \<Longrightarrow> le_bytes n v = le_bytes n w"
  using le_bytes_le_val[of "le_bytes n v"] le_bytes_le_val[of "le_bytes n w"] by simp


lemma word_of_int_mod_256: "(word_of_int (v mod 256) :: byte) = word_of_int v"
  by (rule word_uint_eqI) (simp add: uint_word_of_int)

lemma word_of_nat_mod_256: "(word_of_nat (v mod 256) :: byte) = word_of_nat v"
  by (rule word_unat_eq_iff[THEN iffD2]) (simp add: unat_of_nat)

lemma le_bytes_numeral:
  "le_bytes (numeral k) v = word_of_int v # le_bytes (pred_numeral k) (v div 256)"
  by (simp add: numeral_eq_Suc)

lemma unat_byte_less [simp]: "unat (b :: byte) < 256"
  using unsigned_less[of b] by simp

lemma uint_and_high:
  fixes b :: byte
  assumes "k \<le> 8"
  shows "uint b AND push_bit k (mask (8 - k)) = uint b div 2 ^ k * 2 ^ k"
proof -
  have "uint b AND push_bit k (mask (8 - k)) = push_bit k (take_bit (8 - k) (drop_bit k (uint b)))"
    by (rule bit_eqI) (auto simp: bit_and_iff bit_push_bit_iff bit_mask_iff bit_take_bit_iff bit_drop_bit_eq)
  also have "take_bit (8 - k) (drop_bit k (uint b)) = drop_bit k (take_bit 8 (uint b))"
    using assms by (simp add: drop_bit_take_bit)
  also have "take_bit 8 (uint b) = uint b"
    using uint_bounded[of b] by (simp add: take_bit_int_eq_self_iff)
  finally show ?thesis by (simp add: push_bit_eq_mult drop_bit_eq_div)
qed

lemma byte_and_high:
  fixes b c :: byte
  shows "b AND 0x80 = c \<longleftrightarrow> uint b div 128 * 128 = uint c"
    "b AND 0xC0 = c \<longleftrightarrow> uint b div 64 * 64 = uint c"
    "b AND 0xE0 = c \<longleftrightarrow> uint b div 32 * 32 = uint c"
    "b AND 0xF0 = c \<longleftrightarrow> uint b div 16 * 16 = uint c"
  using uint_and_high[of 7 b] uint_and_high[of 6 b] uint_and_high[of 5 b] uint_and_high[of 4 b]
  by (simp_all add: word_uint_eq_iff unsigned_and_eq push_bit_eq_mult mask_eq_exp_minus_1)

lemma div_mult_eq_iff:
  fixes x d q :: int
  assumes "0 < d"
  shows "x div d * d = q * d \<longleftrightarrow> q * d \<le> x \<and> x < q * d + d"
proof
  assume "x div d * d = q * d"
  then have "x = q * d + x mod d" using div_mult_mod_eq[of x d] by linarith
  then show "q * d \<le> x \<and> x < q * d + d"
    using pos_mod_sign[OF assms, of x] pos_mod_bound[OF assms, of x] by linarith
next
  assume "q * d \<le> x \<and> x < q * d + d"
  then have "(x - q * d) div d = 0" by (intro div_pos_pos_trivial) auto
  then show "x div d * d = q * d" using assms div_mult_self1[of d "x - q * d" q] by simp
qed

lemma byte_and_255: "(b :: byte) AND 0xFF = b"
proof -
  have "(0xFF :: byte) = mask 8" by (simp add: mask_eq_exp_minus_1)
  then show ?thesis by (simp only: take_bit_eq_mask[symmetric]) (simp add: take_bit_word_eq_self)
qed

lemma unat_and_mask:
  "unat ((b :: byte) AND 127) = unat b mod 128" "unat (b AND 63) = unat b mod 64"
  "unat (b AND 31) = unat b mod 32" "unat (b AND 15) = unat b mod 16"
proof -
  have m: "unat (b AND mask k) = unat b mod 2 ^ k" for k
  proof -
    have "unat (take_bit k b) = take_bit k (unat b)" by (rule unsigned_take_bit_eq)
    then show ?thesis by (simp only: take_bit_eq_mask[symmetric] take_bit_nat_def)
  qed
  have "mask 7 = (127 :: byte)" "mask 6 = (63 :: byte)" "mask 5 = (31 :: byte)" "mask 4 = (15 :: byte)"
    by (simp_all add: mask_eq_exp_minus_1)
  moreover have "(2 :: nat) ^ 7 = 128" "(2 :: nat) ^ 6 = 64" "(2 :: nat) ^ 5 = 32" "(2 :: nat) ^ 4 = 16"
    by simp_all
  ultimately show "unat (b AND 127) = unat b mod 128" "unat (b AND 63) = unat b mod 64"
    "unat (b AND 31) = unat b mod 32" "unat (b AND 15) = unat b mod 16"
    using m[of 7] m[of 6] m[of 5] m[of 4] by metis+
qed

lemma nat_or_high:
  "(x::nat) < 64 \<Longrightarrow> x OR 128 = x + 128" "x < 128 \<Longrightarrow> x OR 128 = x + 128" "x < 16 \<Longrightarrow> x OR 224 = x + 224"
  using nat_or_push_bit[of x 7 1] nat_or_push_bit[of x 4 14] nat_or_push_bit[of x 5 7]
  by (simp_all add: push_bit_eq_mult)

lemma le_val_int_or:
  "uint b1 OR push_bit 8 (uint b2) = le_val [b1, b2]"
  "le_val [b1, b2] OR push_bit 16 (uint b3) = le_val [b1, b2, b3]"
  "le_val [b1, b2, b3] OR push_bit 24 (uint b4) = le_val [b1, b2, b3, b4]"
  "le_val [b1, b2, b3, b4] OR push_bit 32 (uint b5) = le_val [b1, b2, b3, b4, b5]"
  "le_val [b1, b2, b3, b4, b5] OR push_bit 40 (uint b6) = le_val [b1, b2, b3, b4, b5, b6]"
  "le_val [b1, b2, b3, b4, b5, b6] OR push_bit 48 (uint b7) = le_val [b1, b2, b3, b4, b5, b6, b7]"
  "le_val [b1, b2, b3, b4, b5, b6, b7] OR push_bit 56 (uint b8) = le_val [b1, b2, b3, b4, b5, b6, b7, b8]"
  using le_val_or[of 8 "[b1]" b2] le_val_or[of 16 "[b1, b2]" b3] le_val_or[of 24 "[b1, b2, b3]" b4]
    le_val_or[of 32 "[b1, b2, b3, b4]" b5] le_val_or[of 40 "[b1, b2, b3, b4, b5]" b6]
    le_val_or[of 48 "[b1, b2, b3, b4, b5, b6]" b7] le_val_or[of 56 "[b1, b2, b3, b4, b5, b6, b7]" b8]
  by (simp_all del: le_val.simps) (simp only: le_val.simps mult_zero_right add_0_right)

lemma unat_byte_of_nat: "n < 256 \<Longrightarrow> unat (word_of_nat n :: byte) = n"
  by (simp add: unat_of_nat)

lemma unat_byte_of_int: "0 \<le> v \<Longrightarrow> v < 256 \<Longrightarrow> unat (word_of_int v :: byte) = nat v"
  using unat_byte_of_nat[of "nat v"] by simp

lemma uint_byte_of_int: "uint (word_of_int v :: byte) = v mod 256"
  by (simp add: uint_word_of_int)

lemma uint_unat: "uint b = int (unat b)"
  by simp

lemma le_bytes_nth:
  "le_bytes 2 v = [a, b] \<Longrightarrow> le_val [a, b] = v mod 2 ^ 16"
  "le_bytes 3 v = [a, b, c] \<Longrightarrow> le_val [a, b, c] = v mod 2 ^ 24"
  "le_bytes 4 v = [a, b, c, d] \<Longrightarrow> le_val [a, b, c, d] = v mod 2 ^ 32"
  "le_bytes 8 v = [a, b, c, d, e, f, g, h] \<Longrightarrow> le_val [a, b, c, d, e, f, g, h] = v mod 2 ^ 64"
  using le_val_le_bytes[of 2 v] le_val_le_bytes[of 3 v] le_val_le_bytes[of 4 v] le_val_le_bytes[of 8 v]
  by (simp_all del: le_val.simps le_val_le_bytes)

lemma le_bytes_form:
  obtains a b c d e f g h where "le_bytes 2 v = [a, b]" "le_bytes 3 v = [a, b, c]"
    "le_bytes 4 v = [a, b, c, d]" "le_bytes 8 v = [a, b, c, d, e, f, g, h]"
  by (simp add: le_bytes_numeral)

end
