(* ===== verification/Set_Interface.thy ===== *)
theory Set_Interface
  imports Redis_Prelude
begin

text \<open>
  The contract of the set encodings of Redis: what \<open>intsetAdd\<close>, \<open>intsetRemove\<close>, \<open>intsetFind\<close>
  and their counterparts for the set object promise to their callers. An encoding may refuse
  some members (an intset holds only integers) and may be bounded in the number of members;
  both are parameters. The consequences proved once here are the behaviour of a loop
  that adds or removes a list of members and counts the successes, as the variadic commands
  do, and the behaviour of an arbitrary sequence of updates.
\<close>

datatype 'a set_update = Add 'a | Remove 'a

text \<open>The loop of the variadic commands: apply \<open>f\<close> to each argument, count the successes.\<close>

primrec count_all :: "('s \<Rightarrow> 'a \<Rightarrow> 's \<times> bool) \<Rightarrow> 's \<Rightarrow> 'a list \<Rightarrow> 's \<times> nat" where
  "count_all f s [] = (s, 0)"
| "count_all f s (x # xs) =
     (let (s', b) = f s x; (s'', n) = count_all f s' xs in (s'', (if b then 1 else 0) + n))"

text \<open>A sequence of updates with the result of each, on an encoding and on an abstract set.\<close>

primrec run_updates ::
  "('s \<Rightarrow> 'a \<Rightarrow> 's \<times> bool) \<Rightarrow> ('s \<Rightarrow> 'a \<Rightarrow> 's \<times> bool) \<Rightarrow> 's \<Rightarrow> 'a set_update list \<Rightarrow> 's \<times> bool list" where
  "run_updates add rem s [] = (s, [])"
| "run_updates add rem s (u # us) =
     (let (s', b) = (case u of Add x \<Rightarrow> add s x | Remove x \<Rightarrow> rem s x);
          (s'', bs) = run_updates add rem s' us
      in (s'', b # bs))"

definition spec_add :: "'a set \<Rightarrow> 'a \<Rightarrow> 'a set \<times> bool" where
  "spec_add A x = (insert x A, x \<notin> A)"

definition spec_rem :: "'a set \<Rightarrow> 'a \<Rightarrow> 'a set \<times> bool" where
  "spec_rem A x = (A - {x}, x \<in> A)"

locale set_encoding =
  fixes invar :: "'s \<Rightarrow> bool"
    and elems :: "'s \<Rightarrow> 'a set"
    and ok :: "'a \<Rightarrow> bool"
    and cap :: nat
    and add :: "'s \<Rightarrow> 'a \<Rightarrow> 's \<times> bool"
    and rem :: "'s \<Rightarrow> 'a \<Rightarrow> 's \<times> bool"
    and mem :: "'s \<Rightarrow> 'a \<Rightarrow> bool"
  assumes finite_elems: "invar s \<Longrightarrow> finite (elems s)"
    and add_invar: "invar s \<Longrightarrow> ok x \<Longrightarrow> card (elems s) < cap \<Longrightarrow> invar (fst (add s x))"
    and add_elems: "invar s \<Longrightarrow> ok x \<Longrightarrow> card (elems s) < cap \<Longrightarrow>
        elems (fst (add s x)) = insert x (elems s)"
    and add_result: "invar s \<Longrightarrow> ok x \<Longrightarrow> card (elems s) < cap \<Longrightarrow>
        snd (add s x) \<longleftrightarrow> x \<notin> elems s"
    and rem_invar: "invar s \<Longrightarrow> ok x \<Longrightarrow> invar (fst (rem s x))"
    and rem_elems: "invar s \<Longrightarrow> ok x \<Longrightarrow> elems (fst (rem s x)) = elems s - {x}"
    and rem_result: "invar s \<Longrightarrow> ok x \<Longrightarrow> snd (rem s x) \<longleftrightarrow> x \<in> elems s"
    and mem_correct: "invar s \<Longrightarrow> ok x \<Longrightarrow> mem s x \<longleftrightarrow> x \<in> elems s"
begin

lemma add_card:
  assumes "invar s" "ok x" "card (elems s) < cap"
  shows "card (elems (fst (add s x))) = card (elems s) + (if snd (add s x) then 1 else 0)"
  using assms finite_elems[OF assms(1)] by (simp add: add_elems add_result card_insert_if)

lemma rem_card:
  assumes "invar s" "ok x"
  shows "card (elems s) = card (elems (fst (rem s x))) + (if snd (rem s x) then 1 else 0)"
  using assms finite_elems[OF assms(1)]
  by (simp add: rem_elems rem_result card_Suc_Diff1 del: card_Diff_insert)

lemma add_all_correct:
  assumes "invar s" "\<forall>x \<in> set xs. ok x" "card (elems s) + length xs \<le> cap"
  shows "invar (fst (count_all add s xs)) \<and> elems (fst (count_all add s xs)) = elems s \<union> set xs \<and>
    card (elems s \<union> set xs) = card (elems s) + snd (count_all add s xs)"
  using assms
proof (induction xs arbitrary: s)
  case (Cons x xs)
  have p: "invar s" "ok x" "card (elems s) < cap" using Cons.prems by auto
  have "card (elems (fst (add s x))) + length xs \<le> cap"
    using add_card[OF p] Cons.prems(3) by auto
  from Cons.IH[OF add_invar[OF p] _ this] Cons.prems(2)
  show ?case using add_card[OF p] add_elems[OF p] by (auto simp: Let_def split_beta)
qed simp

lemma rem_all_correct:
  assumes "invar s" "\<forall>x \<in> set xs. ok x"
  shows "invar (fst (count_all rem s xs)) \<and> elems (fst (count_all rem s xs)) = elems s - set xs \<and>
    card (elems s) = card (elems s - set xs) + snd (count_all rem s xs)"
  using assms
proof (induction xs arbitrary: s)
  case (Cons x xs)
  have p: "invar s" "ok x" using Cons.prems by auto
  have "elems s - insert x (set xs) = elems s - {x} - set xs" by auto
  then show ?case
    using Cons.IH[OF rem_invar[OF p]] Cons.prems(2) rem_card[OF p] rem_elems[OF p]
    by (auto simp: Let_def split_beta)
qed simp

lemma updates_refine:
  assumes "invar s" "\<forall>u \<in> set us. \<forall>x \<in> set_set_update u. ok x" "card (elems s) + length us \<le> cap"
  shows "invar (fst (run_updates add rem s us)) \<and>
    (elems (fst (run_updates add rem s us)), snd (run_updates add rem s us)) =
      run_updates spec_add spec_rem (elems s) us"
  using assms
proof (induction us arbitrary: s)
  case (Cons u us)
  show ?case
  proof (cases u)
    case (Add x)
    then have p: "invar s" "ok x" "card (elems s) < cap" using Cons.prems by auto
    have "card (elems (fst (add s x))) + length us \<le> cap"
      using add_card[OF p] Cons.prems(3) by auto
    from Cons.IH[OF add_invar[OF p] _ this] Cons.prems(2)
    show ?thesis
      using Add add_elems[OF p] add_result[OF p] by (auto simp: Let_def split_beta prod_eq_iff spec_add_def spec_rem_def)
  next
    case (Remove x)
    then have p: "invar s" "ok x" using Cons.prems by auto
    have "card (elems (fst (rem s x))) + length us \<le> cap"
      using rem_card[OF p] Cons.prems(3) by auto
    from Cons.IH[OF rem_invar[OF p] _ this] Cons.prems(2)
    show ?thesis
      using Remove rem_elems[OF p] rem_result[OF p] by (auto simp: Let_def split_beta prod_eq_iff spec_add_def spec_rem_def)
  qed
qed simp

end

end
