(* ===== verification/Intset.thy ===== *)
theory Intset
  imports Set_Interface
begin

text \<open>
  The integer set of \<^verbatim>\<open>intset.c\<close>: a sorted array of 16, 32 or 64 bit integers kept
  as raw little-endian bytes. The model keeps the bytes, so that the in-place upgrade
  of the encoding and the \<open>memmove\<close> of the tail are the ones the code performs.
  The abstraction \<open>intset_vals\<close> reads the array as a list of integers; the lemmas
  show that the operations implement a sorted list without duplicates, hence a set.
\<close>

section \<open>Data and operations\<close>

record intset =
  is_encoding :: nat
  is_length :: nat
  is_contents :: "byte list"

definition INTSET_ENC_INT16 :: nat where "INTSET_ENC_INT16 = 2"
definition INTSET_ENC_INT32 :: nat where "INTSET_ENC_INT32 = 4"
definition INTSET_ENC_INT64 :: nat where "INTSET_ENC_INT64 = 8"

lemmas enc_defs = INTSET_ENC_INT16_def INTSET_ENC_INT32_def INTSET_ENC_INT64_def

definition intsetValueEncoding :: "int \<Rightarrow> nat" where
  "intsetValueEncoding v =
     (if v < INT32_MIN \<or> v > INT32_MAX then INTSET_ENC_INT64
      else if v < INT16_MIN \<or> v > INT16_MAX then INTSET_ENC_INT32
      else INTSET_ENC_INT16)"

text \<open>
  \<open>_intsetGetEncoded\<close>: the \<open>memcpy\<close> of 8, 4 or 2 bytes at the scaled position, read
  as a little-endian two's complement number (\<open>memrev64ifbe\<close> makes that the format on
  every host).
\<close>

definition intsetGetEncoded :: "intset \<Rightarrow> nat \<Rightarrow> nat \<Rightarrow> int" where
  "intsetGetEncoded is pos enc =
     (if enc = INTSET_ENC_INT64 then to_signed 8 (le_val (read_at (8 * pos) 8 (is_contents is)))
      else if enc = INTSET_ENC_INT32 then to_signed 4 (le_val (read_at (4 * pos) 4 (is_contents is)))
      else to_signed 2 (le_val (read_at (2 * pos) 2 (is_contents is))))"

text \<open>\<open>_intsetGet\<close>\<close>

definition intsetGetAt :: "intset \<Rightarrow> nat \<Rightarrow> int" where
  "intsetGetAt is pos = intsetGetEncoded is pos (is_encoding is)"

text \<open>\<open>_intsetSet\<close>\<close>

definition intsetSetAt :: "intset \<Rightarrow> nat \<Rightarrow> int \<Rightarrow> intset" where
  "intsetSetAt is pos v =
     (if is_encoding is = INTSET_ENC_INT64
      then is\<lparr>is_contents := write_at (8 * pos) (le_bytes 8 v) (is_contents is)\<rparr>
      else if is_encoding is = INTSET_ENC_INT32
      then is\<lparr>is_contents := write_at (4 * pos) (le_bytes 4 v) (is_contents is)\<rparr>
      else is\<lparr>is_contents := write_at (2 * pos) (le_bytes 2 v) (is_contents is)\<rparr>)"

definition intsetNew :: intset where
  "intsetNew = \<lparr>is_encoding = INTSET_ENC_INT16, is_length = 0, is_contents = []\<rparr>"

definition intsetResize :: "intset \<Rightarrow> nat \<Rightarrow> intset" where
  "intsetResize is len = is\<lparr>is_contents := realloc (len * is_encoding is) (is_contents is)\<rparr>"

text \<open>The loop of \<open>intsetSearch\<close> over \<open>min\<close>, \<open>max\<close>, \<open>mid\<close> and \<open>cur\<close>.\<close>

function intsetSearchLoop :: "intset \<Rightarrow> int \<Rightarrow> int \<Rightarrow> int \<Rightarrow> int \<Rightarrow> int \<Rightarrow> int \<times> int \<times> int" where
  "intsetSearchLoop is v mn mx mid cur =
     (if mx \<ge> mn then
        let mid = (mn + mx) div 2; cur = intsetGetAt is (nat mid) in
        if v > cur then intsetSearchLoop is v (mid + 1) mx mid cur
        else if v < cur then intsetSearchLoop is v mn (mid - 1) mid cur
        else (mn, mid, cur)
      else (mn, mid, cur))"
  by pat_completeness auto
termination
  by (relation "measure (\<lambda>(is, v, mn, mx, mid, cur). nat (mx + 1 - mn))") auto

declare intsetSearchLoop.simps [simp del]

text \<open>\<open>intsetSearch\<close>: the return value and \<open>*pos\<close>.\<close>

definition intsetSearch :: "intset \<Rightarrow> int \<Rightarrow> bool \<times> nat" where
  "intsetSearch is v =
     (let mx = int (is_length is) - 1 in
      if is_length is = 0 then (False, 0)
      else if v > intsetGetAt is (nat mx) then (False, is_length is)
      else if v < intsetGetAt is 0 then (False, 0)
      else case intsetSearchLoop is v 0 mx (-1) (-1) of (mn, mid, cur) \<Rightarrow>
        if v = cur then (True, nat mid) else (False, nat mn))"

text \<open>
  The \<open>while(length--)\<close> loop of \<open>intsetUpgradeAndAdd\<close>: back to front, in place, reading
  with the old encoding and writing with the new one.
\<close>

primrec intsetUpgradeLoop :: "nat \<Rightarrow> nat \<Rightarrow> nat \<Rightarrow> intset \<Rightarrow> intset" where
  "intsetUpgradeLoop curenc prepend 0 is = is"
| "intsetUpgradeLoop curenc prepend (Suc len) is =
     intsetUpgradeLoop curenc prepend len
       (intsetSetAt is (len + prepend) (intsetGetEncoded is len curenc))"

definition intsetUpgradeAndAdd :: "intset \<Rightarrow> int \<Rightarrow> intset" where
  "intsetUpgradeAndAdd is0 v =
     (let curenc = is_encoding is0;
          newenc = intsetValueEncoding v;
          len = is_length is0;
          prepend = (if v < 0 then 1 else 0);
          is1 = intsetResize (is0\<lparr>is_encoding := newenc\<rparr>) ((is_length is0 + 1) mod 2 ^ 32);
          is2 = intsetUpgradeLoop curenc prepend len is1;
          is3 = (if prepend \<noteq> 0 then intsetSetAt is2 0 v else intsetSetAt is2 (is_length is2) v)
      in is3\<lparr>is_length := (is_length is3 + 1) mod 2 ^ 32\<rparr>)"

text \<open>
  \<open>intsetMoveTail\<close>: \<open>bytes\<close> is a \<open>uint32_t\<close>, so both the difference and the product
  with the element size are taken modulo \<open>2^32\<close>.
\<close>

definition intsetMoveTailBytes :: "nat \<Rightarrow> nat \<Rightarrow> nat \<Rightarrow> nat" where
  "intsetMoveTailBytes len enc from =
     (((len + 2 ^ 32 - from) mod 2 ^ 32) *
      (if enc = INTSET_ENC_INT64 then 8 else if enc = INTSET_ENC_INT32 then 4 else 2)) mod 2 ^ 32"

definition intsetMoveTail :: "intset \<Rightarrow> nat \<Rightarrow> nat \<Rightarrow> intset" where
  "intsetMoveTail is from to =
     (let sz = (if is_encoding is = INTSET_ENC_INT64 then 8
                else if is_encoding is = INTSET_ENC_INT32 then 4 else 2);
          bytes = intsetMoveTailBytes (is_length is) (is_encoding is) from
      in is\<lparr>is_contents := memmove (to * sz) (from * sz) bytes (is_contents is)\<rparr>)"

text \<open>\<open>intsetAdd\<close>: the new set and \<open>*success\<close>.\<close>

definition intsetAdd :: "intset \<Rightarrow> int \<Rightarrow> intset \<times> bool" where
  "intsetAdd is v =
     (let valenc = intsetValueEncoding v in
      if valenc > is_encoding is then (intsetUpgradeAndAdd is v, True)
      else case intsetSearch is v of (found, pos) \<Rightarrow>
        if found then (is, False)
        else
          let is1 = intsetResize is ((is_length is + 1) mod 2 ^ 32);
              is2 = (if pos < is_length is1 then intsetMoveTail is1 pos (pos + 1) else is1);
              is3 = intsetSetAt is2 pos v
          in (is3\<lparr>is_length := (is_length is3 + 1) mod 2 ^ 32\<rparr>, True))"

definition intsetRemove :: "intset \<Rightarrow> int \<Rightarrow> intset \<times> bool" where
  "intsetRemove is v =
     (let valenc = intsetValueEncoding v in
      case intsetSearch is v of (found, pos) \<Rightarrow>
        if valenc \<le> is_encoding is \<and> found then
          let len = is_length is;
              is1 = (if pos < len - 1 then intsetMoveTail is (pos + 1) pos else is);
              is2 = intsetResize is1 (len - 1)
          in (is2\<lparr>is_length := len - 1\<rparr>, True)
        else (is, False))"

definition intsetFind :: "intset \<Rightarrow> int \<Rightarrow> bool" where
  "intsetFind is v \<longleftrightarrow> intsetValueEncoding v \<le> is_encoding is \<and> fst (intsetSearch is v)"

text \<open>\<open>intsetRandom\<close>: the value of \<open>rand()\<close> is the argument, \<open>None\<close> the failed assertion.\<close>

definition intsetRandom :: "nat \<Rightarrow> intset \<Rightarrow> int option" where
  "intsetRandom r is =
     (let len = is_length is in if len = 0 then None else Some (intsetGetAt is (r mod len)))"

definition intsetMax :: "intset \<Rightarrow> int" where
  "intsetMax is = intsetGetAt is (is_length is - 1)"

definition intsetMin :: "intset \<Rightarrow> int" where
  "intsetMin is = intsetGetAt is 0"

definition intsetGet :: "intset \<Rightarrow> nat \<Rightarrow> int option" where
  "intsetGet is pos = (if pos < is_length is then Some (intsetGetAt is pos) else None)"

definition intsetLen :: "intset \<Rightarrow> nat" where
  "intsetLen is = is_length is"

definition intsetBlobLen :: "intset \<Rightarrow> nat" where
  "intsetBlobLen is = 8 + is_length is * is_encoding is"

text \<open>The struct seen as the bytes it occupies, and the cast back.\<close>

definition intset_to_blob :: "intset \<Rightarrow> byte list" where
  "intset_to_blob is =
     le_bytes 4 (int (is_encoding is)) @ le_bytes 4 (int (is_length is)) @ is_contents is"

definition intset_of_blob :: "byte list \<Rightarrow> intset" where
  "intset_of_blob p =
     \<lparr>is_encoding = nat (le_val (read_at 0 4 p)), is_length = nat (le_val (read_at 4 4 p)),
      is_contents = drop 8 p\<rparr>"

fun intsetValidateLoop :: "intset \<Rightarrow> int \<Rightarrow> nat list \<Rightarrow> bool" where
  "intsetValidateLoop is prev [] = True"
| "intsetValidateLoop is prev (i # is') =
     (let cur = intsetGetAt is i in
      if cur \<le> prev then False else intsetValidateLoop is cur is')"

definition intsetValidateIntegrity :: "byte list \<Rightarrow> nat \<Rightarrow> bool \<Rightarrow> bool" where
  "intsetValidateIntegrity p sz deep =
     (if sz < 8 then False
      else
        let is = intset_of_blob p; encoding = is_encoding is in
        if encoding \<noteq> INTSET_ENC_INT64 \<and> encoding \<noteq> INTSET_ENC_INT32 \<and> encoding \<noteq> INTSET_ENC_INT16
        then False
        else
          let record_size = encoding; count = is_length is in
          if 8 + count * record_size \<noteq> sz then False
          else if count = 0 then False
          else if \<not> deep then True
          else intsetValidateLoop is (intsetGetAt is 0) [1..<count])"

section \<open>Abstraction and invariant\<close>

definition intset_vals :: "intset \<Rightarrow> int list" where
  "intset_vals is = map (intsetGetAt is) [0..<is_length is]"

definition valid_enc :: "nat \<Rightarrow> bool" where
  "valid_enc e \<longleftrightarrow> e = INTSET_ENC_INT16 \<or> e = INTSET_ENC_INT32 \<or> e = INTSET_ENC_INT64"

text \<open>
  The representation invariant: the contents hold exactly \<open>length\<close> elements, in strictly
  increasing order, and the byte size of the array fits the 32 bit arithmetic of
  \<open>intsetMoveTail\<close>.
\<close>

definition intset_wf :: "intset \<Rightarrow> bool" where
  "intset_wf is \<longleftrightarrow>
     valid_enc (is_encoding is) \<and>
     length (is_contents is) = is_length is * is_encoding is \<and>
     is_length is * 8 < 2 ^ 32 \<and>
     sorted_wrt (<) (intset_vals is)"

lemma is_length_simps [simp]:
  "is_length (intsetSetAt is pos v) = is_length is"
  "is_length (intsetMoveTail is a b) = is_length is"
  "is_length (intsetResize is n) = is_length is"
  by (simp_all add: intsetSetAt_def intsetMoveTail_def intsetResize_def Let_def)

lemma is_length_intsetUpgradeLoop [simp]:
  "is_length (intsetUpgradeLoop cur prepend len is) = is_length is"
  by (induction len arbitrary: "is") simp_all

lemma is_encoding_intsetSetAt [simp]: "is_encoding (intsetSetAt is pos v) = is_encoding is"
  by (simp add: intsetSetAt_def Let_def)

lemma is_encoding_intsetUpgradeAndAdd:
  "is_encoding (intsetUpgradeAndAdd is v) = intsetValueEncoding v"
proof -
  have "is_encoding (intsetUpgradeLoop cur prepend len is) = is_encoding is" for cur prepend len "is"
    by (induction len arbitrary: "is") simp_all
  then show ?thesis by (simp add: intsetUpgradeAndAdd_def Let_def intsetResize_def)
qed

section \<open>Elements of the raw array\<close>

text \<open>Element \<open>i\<close> of an array of \<open>e\<close>-byte integers in the memory \<open>m\<close>.\<close>

definition elt :: "byte list \<Rightarrow> nat \<Rightarrow> nat \<Rightarrow> int" where
  "elt m e i = to_signed e (le_val (read_at (e * i) e m))"

definition fits :: "nat \<Rightarrow> int \<Rightarrow> bool" where
  "fits e v \<longleftrightarrow> - (2 ^ (8 * e - 1)) \<le> v \<and> v < 2 ^ (8 * e - 1)"

lemma valid_encE:
  assumes "valid_enc e"
  obtains "e = 2" | "e = 4" | "e = 8"
  using assms by (auto simp: valid_enc_def enc_defs)

lemma valid_enc_pos: "valid_enc e \<Longrightarrow> 0 < e"
  by (auto elim: valid_encE)

lemma intsetGetEncoded_elt: "valid_enc e \<Longrightarrow> intsetGetEncoded is pos e = elt (is_contents is) e pos"
  by (auto simp: intsetGetEncoded_def elt_def enc_defs elim!: valid_encE)

lemma intsetSetAt_write:
  "valid_enc (is_encoding is) \<Longrightarrow>
   intsetSetAt is pos v =
   is\<lparr>is_contents := write_at (is_encoding is * pos) (le_bytes (is_encoding is) v) (is_contents is)\<rparr>"
  by (auto simp: intsetSetAt_def enc_defs elim!: valid_encE)

lemma intsetGetAt_elt:
  "valid_enc (is_encoding is) \<Longrightarrow> intsetGetAt is = elt (is_contents is) (is_encoding is)"
  by (rule ext) (simp add: intsetGetAt_def intsetGetEncoded_elt)

lemma fits_valueEncoding:
  assumes "valid_enc e" "is_int64 v"
  shows "intsetValueEncoding v \<le> e \<longleftrightarrow> fits e v"
  using assms
  by (auto simp: intsetValueEncoding_def fits_def enc_defs range_simps elim!: valid_encE)

lemma valid_enc_valueEncoding [simp]: "valid_enc (intsetValueEncoding v)"
  by (auto simp: intsetValueEncoding_def valid_enc_def)

lemma fits_elt:
  assumes "valid_enc e" "e * i + e \<le> length m"
  shows "fits e (elt m e i)"
proof -
  define u where "u = le_val (read_at (e * i) e m)"
  have "length (read_at (e * i) e m) = e" using assms by (simp add: mem_simps)
  then have "u < 256 ^ e" "0 \<le> u"
    using le_val_bound[of "read_at (e * i) e m"] by (simp_all add: u_def)
  then show ?thesis
    using assms(1) by (auto simp: fits_def elt_def to_signed_def u_def[symmetric] elim!: valid_encE)
qed

lemma elt_write_same:
  assumes "valid_enc e" "fits e v" "e * i + e \<le> length m"
  shows "elt (write_at (e * i) (le_bytes e v) m) e i = v"
  using assms by (simp add: elt_def mem_simps to_signed_mod fits_def valid_enc_pos)

lemma mult_Suc_le: "i < j \<Longrightarrow> e * i + e \<le> e * (j :: nat)"
  by (metis Suc_leI add.commute mult_Suc_right mult_le_mono2)

lemma elt_write_other:
  assumes "i \<noteq> j" "e * j + e \<le> length m"
  shows "elt (write_at (e * j) (le_bytes e v) m) e i = elt m e i"
proof (cases "i < j")
  case True
  then show ?thesis
    using assms mult_Suc_le[of i j e] by (simp add: elt_def mem_simps)
next
  case False
  then have "e * j + e \<le> e * i" using assms mult_Suc_le[of j i e] by simp
  then show ?thesis
    using assms by (simp add: elt_def mem_simps)
qed

lemma elt_realloc:
  "e * i + e \<le> length m \<Longrightarrow> e * i + e \<le> k \<Longrightarrow> elt (realloc k m) e i = elt m e i"
  by (simp add: elt_def mem_simps)

text \<open>Moving \<open>n\<close> elements from index \<open>a\<close> to index \<open>b\<close>.\<close>

lemma elt_memmove:
  assumes "e * (b + n) \<le> length m" "e * (a + n) \<le> length m"
  shows "elt (memmove (b * e) (a * e) (n * e) m) e i =
           (if b \<le> i \<and> i < b + n then elt m e (a + (i - b)) else elt m e i)"
proof -
  have len: "length (read_at (a * e) (n * e) m) = n * e"
    using assms by (simp add: mem_simps algebra_simps)
  consider "i < b" | "b + n \<le> i" | "b \<le> i" "i < b + n" by linarith
  then show ?thesis
  proof cases
    case 1
    then show ?thesis
      using mult_Suc_le[of i b e] assms len
      by (simp add: elt_def memmove_def mem_simps algebra_simps)
  next
    case 2
    then have "e * (b + n) \<le> e * i" by simp
    then show ?thesis
      using 2 assms len by (simp add: elt_def memmove_def mem_simps algebra_simps)
  next
    case 3
    then have le: "e * i + e \<le> e * (b + n)" "e * b \<le> e * i" by (auto intro: mult_Suc_le)
    have "e * (i - b) = e * i - e * b" by (simp add: diff_mult_distrib2)
    then show ?thesis
      using 3 assms le
      by (simp add: elt_def read_memmove_inside algebra_simps)
  qed
qed

lemma length_memmove_elts:
  "e * (b + n) \<le> length m \<Longrightarrow> e * (a + n) \<le> length m \<Longrightarrow>
   length (memmove (b * e) (a * e) (n * e) m) = length m"
  by (simp add: length_memmove algebra_simps)

lemma intsetMoveTail_eq:
  assumes "valid_enc (is_encoding is)" "is_length is * 8 < 2 ^ 32" "from \<le> is_length is"
  shows "intsetMoveTail is from to =
    is\<lparr>is_contents := memmove (to * is_encoding is) (from * is_encoding is)
        ((is_length is - from) * is_encoding is) (is_contents is)\<rparr>"
proof -
  have "(is_length is + 2 ^ 32 - from) mod 2 ^ 32 = is_length is - from"
    using assms by (simp add: mod_if)
  then show ?thesis
    using assms(1,2)
    by (auto simp: intsetMoveTail_def intsetMoveTailBytes_def enc_defs Let_def elim!: valid_encE)
qed

section \<open>Search\<close>

lemma intset_vals_nth: "i < is_length is \<Longrightarrow> intset_vals is ! i = intsetGetAt is i"
  by (simp add: intset_vals_def)

lemma length_intset_vals [simp]: "length (intset_vals is) = is_length is"
  by (simp add: intset_vals_def)

text \<open>The binary search keeps every element left of \<open>min\<close> below the value and right of \<open>max\<close> above it.\<close>

lemma intsetSearchLoop_correct:
  assumes "sorted_wrt (<) (intset_vals is)" "0 \<le> mn" "mx < int (is_length is)" "mn \<le> mx + 1"
    and "\<And>i. int i < mn \<Longrightarrow> intset_vals is ! i < v"
    and "\<And>i. mx < int i \<Longrightarrow> i < is_length is \<Longrightarrow> v < intset_vals is ! i"
    and "mx < mn \<Longrightarrow> v \<noteq> cur"
    and "intsetSearchLoop is v mn mx mid cur = (mn', mid', cur')"
  shows "(v = cur' \<longrightarrow> 0 \<le> mid' \<and> nat mid' < is_length is \<and> intset_vals is ! nat mid' = v) \<and>
         (v \<noteq> cur' \<longrightarrow> 0 \<le> mn' \<and> mn' \<le> int (is_length is) \<and>
            (\<forall>i. int i < mn' \<longrightarrow> intset_vals is ! i < v) \<and>
            (\<forall>i < is_length is. mn' \<le> int i \<longrightarrow> v < intset_vals is ! i))"
  using assms
proof (induction "is" v mn mx mid cur rule: intsetSearchLoop.induct)
  case (1 "is" v mn mx mid cur)
  show ?case
  proof (cases "mx \<ge> mn")
    case False
    then have "(mn', mid', cur') = (mn, mid, cur)"
      using "1.prems"(8) by (simp add: intsetSearchLoop.simps)
    then show ?thesis using False "1.prems"(2-7) by auto
  next
    case True
    define m where "m = (mn + mx) div 2"
    define c where "c = intsetGetAt is (nat m)"
    have m: "mn \<le> m" "m \<le> mx" using True by (auto simp: m_def)
    then have mlen: "nat m < is_length is" using "1.prems"(2,3) by linarith
    then have c: "c = intset_vals is ! nat m" by (simp add: c_def intset_vals_nth)
    have mono: "intset_vals is ! i < intset_vals is ! j" if "i < j" "j < is_length is" for i j
      using "1.prems"(1) that by (simp add: sorted_wrt_iff_nth_less)
    consider "v > c" | "v < c" | "v = c" by linarith
    then show ?thesis
    proof cases
      case 1
      have lt: "intset_vals is ! i < v" if "int i < m + 1" for i
      proof (cases "i = nat m")
        case False
        then have "i < nat m" using that m "1.prems"(2) by linarith
        from mono[OF this mlen] show ?thesis using 1 c by linarith
      qed (use 1 c in simp)
      show ?thesis
        using 1 m "1.prems" lt True
        by (intro "1.IH"(1)[OF True m_def c_def])
           (auto simp: intsetSearchLoop.simps[of "is" v mn mx mid cur] Let_def m_def[symmetric] c_def[symmetric])
    next
      case 2
      have gt: "v < intset_vals is ! i" if "m - 1 < int i" "i < is_length is" for i
      proof (cases "i = nat m")
        case False
        then have "nat m < i" using that m "1.prems"(2) by linarith
        from mono[OF this that(2)] show ?thesis using 2 c by linarith
      qed (use 2 c in simp)
      show ?thesis
        using 2 m "1.prems" gt True
        by (intro "1.IH"(2)[OF True m_def c_def])
           (auto simp: intsetSearchLoop.simps[of "is" v mn mx mid cur] Let_def m_def[symmetric] c_def[symmetric])
    next
      case 3
      then have "intsetSearchLoop is v mn mx mid cur = (mn, m, c)"
        using True
        by (subst intsetSearchLoop.simps) (simp add: Let_def m_def[symmetric] c_def[symmetric])
      then have "(mn', mid', cur') = (mn, m, c)" using "1.prems"(8) by simp
      then show ?thesis using 3 c m mlen "1.prems"(2) by auto
    qed
  qed
qed

lemma intsetSearch_spec:
  assumes "sorted_wrt (<) (intset_vals is)"
  shows "intsetSearch is v = (v \<in> set (intset_vals is), below v (intset_vals is))"
proof -
  let ?xs = "intset_vals is" and ?n = "is_length is"
  have mono: "?xs ! i < ?xs ! j" if "i < j" "j < ?n" for i j
    using assms that by (simp add: sorted_wrt_iff_nth_less)
  consider "?n = 0" | "0 < ?n" "v > ?xs ! (?n - 1)" | "0 < ?n" "\<not> v > ?xs ! (?n - 1)" "v < ?xs ! 0"
    | "0 < ?n" "\<not> v > ?xs ! (?n - 1)" "\<not> v < ?xs ! 0" by linarith
  then show ?thesis
  proof cases
    case 1
    then show ?thesis by (simp add: intsetSearch_def intset_vals_def)
  next
    case 2
    have lt: "?xs ! i < v" if "i < ?n" for i
      using 2 mono[of i "?n - 1"] that by (cases "i = ?n - 1") (simp, linarith)
    then have "v \<notin> set ?xs" by (auto simp: in_set_conv_nth)
    moreover have "below v ?xs = ?n" using lt by (intro below_eqI) auto
    ultimately show ?thesis
      using 2 by (simp add: intsetSearch_def intset_vals_nth nat_diff_distrib)
  next
    case 3
    have gt: "v < ?xs ! i" if "i < ?n" for i
      using 3 mono[of 0 i] that by (cases "i = 0") (simp, linarith)
    then have "v \<notin> set ?xs" by (force simp: in_set_conv_nth)
    moreover have "below v ?xs = 0" using 3 by (intro below_eqI) auto
    ultimately show ?thesis
      using 3 by (auto simp: intsetSearch_def intset_vals_nth nat_diff_distrib)
  next
    case 4
    obtain mn mid cur where l: "intsetSearchLoop is v 0 (int ?n - 1) (-1) (-1) = (mn, mid, cur)"
      by (metis prod_cases3)
    have *: "intsetSearch is v = (if v = cur then (True, nat mid) else (False, nat mn))"
      using 4 by (simp add: intsetSearch_def intset_vals_nth l nat_diff_distrib)
    have inv: "(v = cur \<longrightarrow> 0 \<le> mid \<and> nat mid < ?n \<and> ?xs ! nat mid = v) \<and>
       (v \<noteq> cur \<longrightarrow> 0 \<le> mn \<and> mn \<le> int ?n \<and> (\<forall>i. int i < mn \<longrightarrow> ?xs ! i < v) \<and>
            (\<forall>i < ?n. mn \<le> int i \<longrightarrow> v < ?xs ! i))"
      using 4 by (intro intsetSearchLoop_correct[OF assms _ _ _ _ _ _ l]) auto
    show ?thesis
    proof (cases "v = cur")
      case True
      with inv have f: "nat mid < ?n" "?xs ! nat mid = v" by auto
      then have "v \<in> set ?xs" by (metis length_intset_vals nth_mem)
      moreover have "below v ?xs = nat mid" using f mono by (intro below_eqI) auto
      ultimately show ?thesis using True * by simp
    next
      case False
      with inv have f: "0 \<le> mn" "mn \<le> int ?n" "\<And>i. int i < mn \<Longrightarrow> ?xs ! i < v"
        "\<And>i. i < ?n \<Longrightarrow> mn \<le> int i \<Longrightarrow> v < ?xs ! i" by auto
      have "?xs ! i \<noteq> v" if "i < ?n" for i
        using f(3)[of i] f(4)[of i] that by (cases "int i < mn") auto
      then have "v \<notin> set ?xs" by (auto simp: in_set_conv_nth)
      moreover have "below v ?xs = nat mn"
      proof (rule below_eqI)
        show "\<not> ?xs ! nat mn < v" if "nat mn < length ?xs"
          using f(4)[of "nat mn"] f(1) that by simp
      qed (use f in auto)
      ultimately show ?thesis using False * by simp
    qed
  qed
qed

section \<open>Insertion and removal\<close>

lemma intset_wfD:
  assumes "intset_wf is"
  shows "valid_enc (is_encoding is)" "length (is_contents is) = is_length is * is_encoding is"
    "is_length is * 8 < 2 ^ 32" "sorted_wrt (<) (intset_vals is)"
  using assms by (auto simp: intset_wf_def)

lemma intset_vals_elt:
  "valid_enc (is_encoding is) \<Longrightarrow>
   intset_vals is = map (elt (is_contents is) (is_encoding is)) [0..<is_length is]"
  by (simp add: intset_vals_def intsetGetAt_elt)

lemma elt_inside:
  assumes "length m = n * e" "i < n"
  shows "e * i + e \<le> length m"
  using mult_Suc_le[OF assms(2), of e] assms(1) by (simp add: mult.commute)

lemma fits_mono: "valid_enc e \<Longrightarrow> valid_enc e' \<Longrightarrow> e \<le> e' \<Longrightarrow> fits e v \<Longrightarrow> fits e' v"
  by (auto simp: fits_def elim!: valid_encE)

text \<open>The in-place upgrade never overwrites an element it has not read yet.\<close>

lemma intsetUpgradeLoop_correct:
  assumes "valid_enc cur" "valid_enc (is_encoding is)" "cur \<le> is_encoding is"
    and "length (is_contents is) = N * is_encoding is" "len + prepend \<le> N"
  shows "is_encoding (intsetUpgradeLoop cur prepend len is) = is_encoding is \<and>
         is_length (intsetUpgradeLoop cur prepend len is) = is_length is \<and>
         length (is_contents (intsetUpgradeLoop cur prepend len is)) = length (is_contents is) \<and>
         (\<forall>i < len. elt (is_contents (intsetUpgradeLoop cur prepend len is)) (is_encoding is) (i + prepend)
                    = elt (is_contents is) cur i) \<and>
         (\<forall>j < N. len + prepend \<le> j \<longrightarrow>
            elt (is_contents (intsetUpgradeLoop cur prepend len is)) (is_encoding is) j
            = elt (is_contents is) (is_encoding is) j)"
  using assms(2-5)
proof (induction len arbitrary: "is")
  case (Suc len)
  let ?e = "is_encoding is" and ?c = "is_contents is"
  let ?v = "elt ?c cur len"
  let ?is1 = "intsetSetAt is (len + prepend) ?v"
  have in1: "?e * (len + prepend) + ?e \<le> length ?c"
    using Suc.prems by (intro elt_inside) auto
  have is1: "?is1 = is\<lparr>is_contents := write_at (?e * (len + prepend)) (le_bytes ?e ?v) ?c\<rparr>"
    using Suc.prems(1) by (rule intsetSetAt_write)
  have len1: "length (is_contents ?is1) = length ?c" using in1 by (simp add: is1 mem_simps)
  have step: "intsetUpgradeLoop cur prepend (Suc len) is = intsetUpgradeLoop cur prepend len ?is1"
    using assms(1) by (simp add: intsetGetEncoded_elt)
  have before: "elt (is_contents ?is1) cur i = elt ?c cur i" if "i < len" for i
  proof -
    have "cur * i + cur \<le> cur * len" using that by (rule mult_Suc_le)
    also have "\<dots> \<le> ?e * (len + prepend)" using Suc.prems(2) by (intro mult_le_mono) auto
    finally show ?thesis using in1 by (subst is1) (simp add: elt_def mem_simps)
  qed
  have "cur * len + cur \<le> ?e * (len + prepend) + ?e"
    using Suc.prems(2) by (intro add_mono mult_le_mono) auto
  then have "fits cur ?v" using in1 assms(1) by (intro fits_elt) auto
  then have fit: "fits ?e ?v" using assms(1) Suc.prems(1,2) by (blast intro: fits_mono)
  have at: "elt (is_contents ?is1) ?e (len + prepend) = ?v"
    using Suc.prems(1) fit in1 by (simp add: is1 elt_write_same)
  have after: "elt (is_contents ?is1) ?e j = elt ?c ?e j" if "j \<noteq> len + prepend" for j
    using that in1 by (simp add: is1 elt_write_other)
  have IH: "is_encoding (intsetUpgradeLoop cur prepend len ?is1) = ?e \<and>
         is_length (intsetUpgradeLoop cur prepend len ?is1) = is_length is \<and>
         length (is_contents (intsetUpgradeLoop cur prepend len ?is1)) = length ?c \<and>
         (\<forall>i < len. elt (is_contents (intsetUpgradeLoop cur prepend len ?is1)) ?e (i + prepend)
                    = elt (is_contents ?is1) cur i) \<and>
         (\<forall>j < N. len + prepend \<le> j \<longrightarrow>
            elt (is_contents (intsetUpgradeLoop cur prepend len ?is1)) ?e j
            = elt (is_contents ?is1) ?e j)"
    using Suc.IH[of ?is1] Suc.prems len1 by (simp add: is1)
  show ?case unfolding step
    using IH Suc.prems(4) by (auto simp: before at after less_Suc_eq)
qed simp

text \<open>A value that does not fit the encoding lies outside the stored range.\<close>

lemma upgrade_outside:
  assumes wf: "intset_wf is" and v: "is_int64 v" and up: "is_encoding is < intsetValueEncoding v"
    and x: "x \<in> set (intset_vals is)"
  shows "if v < 0 then v < x else x < v"
proof -
  note wf = intset_wfD[OF wf]
  have "fits (is_encoding is) x"
    using x wf(1) by (auto simp: intset_vals_elt intro!: fits_elt elt_inside[OF wf(2)])
  moreover have "\<not> fits (is_encoding is) v"
    using up wf(1) v by (simp add: fits_valueEncoding[symmetric])
  ultimately show ?thesis by (auto simp: fits_def)
qed

lemma intsetUpgradeAndAdd_correct:
  assumes wf: "intset_wf is" and v: "is_int64 v" and up: "is_encoding is < intsetValueEncoding v"
    and room: "(is_length is + 1) * 8 < 2 ^ 32"
  shows "intset_wf (intsetUpgradeAndAdd is v)"
    and "intset_vals (intsetUpgradeAndAdd is v) =
           (if v < 0 then v # intset_vals is else intset_vals is @ [v])"
proof -
  let ?e = "intsetValueEncoding v" and ?n = "is_length is" and ?p = "if v < 0 then 1 else 0 :: nat"
  note wf' = intset_wfD[OF wf]
  define is1 where "is1 = intsetResize (is\<lparr>is_encoding := ?e\<rparr>) (?n + 1)"
  define is2 where "is2 = intsetUpgradeLoop (is_encoding is) ?p ?n is1"
  define is3 where "is3 = intsetSetAt is2 (if v < 0 then 0 else ?n) v"
  have e: "valid_enc ?e" "?e \<ge> is_encoding is" using up by auto
  have f1: "is_encoding is1 = ?e" "is_length is1 = ?n"
    "is_contents is1 = realloc ((?n + 1) * ?e) (is_contents is)"
    by (simp_all add: is1_def intsetResize_def)
  have l1: "length (is_contents is1) = (?n + 1) * ?e" by (simp add: f1)
  have old: "elt (is_contents is1) (is_encoding is) i = elt (is_contents is) (is_encoding is) i"
    if "i < ?n" for i
  proof -
    have a: "is_encoding is * i + is_encoding is \<le> length (is_contents is)"
      using elt_inside[OF wf'(2) that] .
    also have "\<dots> \<le> (?n + 1) * ?e" unfolding wf'(2) using e(2) by (intro mult_le_mono) auto
    finally show ?thesis unfolding f1 using a by (intro elt_realloc) auto
  qed
  have loop: "is_encoding is2 = ?e" "is_length is2 = ?n" "length (is_contents is2) = (?n + 1) * ?e"
    "\<And>i. i < ?n \<Longrightarrow> elt (is_contents is2) ?e (i + ?p) = elt (is_contents is) (is_encoding is) i"
    using intsetUpgradeLoop_correct[OF wf'(1), of is1 "?n + 1" ?n ?p] f1 l1 e old
    by (auto simp: is2_def)
  let ?q = "if v < 0 then 0 else ?n"
  have inq: "?e * ?q + ?e \<le> length (is_contents is2)" by (intro elt_inside[OF loop(3)]) auto
  have is3: "is3 = is2\<lparr>is_contents := write_at (?e * ?q) (le_bytes ?e v) (is_contents is2)\<rparr>"
    using e(1) loop(1) by (simp add: is3_def intsetSetAt_write)
  have fit: "fits ?e v" using fits_valueEncoding[OF e(1) v] by simp
  have elts: "elt (is_contents is3) ?e i =
      (if i = ?q then v else elt (is_contents is) (is_encoding is) (i - ?p))" if "i < ?n + 1" for i
    using that inq loop(4)[of "i - ?p"] e(1) fit
    by (auto simp: is3 elt_write_same elt_write_other)
  have res: "intsetUpgradeAndAdd is v = is3\<lparr>is_length := ?n + 1\<rparr>"
    using room by (simp add: intsetUpgradeAndAdd_def Let_def is1_def is2_def is3_def)
  have vals: "intset_vals (intsetUpgradeAndAdd is v) = map (elt (is_contents is3) ?e) [0..<Suc ?n]"
    using e(1) loop(1) by (simp add: res intset_vals_elt is3 del: upt_Suc)
  also have "\<dots> = take ?q (intset_vals is) @ v # drop ?q (intset_vals is)"
    using map_upt_insert[of ?q "intset_vals is" "elt (is_contents is3) ?e" v] elts wf'(1)
    by (auto simp: intset_vals_elt simp del: upt_Suc)
  also have "\<dots> = (if v < 0 then v # intset_vals is else intset_vals is @ [v])" by simp
  finally show final: "intset_vals (intsetUpgradeAndAdd is v) =
    (if v < 0 then v # intset_vals is else intset_vals is @ [v])" .
  have "sorted_wrt (<) (intset_vals (intsetUpgradeAndAdd is v))"
    using upgrade_outside[OF wf v up] wf'(4) by (auto simp: final sorted_wrt_append)
  then show "intset_wf (intsetUpgradeAndAdd is v)"
    using e(1) loop inq room by (simp add: intset_wf_def res is3 mem_simps)
qed

lemma intsetInsertAt_correct:
  assumes wf: "intset_wf is" and v: "is_int64 v" and enc: "intsetValueEncoding v \<le> is_encoding is"
    and room: "(is_length is + 1) * 8 < 2 ^ 32" and pos: "pos \<le> is_length is"
    and is1: "is1 = intsetResize is (is_length is + 1)"
    and is2: "is2 = (if pos < is_length is then intsetMoveTail is1 pos (pos + 1) else is1)"
    and is3: "is3 = (intsetSetAt is2 pos v)\<lparr>is_length := is_length is + 1\<rparr>"
  shows "is_encoding is3 = is_encoding is" "is_length is3 = is_length is + 1"
    "length (is_contents is3) = (is_length is + 1) * is_encoding is"
    "intset_vals is3 = take pos (intset_vals is) @ v # drop pos (intset_vals is)"
proof -
  let ?e = "is_encoding is" and ?n = "is_length is" and ?c = "is_contents is"
  note wf' = intset_wfD[OF wf]
  have f1: "is_encoding is1 = ?e" "is_length is1 = ?n" "is_contents is1 = realloc ((?n + 1) * ?e) ?c"
    by (simp_all add: is1 intsetResize_def)
  have old: "elt (is_contents is1) ?e i = elt ?c ?e i" if "i < ?n" for i
    unfolding f1 using elt_inside[OF wf'(2) that] wf'(2) that by (intro elt_realloc) auto
  have fits_mm: "?e * (pos + 1 + (?n - pos)) \<le> length (is_contents is1)"
    using pos by (simp add: f1 algebra_simps)
  have fits_mm': "(pos + 1) * ?e + (?n - pos) * ?e \<le> (?n + 1) * ?e"
    "pos * ?e + (?n - pos) * ?e \<le> (?n + 1) * ?e"
    using pos by (simp_all flip: add_mult_distrib)
  have c2: "is_encoding is2 = ?e" "is_length is2 = ?n"
    "is_contents is2 = (if pos < ?n then memmove ((pos + 1) * ?e) (pos * ?e) ((?n - pos) * ?e) (is_contents is1)
                        else is_contents is1)"
    using intsetMoveTail_eq[of is1 pos "pos + 1"] wf'(1,3) pos by (auto simp: is2 f1)
  have l2: "length (is_contents is2) = (?n + 1) * ?e"
    using fits_mm' by (simp add: c2 f1 length_memmove)
  have e2: "elt (is_contents is2) ?e i = (if i < pos then elt ?c ?e i else elt ?c ?e (i - 1))"
    if "i < ?n + 1" "i \<noteq> pos" for i
  proof (cases "pos < ?n")
    case True
    then have c: "is_contents is2 = memmove ((pos + 1) * ?e) (pos * ?e) ((?n - pos) * ?e) (is_contents is1)"
      using c2(3) by simp
    have "elt (is_contents is2) ?e i =
      (if pos + 1 \<le> i \<and> i < pos + 1 + (?n - pos) then elt (is_contents is1) ?e (pos + (i - (pos + 1)))
       else elt (is_contents is1) ?e i)"
      unfolding c using fits_mm by (intro elt_memmove) (simp_all add: algebra_simps)
    then show ?thesis using that True old[of i] old[of "i - 1"] by auto
  next
    case False
    then have "i < pos" using that pos by auto
    then show ?thesis using False old pos by (simp add: c2)
  qed
  have inp: "?e * pos + ?e \<le> length (is_contents is2)" using pos by (intro elt_inside[OF l2]) auto
  have s3: "is3 = is2\<lparr>is_contents := write_at (?e * pos) (le_bytes ?e v) (is_contents is2), is_length := ?n + 1\<rparr>"
    using wf'(1) by (simp add: is3 intsetSetAt_write c2)
  have fit: "fits ?e v" using fits_valueEncoding[OF wf'(1) v] enc by simp
  show "is_encoding is3 = ?e" "is_length is3 = ?n + 1" by (simp_all add: s3 c2)
  show "length (is_contents is3) = (?n + 1) * ?e" using inp l2 by (simp add: s3 mem_simps)
  have "elt (is_contents is3) ?e i =
      (if i < pos then elt ?c ?e i else if i = pos then v else elt ?c ?e (i - 1))" if "i \<le> ?n" for i
    using that e2[of i] inp wf'(1) fit by (auto simp: s3 elt_write_same elt_write_other)
  then show "intset_vals is3 = take pos (intset_vals is) @ v # drop pos (intset_vals is)"
    using map_upt_insert[of pos "intset_vals is" "elt (is_contents is3) ?e" v] pos wf'(1)
    by (simp add: intset_vals_elt s3 c2 del: upt_Suc)
qed

definition insert_sorted :: "int \<Rightarrow> int list \<Rightarrow> int list" where
  "insert_sorted v xs = (if v \<in> set xs then xs else take (below v xs) xs @ v # drop (below v xs) xs)"

lemma insert_sorted_eq: "insert_sorted v xs =
    (if v \<in> set xs then xs else takeWhile (\<lambda>x. x < v) xs @ v # dropWhile (\<lambda>x. x < v) xs)"
  unfolding insert_sorted_def dropWhile_eq_drop takeWhile_below[symmetric] by (rule refl)

lemma set_insert_sorted [simp]: "set (insert_sorted v xs) = insert v (set xs)"
proof -
  have "set (take n xs) \<union> set (drop n xs) = set xs" for n
    by (metis append_take_drop_id set_append)
  then show ?thesis by (auto simp: insert_sorted_def)
qed

lemma sorted_insert_sorted: "sorted_wrt (<) xs \<Longrightarrow> sorted_wrt (<) (insert_sorted v xs)"
  by (simp add: insert_sorted_def sorted_insert_below)

lemma insert_sorted_below_all:
  assumes "\<And>x. x \<in> set xs \<Longrightarrow> v < x"
  shows "insert_sorted v xs = v # xs"
proof -
  have "below v xs = 0" using assms by (cases xs) (auto dest: order.asym)
  moreover have "v \<notin> set xs" using assms by blast
  ultimately show ?thesis by (simp add: insert_sorted_def)
qed

lemma insert_sorted_above_all:
  assumes "\<And>x. x \<in> set xs \<Longrightarrow> x < v"
  shows "insert_sorted v xs = xs @ [v]"
proof -
  have "takeWhile (\<lambda>x. x < v) xs = xs" using assms by (simp add: takeWhile_eq_all_conv)
  then have "below v xs = length xs" by (rule arg_cong[of _ _ length])
  moreover have "v \<notin> set xs" using assms by blast
  ultimately show ?thesis by (simp add: insert_sorted_def)
qed

lemma intsetAdd_correct:
  assumes wf: "intset_wf is" and v: "is_int64 v" and room: "(is_length is + 1) * 8 < 2 ^ 32"
  shows "intset_wf (fst (intsetAdd is v))"
    and "intset_vals (fst (intsetAdd is v)) = insert_sorted v (intset_vals is)"
    and "snd (intsetAdd is v) \<longleftrightarrow> v \<notin> set (intset_vals is)"
proof -
  note wf' = intset_wfD[OF wf]
  have "intset_wf (fst (intsetAdd is v)) \<and>
        intset_vals (fst (intsetAdd is v)) = insert_sorted v (intset_vals is) \<and>
        (snd (intsetAdd is v) \<longleftrightarrow> v \<notin> set (intset_vals is))"
  proof (cases "intsetValueEncoding v > is_encoding is")
    case True
    note out = upgrade_outside[OF wf v True]
    have "insert_sorted v (intset_vals is) = (if v < 0 then v # intset_vals is else intset_vals is @ [v])"
      using out insert_sorted_below_all[of "intset_vals is" v] insert_sorted_above_all[of "intset_vals is" v]
      by (cases "v < 0") auto
    moreover have "v \<notin> set (intset_vals is)" using out[of v] by (auto split: if_splits)
    ultimately show ?thesis
      using True intsetUpgradeAndAdd_correct[OF wf v True room] by (simp add: intsetAdd_def)
  next
    case False
    show ?thesis
    proof (cases "v \<in> set (intset_vals is)")
      case True
      then show ?thesis
        using False wf by (simp add: intsetAdd_def intsetSearch_spec[OF wf'(4)] insert_sorted_def)
    next
      case notin: False
      let ?pos = "below v (intset_vals is)"
      have pos: "?pos \<le> is_length is" using below_le[of v "intset_vals is"] by simp
      define is1 where "is1 = intsetResize is (is_length is + 1)"
      define is2 where "is2 = (if ?pos < is_length is then intsetMoveTail is1 ?pos (?pos + 1) else is1)"
      define is3 where "is3 = (intsetSetAt is2 ?pos v)\<lparr>is_length := is_length is + 1\<rparr>"
      have enc: "intsetValueEncoding v \<le> is_encoding is" using False by simp
      note c = intsetInsertAt_correct[OF wf v enc room pos is1_def is2_def is3_def]
      have r: "intsetAdd is v = (is3, True)"
        using False notin room
        by (simp add: intsetAdd_def intsetSearch_spec[OF wf'(4)] Let_def is1_def is2_def is3_def)
      have "intset_vals is3 = insert_sorted v (intset_vals is)"
        using c(4) notin by (simp add: insert_sorted_def)
      moreover from this have "intset_wf is3"
        using c(1-3) wf' room by (simp add: intset_wf_def sorted_insert_sorted)
      ultimately show ?thesis using r notin by simp
    qed
  qed
  then show "intset_wf (fst (intsetAdd is v))"
    "intset_vals (fst (intsetAdd is v)) = insert_sorted v (intset_vals is)"
    "snd (intsetAdd is v) \<longleftrightarrow> v \<notin> set (intset_vals is)" by auto
qed

lemma intsetRemove_correct:
  assumes wf: "intset_wf is" and v: "is_int64 v"
  shows "intset_wf (fst (intsetRemove is v))"
    and "intset_vals (fst (intsetRemove is v)) = remove1 v (intset_vals is)"
    and "snd (intsetRemove is v) \<longleftrightarrow> v \<in> set (intset_vals is)"
proof -
  let ?e = "is_encoding is" and ?n = "is_length is" and ?c = "is_contents is" and ?xs = "intset_vals is"
  let ?pos = "below v ?xs"
  note wf' = intset_wfD[OF wf]
  have "intset_wf (fst (intsetRemove is v)) \<and>
        intset_vals (fst (intsetRemove is v)) = remove1 v ?xs \<and>
        (snd (intsetRemove is v) \<longleftrightarrow> v \<in> set ?xs)"
  proof (cases "v \<in> set ?xs")
    case False
    then have "intsetRemove is v = (is, False)"
      by (simp add: intsetRemove_def intsetSearch_spec[OF wf'(4)])
    then show ?thesis using False wf by (simp add: remove1_idem)
  next
    case True
    have pos: "?pos < ?n" "?xs ! ?pos = v" "remove1 v ?xs = take ?pos ?xs @ drop (Suc ?pos) ?xs"
      using sorted_below_mem[OF wf'(4) True] by auto
    have "fits ?e v"
      using True wf'(1) by (auto simp: intset_vals_elt intro!: fits_elt elt_inside[OF wf'(2)])
    then have enc: "intsetValueEncoding v \<le> ?e" using fits_valueEncoding[OF wf'(1) v] by simp
    define is1 where "is1 = (if ?pos < ?n - 1 then intsetMoveTail is (?pos + 1) ?pos else is)"
    define is2 where "is2 = (intsetResize is1 (?n - 1))\<lparr>is_length := ?n - 1\<rparr>"
    have r: "intsetRemove is v = (is2, True)"
      using True enc
      by (simp add: intsetRemove_def intsetSearch_spec[OF wf'(4)] Let_def is1_def is2_def)
    have "?e * (?pos + (?n - (?pos + 1))) \<le> ?e * ?n" "?e * (?pos + 1 + (?n - (?pos + 1))) \<le> ?e * ?n"
      using pos(1) by (intro mult_le_mono2; simp)+
    then have bnd: "?e * (?pos + (?n - (?pos + 1))) \<le> length ?c"
      "?e * (?pos + 1 + (?n - (?pos + 1))) \<le> length ?c"
      by (simp_all add: wf'(2) mult.commute)
    have c1: "is_encoding is1 = ?e"
      "is_contents is1 = (if ?pos < ?n - 1
         then memmove (?pos * ?e) ((?pos + 1) * ?e) ((?n - (?pos + 1)) * ?e) ?c else ?c)"
      using intsetMoveTail_eq[OF wf'(1,3), of "?pos + 1" ?pos] pos(1) by (auto simp: is1_def)
    have l1: "length (is_contents is1) = ?n * ?e"
      using length_memmove_elts[OF bnd] wf'(2) by (simp add: c1)
    have e1: "elt (is_contents is1) ?e i = (if i < ?pos then ?xs ! i else ?xs ! Suc i)"
      if "i < ?n - 1" for i
    proof (cases "?pos < ?n - 1")
      case True
      then have c: "is_contents is1 = memmove (?pos * ?e) ((?pos + 1) * ?e) ((?n - (?pos + 1)) * ?e) ?c"
        using c1(2) by simp
      have "elt (is_contents is1) ?e i =
        (if ?pos \<le> i \<and> i < ?pos + (?n - (?pos + 1)) then elt ?c ?e (?pos + 1 + (i - ?pos)) else elt ?c ?e i)"
        unfolding c using bnd by (rule elt_memmove)
      then show ?thesis using that wf'(1) by (auto simp: intset_vals_elt)
    next
      case False
      then show ?thesis using that wf'(1) c1 by (simp add: intset_vals_elt)
    qed
    have e2: "elt (is_contents is2) ?e i = (if i < ?pos then ?xs ! i else ?xs ! Suc i)"
      if "i < ?n - 1" for i
    proof -
      have a: "?e * i + ?e \<le> (?n - 1) * ?e"
        using mult_Suc_le[OF that, of ?e] by (simp only: mult.commute)
      also have "\<dots> \<le> length (is_contents is1)" unfolding l1 by (intro mult_le_mono) auto
      finally have "?e * i + ?e \<le> length (is_contents is1)" "?e * i + ?e \<le> (?n - 1) * ?e"
        using a by simp_all
      then show ?thesis using e1[OF that] by (simp add: is2_def intsetResize_def c1 elt_realloc)
    qed
    have f2: "is_encoding is2 = ?e" "is_length is2 = ?n - 1" "length (is_contents is2) = (?n - 1) * ?e"
      by (simp_all add: is2_def intsetResize_def c1)
    have "intset_vals is2 = take ?pos ?xs @ drop (Suc ?pos) ?xs"
      using map_upt_remove[of ?pos ?xs "elt (is_contents is2) ?e"] pos(1) e2 wf'(1)
      by (simp add: intset_vals_elt[of is2] f2)
    then have vals: "intset_vals is2 = remove1 v ?xs" using pos(3) by simp
    moreover have "intset_wf is2"
      using wf' f2 by (simp add: intset_wf_def vals sorted_wrt_remove1)
    ultimately show ?thesis using True r by simp
  qed
  then show "intset_wf (fst (intsetRemove is v))"
    "intset_vals (fst (intsetRemove is v)) = remove1 v ?xs"
    "snd (intsetRemove is v) \<longleftrightarrow> v \<in> set ?xs" by auto
qed

lemma intsetFind_correct:
  assumes wf: "intset_wf is" and v: "is_int64 v"
  shows "intsetFind is v \<longleftrightarrow> v \<in> set (intset_vals is)"
proof -
  note wf' = intset_wfD[OF wf]
  have "v \<in> set (intset_vals is) \<Longrightarrow> fits (is_encoding is) v"
    using wf'(1) by (auto simp: intset_vals_elt intro!: fits_elt elt_inside[OF wf'(2)])
  then show ?thesis
    using fits_valueEncoding[OF wf'(1) v] by (auto simp: intsetFind_def intsetSearch_spec[OF wf'(4)])
qed

lemma intset_wf_New: "intset_wf intsetNew" "intset_vals intsetNew = []"
  by (simp_all add: intset_wf_def intsetNew_def valid_enc_def intset_vals_def)

lemma intset_vals_int64: "intset_wf is \<Longrightarrow> v \<in> set (intset_vals is) \<Longrightarrow> is_int64 v"
proof -
  assume wf: "intset_wf is" and "v \<in> set (intset_vals is)"
  note wf' = intset_wfD[OF wf]
  have "fits (is_encoding is) v"
    using \<open>v \<in> _\<close> wf'(1) by (auto simp: intset_vals_elt intro!: fits_elt elt_inside[OF wf'(2)])
  then have "fits 8 v"
    using wf'(1) fits_mono[of "is_encoding is" 8 v] by (auto simp: valid_enc_def enc_defs)
  then show ?thesis by (simp add: fits_def range_simps)
qed


section \<open>Serialised form\<close>

lemma intset_blob_roundtrip:
  assumes "intset_wf is"
  shows "intset_of_blob (intset_to_blob is) = is"
proof -
  have e: "is_encoding is < 2 ^ 32" and l: "is_length is < 2 ^ 32"
    using assms by (auto simp: intset_wf_def valid_enc_def enc_defs)
  have "le_val (le_bytes 4 (int n)) = int n" if "n < 2 ^ 32" for n
    using that by (simp add: le_val_le_bytes)
  then show ?thesis
    using e l by (simp add: intset_of_blob_def intset_to_blob_def read_at_def)
qed

lemma intsetValidateLoop_correct:
  assumes "n \<le> is_length is" "i < n"
  shows "intsetValidateLoop is (intset_vals is ! i) [Suc i..<n] \<longleftrightarrow>
         sorted_wrt (<) (drop i (take n (intset_vals is)))"
  using assms
proof (induction "n - Suc i" arbitrary: i)
  case 0
  then have "i = n - 1" "0 < n" by auto
  then have "drop i (take n (intset_vals is)) = [intset_vals is ! i]"
    using 0 Cons_nth_drop_Suc[of i "take n (intset_vals is)"] by simp
  then show ?case using 0 by simp
next
  case (Suc k)
  let ?xs = "take n (intset_vals is)"
  have i: "Suc i < n" using Suc by simp
  have IH: "intsetValidateLoop is (intset_vals is ! Suc i) [Suc (Suc i)..<n] \<longleftrightarrow>
      sorted_wrt (<) (drop (Suc i) ?xs)"
    using Suc by auto
  have d: "drop i ?xs = intset_vals is ! i # drop (Suc i) ?xs"
    "drop (Suc i) ?xs = intset_vals is ! Suc i # drop (Suc (Suc i)) ?xs"
    using i Suc.prems Cons_nth_drop_Suc[of i ?xs] Cons_nth_drop_Suc[of "Suc i" ?xs] by simp_all
  have u: "[Suc i..<n] = Suc i # [Suc (Suc i)..<n]" using i by (simp add: upt_conv_Cons)
  have "intsetGetAt is (Suc i) = intset_vals is ! Suc i"
    using i Suc.prems by (simp add: intset_vals_nth)
  then have "intsetValidateLoop is (intset_vals is ! i) [Suc i..<n] \<longleftrightarrow>
      intset_vals is ! i < intset_vals is ! Suc i \<and> sorted_wrt (<) (drop (Suc i) ?xs)"
    using IH unfolding u by (auto simp: Let_def)
  also have "\<dots> \<longleftrightarrow> sorted_wrt (<) (drop i ?xs)"
    unfolding d by auto
  finally show ?case .
qed

lemma intsetValidateIntegrity_iff:
  assumes "length p = sz" "is_length (intset_of_blob p) * 8 < 2 ^ 32"
  shows "intsetValidateIntegrity p sz True \<longleftrightarrow>
    8 \<le> sz \<and> intset_wf (intset_of_blob p) \<and> intset_vals (intset_of_blob p) \<noteq> []"
proof -
  let ?is = "intset_of_blob p"
  have c: "length (is_contents ?is) = sz - 8" using assms by (simp add: intset_of_blob_def)
  have len: "8 + is_length ?is * is_encoding ?is = sz \<longleftrightarrow>
      8 \<le> sz \<and> length (is_contents ?is) = is_length ?is * is_encoding ?is"
    unfolding c by auto
  have ne: "intset_vals ?is \<noteq> [] \<longleftrightarrow> 0 < is_length ?is"
    by (metis length_intset_vals length_greater_0_conv)
  have loop: "intsetValidateLoop ?is (intsetGetAt ?is 0) [1..<is_length ?is] \<longleftrightarrow>
      sorted_wrt (<) (intset_vals ?is)" if "0 < is_length ?is"
    using intsetValidateLoop_correct[of "is_length ?is" ?is 0] that
    by (simp add: intset_vals_nth)
  show ?thesis
    using assms(2) len ne loop
    by (auto simp: intsetValidateIntegrity_def intset_wf_def valid_enc_def Let_def)
qed

lemma intset_to_of_blob:
  assumes "8 \<le> length p"
  shows "intset_to_blob (intset_of_blob p) = p"
proof -
  have "le_bytes 4 (le_val (read_at i 4 p)) = read_at i 4 p" if "i + 4 \<le> length p" for i
    using le_bytes_le_val[of "read_at i 4 p"] that by (simp add: mem_simps)
  then have "intset_to_blob (intset_of_blob p) = read_at 0 4 p @ read_at 4 4 p @ drop 8 p"
    using assms by (simp add: intset_to_blob_def intset_of_blob_def)
  also have "\<dots> = take 4 p @ drop 4 p"
    using append_take_drop_id[of 4 "drop 4 p"] by (simp add: read_at_def)
  finally show ?thesis by simp
qed

lemma length_intset_to_blob: "8 \<le> length (intset_to_blob is)"
  by (simp add: intset_to_blob_def)

lemma intsetAdd_encoding:
  assumes "intset_wf is"
  shows "is_encoding (fst (intsetAdd is v)) = max (is_encoding is) (intsetValueEncoding v)"
  using is_encoding_intsetUpgradeAndAdd[of "is" v]
  by (auto simp: intsetAdd_def Let_def split_beta intsetMoveTail_def intsetResize_def intsetSetAt_def)

section \<open>The set contract and the properties of the component\<close>

lemma card_intset: "intset_wf is \<Longrightarrow> card (set (intset_vals is)) = is_length is"
  by (metis distinct_card intset_wfD(4) length_intset_vals strict_sorted_iff)

interpretation iset: set_encoding intset_wf "\<lambda>is. set (intset_vals is)" is_int64 "2 ^ 29 - 1"
    intsetAdd intsetRemove intsetFind
proof unfold_locales
  fix "is" x
  assume wf: "intset_wf is" and x: "is_int64 x"
  show "intset_wf (fst (intsetRemove is x))" "snd (intsetRemove is x) \<longleftrightarrow> x \<in> set (intset_vals is)"
    using intsetRemove_correct[OF wf x] by simp_all
  have "distinct (intset_vals is)" using intset_wfD(4)[OF wf] by (simp add: strict_sorted_iff)
  then show "set (intset_vals (fst (intsetRemove is x))) = set (intset_vals is) - {x}"
    using intsetRemove_correct(2)[OF wf x] by (simp add: set_remove1_eq)
  show "intsetFind is x \<longleftrightarrow> x \<in> set (intset_vals is)" by (rule intsetFind_correct[OF wf x])
  assume "card (set (intset_vals is)) < 2 ^ 29 - 1"
  then have room: "(is_length is + 1) * 8 < 2 ^ 32" by (simp add: card_intset[OF wf])
  show "intset_wf (fst (intsetAdd is x))" "snd (intsetAdd is x) \<longleftrightarrow> x \<notin> set (intset_vals is)"
    "set (intset_vals (fst (intsetAdd is x))) = insert x (set (intset_vals is))"
    using intsetAdd_correct[OF wf x room] by simp_all
qed simp

text \<open>C13: any sequence of fewer than \<open>2 ^ 29\<close> additions and removals of 64 bit integers, started from the
  empty intset, returns the same results as on an abstract set, and leaves a well-formed intset (so sorted and without
  duplicates) whose elements are those of the abstract set.\<close>
theorem intset_refines_set:
  assumes "\<forall>u \<in> set us. \<forall>v \<in> set_set_update u. is_int64 v" "length us < 2 ^ 29"
  shows "let (is, rs) = run_updates intsetAdd intsetRemove intsetNew us in
    intset_wf is \<and> (set (intset_vals is), rs) = run_updates spec_add spec_rem {} us"
  using iset.updates_refine[of intsetNew us] assms
  by (simp add: intset_wf_New split_beta)

theorem intset_refines_set_witness:
  "let us = [Add 5, Add (-70000), Add 5, Remove 7, Add (2 ^ 40), Remove 5];
       (is, rs) = run_updates intsetAdd intsetRemove intsetNew us in
   intset_wf is \<and> set (intset_vals is) = {-70000, 2 ^ 40} \<and> rs = [True, True, False, False, True, True]"
proof -
  let ?us = "[Add 5, Add (-70000), Add 5, Remove 7, Add (2 ^ 40), Remove 5] :: int set_update list"
  have ok: "\<forall>u \<in> set ?us. \<forall>v \<in> set_set_update u. is_int64 v" "length ?us < 2 ^ 29"
    by (simp_all add: range_simps)
  have spec: "run_updates spec_add spec_rem {} ?us =
      ({-70000, 2 ^ 40}, [True, True, False, False, True, True])"
    by (auto simp: spec_add_def spec_rem_def)
  show ?thesis
    using intset_refines_set[OF ok] unfolding spec Let_def split_beta prod.inject by blast
qed

text \<open>C14: on an intset of at most \<open>2 ^ 29 - 2\<close> elements, so that the new size in bytes fits
  the 32 bit arithmetic, \<open>intsetAdd\<close> inserts a missing value at its place in the sorted array, leaves the array
  as it is when the value is there, reports which of the two happened, and widens the
  encoding exactly when the value needs it.\<close>
theorem intsetAdd_sorted_insert:
  assumes "intset_wf is" "is_int64 v" "(is_length is + 1) * 8 < 2 ^ 32"
  shows "intset_wf (fst (intsetAdd is v)) \<and>
    intset_vals (fst (intsetAdd is v)) =
      (if v \<in> set (intset_vals is) then intset_vals is
       else takeWhile (\<lambda>x. x < v) (intset_vals is) @ v # dropWhile (\<lambda>x. x < v) (intset_vals is)) \<and>
    (snd (intsetAdd is v) \<longleftrightarrow> v \<notin> set (intset_vals is)) \<and>
    is_encoding (fst (intsetAdd is v)) = max (is_encoding is) (intsetValueEncoding v)"
  unfolding insert_sorted_eq[symmetric]
  using intsetAdd_correct[OF assms] intsetAdd_encoding[OF assms(1)] by blast

theorem intsetAdd_sorted_insert_witness:
  "let is = \<lparr>is_encoding = 2, is_length = 2, is_contents = [1, 0, 9, 0]\<rparr> in
   intset_wf is \<and> intset_vals (fst (intsetAdd is 70000)) = [1, 9, 70000] \<and>
   is_encoding (fst (intsetAdd is 70000)) = 4"
proof -
  let ?is = "\<lparr>is_encoding = 2, is_length = 2, is_contents = [1, 0, 9, 0]\<rparr> :: intset"
  have vals: "intset_vals ?is = [1, 9]" by code_simp
  have wf: "intset_wf ?is" unfolding intset_wf_def vals by (simp add: valid_enc_def enc_defs)
  show ?thesis
    using intsetAdd_sorted_insert[OF wf, of 70000] wf
    by (simp add: vals range_simps intsetValueEncoding_def enc_defs)
qed

text \<open>C15: the binary search of \<open>intsetSearch\<close>, with its shortcuts for values outside the stored
  range, decides membership and returns the insertion position: the number of smaller
  elements.\<close>
theorem intsetSearch_position:
  assumes "intset_wf is"
  shows "intsetSearch is v =
    (v \<in> set (intset_vals is), length (filter (\<lambda>x. x < v) (intset_vals is)))"
  using intsetSearch_spec[OF intset_wfD(4)[OF assms]] takeWhile_sorted_filter[OF intset_wfD(4)[OF assms]]
  by simp

theorem intsetSearch_position_witness:
  "let is = \<lparr>is_encoding = 2, is_length = 3, is_contents = [1, 0, 9, 0, 12, 0]\<rparr> in
   intset_wf is \<and> intsetSearch is 10 = (False, 2)"
proof -
  let ?is = "\<lparr>is_encoding = 2, is_length = 3, is_contents = [1, 0, 9, 0, 12, 0]\<rparr> :: intset"
  have vals: "intset_vals ?is = [1, 9, 12]" by code_simp
  have wf: "intset_wf ?is" unfolding intset_wf_def vals by (simp add: valid_enc_def enc_defs)
  show ?thesis using intsetSearch_position[OF wf, of 10] wf by (simp add: vals)
qed

text \<open>C16: deep validation accepts a byte buffer exactly when it is the image of a non-empty
  well-formed intset, for every buffer whose header declares fewer than \<open>2 ^ 29\<close> elements. A
  well-formed intset has fewer than \<open>2 ^ 29\<close> elements too: from there on the byte offsets wrap.\<close>
theorem intsetValidateIntegrity_exact:
  assumes "is_length (intset_of_blob p) < 2 ^ 29"
  shows "intsetValidateIntegrity p (length p) True \<longleftrightarrow>
    (\<exists>is. intset_wf is \<and> intset_vals is \<noteq> [] \<and> p = intset_to_blob is)"
  using intsetValidateIntegrity_iff[of p "length p"] intset_blob_roundtrip intset_to_of_blob[of p] length_intset_to_blob assms
  by auto

theorem intsetValidateIntegrity_exact_witness:
  "is_length (intset_of_blob [2,0,0,0, 2,0,0,0, 1,0, 1,0]) < 2 ^ 29 \<and>
   \<not> (\<exists>is. intset_wf is \<and> intset_vals is \<noteq> [] \<and> [2,0,0,0, 2,0,0,0, 1,0, 1,0] = intset_to_blob is)"
proof -
  have l: "is_length (intset_of_blob [2,0,0,0, 2,0,0,0, 1,0, 1,0]) < 2 ^ 29"
    by (simp add: intset_of_blob_def read_at_def)
  have "\<not> intsetValidateIntegrity [2,0,0,0, 2,0,0,0, 1,0, 1,0]
      (length ([2,0,0,0, 2,0,0,0, 1,0, 1,0] :: byte list)) True"
    by code_simp
  then show ?thesis using intsetValidateIntegrity_exact[OF l] l by blast
qed

text \<open>C21: \<open>intsetMoveTail\<close> counts the bytes to move in a \<open>uint32_t\<close>. On an intset of \<open>2 ^ 29 + 1\<close>
  elements of 8 bytes, a size that \<open>intsetMaxEntries\<close> allows, the count wraps to 8: making room
  at the front moves the first element only, and every element from the third on stays where
  it is, so that the second element is lost.\<close>
theorem intsetMoveTail_wraps:
  assumes "is_encoding is = INTSET_ENC_INT64" "is_length is = 2 ^ 29 + 1"
    "length (is_contents is) = 8 * (2 ^ 29 + 2)" "i < 2 ^ 29 + 2"
  shows "intsetGetAt (intsetMoveTail is 0 1) i = intsetGetAt is (if i = 1 then 0 else i)"
proof -
  let ?is' = "intsetMoveTail is 0 1"
  have "?is' = is\<lparr>is_contents := memmove (1 * 8) (0 * 8) (1 * 8) (is_contents is)\<rparr>"
    using assms(1,2) by (simp add: intsetMoveTail_def intsetMoveTailBytes_def enc_defs)
  then have "is_encoding ?is' = 8" "is_contents ?is' = memmove (1 * 8) (0 * 8) (1 * 8) (is_contents is)"
    using assms(1) by (simp_all add: enc_defs)
  moreover have "valid_enc 8" by (simp add: valid_enc_def enc_defs)
  ultimately show ?thesis
    using elt_memmove[of 8 1 1 "is_contents is" 0 i] assms(1,3)
    by (simp add: intsetGetAt_elt enc_defs)
qed

theorem intsetMoveTail_wraps_witness:
  "let is = \<lparr>is_encoding = 8, is_length = 2 ^ 29 + 1, is_contents = replicate (8 * (2 ^ 29 + 2)) 7\<rparr> in
   intsetGetAt (intsetMoveTail is 0 1) 2 = intsetGetAt is 2"
proof -
  define m :: "byte list" where "m = replicate (8 * (2 ^ 29 + 2)) 7"
  have "length m = 8 * (2 ^ 29 + 2)" unfolding m_def by (rule length_replicate)
  then show ?thesis
    unfolding m_def[symmetric]
    using intsetMoveTail_wraps[of "\<lparr>is_encoding = 8, is_length = 2 ^ 29 + 1, is_contents = m\<rparr>" 2]
    by (simp add: enc_defs)
qed

end
