(* ===== verification/Util.thy ===== *)
theory Util
  imports Redis_Prelude
begin

text \<open>
  The number/string conversions of \<^verbatim>\<open>util.c\<close> (\<open>digits10\<close>, \<open>sdigits10\<close>, \<open>ull2string\<close>,
  \<open>ll2string\<close>, \<open>string2ll\<close>, \<open>string2l\<close>) and the copy of \<open>string2ll\<close> in
  \<^verbatim>\<open>listpack.c\<close> (\<open>lpStringToInt64\<close>). The specification is the canonical decimal
  representation \<open>dec\<close>/\<open>sdec\<close>; the printing loop writes exactly it, and the
  parser accepts exactly it.
\<close>

section \<open>Operations\<close>

function digits10 :: "nat \<Rightarrow> nat" where
  "digits10 v =
     (if v < 10 then 1
      else if v < 100 then 2
      else if v < 1000 then 3
      else if v < 1000000000000 then
        (if v < 100000000 then
           (if v < 1000000 then
              (if v < 10000 then 4 else 5 + (if v \<ge> 100000 then 1 else 0))
            else 7 + (if v \<ge> 10000000 then 1 else 0))
         else if v < 10000000000 then 9 + (if v \<ge> 1000000000 then 1 else 0)
         else 11 + (if v \<ge> 100000000000 then 1 else 0))
      else 12 + digits10 (v div 1000000000000))"
  by pat_completeness auto
termination
  by (relation "measure id") auto

declare digits10.simps [simp del]

text \<open>\<open>sdigits10\<close>: the absolute value of \<open>LLONG_MIN\<close> is taken separately.\<close>

definition sdigits10 :: "int \<Rightarrow> nat" where
  "sdigits10 v =
     (if v < 0 then
        (let uv = (if v \<noteq> INT64_MIN then nat (- v) else nat INT64_MAX + 1) in digits10 uv + 1)
      else digits10 (nat v))"

definition byte_of_char :: "char \<Rightarrow> byte" where
  "byte_of_char c = word_of_nat (of_char c)"

text \<open>The two-digit table of \<open>ull2string\<close>.\<close>

definition digits :: "byte list" where
  "digits = map byte_of_char
     (''0001020304050607080910111213141516171819'' @
      ''2021222324252627282930313233343536373839'' @
      ''4041424344454647484950515253545556575859'' @
      ''6061626364656667686970717273747576777879'' @
      ''8081828384858687888990919293949596979899'')"

function ull2string_loop :: "byte list \<Rightarrow> nat \<Rightarrow> nat \<Rightarrow> byte list \<times> nat \<times> nat" where
  "ull2string_loop dst next v =
     (if v \<ge> 100 then
        let i = (v mod 100) * 2 in
        ull2string_loop (dst[next := digits ! (i + 1), next - 1 := digits ! i]) (next - 2) (v div 100)
      else (dst, next, v))"
  by pat_completeness auto
termination
  by (relation "measure (\<lambda>(dst, next, v). v)") auto

declare ull2string_loop.simps [simp del]

text \<open>\<open>ull2string\<close>: the buffer after the call and the returned length (0 on error).\<close>

definition ull2string :: "byte list \<Rightarrow> nat \<Rightarrow> nat \<Rightarrow> byte list \<times> nat" where
  "ull2string dst dstlen v =
     (let len = digits10 v in
      if len \<ge> dstlen then (if dstlen > 0 then dst[0 := 0] else dst, 0)
      else
        let next = len - 1;
            dst1 = dst[next + 1 := 0] in
        case ull2string_loop dst1 next v of (dst2, next, v) \<Rightarrow>
          if v < 10 then (dst2[next := 48 + word_of_nat v], len)
          else let i = v * 2 in (dst2[next := digits ! (i + 1), next - 1 := digits ! i], len))"

text \<open>\<open>ll2string\<close>: the recursive call works on the buffer after the sign.\<close>

definition ll2string :: "byte list \<Rightarrow> nat \<Rightarrow> int \<Rightarrow> byte list \<times> nat" where
  "ll2string dst dstlen sv =
     (if sv < 0 then
        let v = (if sv \<noteq> INT64_MIN then nat (- sv) else nat INT64_MAX + 1) in
        if dstlen < 2 then (if dstlen > 0 then dst[0 := 0] else dst, 0)
        else case ull2string (tl dst) (dstlen - 1) v of (rest, len) \<Rightarrow>
          (45 # rest, if len = 0 then 0 else len + 1)
      else
        case ull2string dst dstlen (nat sv) of (dst', len) \<Rightarrow>
          (dst', if len = 0 then 0 else len + 0))"

definition LONG_STR_SIZE :: nat where "LONG_STR_SIZE = 21"

text \<open>
  The digit loop shared by \<open>string2ll\<close> and \<open>lpStringToInt64\<close>: \<open>None\<close> is the early
  return on overflow, otherwise the value and the bytes that were not used.
\<close>

fun string2ll_loop :: "nat \<Rightarrow> byte list \<Rightarrow> (nat \<times> byte list) option" where
  "string2ll_loop v [] = Some (v, [])"
| "string2ll_loop v (c # p) =
     (if 48 \<le> c \<and> c \<le> 57 then
        (if v > (2 ^ 64 - 1) div 10 then None
         else
           let v = v * 10 in
           if v > 2 ^ 64 - 1 - (unat c - 48) then None
           else string2ll_loop (v + (unat c - 48)) p)
      else Some (v, c # p))"

definition string2ll :: "byte list \<Rightarrow> int option" where
  "string2ll s =
     (let slen = length s in
      if slen = 0 \<or> slen \<ge> LONG_STR_SIZE then None
      else if slen = 1 \<and> s ! 0 = 48 then Some 0
      else
        let negative = (s ! 0 = 45);
            p = (if negative then tl s else s) in
        if negative \<and> p = [] then None
        else if 49 \<le> p ! 0 \<and> p ! 0 \<le> 57 then
          (case string2ll_loop (unat (p ! 0) - 48) (tl p) of
             None \<Rightarrow> None
           | Some (v, rest) \<Rightarrow>
               if rest \<noteq> [] then None
               else if negative then
                 (if v > nat (- (INT64_MIN + 1)) + 1 then None else Some (- int v))
               else
                 (if int v > INT64_MAX then None else Some (int v)))
        else None)"

text \<open>The digit loop of \<open>lpStringToInt64\<close> in \<^verbatim>\<open>listpack.c\<close>.\<close>

fun lpStringToInt64_loop :: "nat \<Rightarrow> byte list \<Rightarrow> (nat \<times> byte list) option" where
  "lpStringToInt64_loop v [] = Some (v, [])"
| "lpStringToInt64_loop v (c # p) =
     (if 48 \<le> c \<and> c \<le> 57 then
        (if int v > UINT64_MAX div 10 then None
         else
           let v = v * 10 in
           if int v > UINT64_MAX - (uint c - 48) then None
           else lpStringToInt64_loop (v + (unat c - 48)) p)
      else Some (v, c # p))"

definition lpStringToInt64 :: "byte list \<Rightarrow> int option" where
  "lpStringToInt64 s =
     (let slen = length s in
      if slen = 0 \<or> slen \<ge> LONG_STR_SIZE then None
      else if slen = 1 \<and> s ! 0 = 48 then Some 0
      else
        let negative = (s ! 0 = 45);
            p = (if negative then tl s else s) in
        if negative \<and> p = [] then None
        else if 49 \<le> p ! 0 \<and> p ! 0 \<le> 57 then
          (case lpStringToInt64_loop (unat (p ! 0) - 48) (tl p) of
             None \<Rightarrow> None
           | Some (v, rest) \<Rightarrow>
               if rest \<noteq> [] then None
               else if negative then
                 (if v > nat (- (INT64_MIN + 1)) + 1 then None else Some (- int v))
               else
                 (if int v > INT64_MAX then None else Some (int v)))
        else None)"

text \<open>\<open>string2l\<close>: \<open>long\<close> is 64 bits wide, so the range check never fails there.\<close>

definition string2l :: "byte list \<Rightarrow> int option" where
  "string2l s =
     (case string2ll s of None \<Rightarrow> None
      | Some llval \<Rightarrow> if llval < INT64_MIN \<or> llval > INT64_MAX then None else Some llval)"

section \<open>The canonical decimal representation\<close>

fun dec :: "nat \<Rightarrow> byte list" where
  "dec v = (if v < 10 then [48 + word_of_nat v] else dec (v div 10) @ [48 + word_of_nat (v mod 10)])"

declare dec.simps [simp del]

definition sdec :: "int \<Rightarrow> byte list" where
  "sdec v = (if v < 0 then 45 # dec (nat (- v)) else dec (nat v))"

text \<open>The number a string of digits stands for.\<close>

fun dec_val :: "nat \<Rightarrow> byte list \<Rightarrow> nat" where
  "dec_val acc [] = acc"
| "dec_val acc (c # cs) = dec_val (acc * 10 + (unat c - 48)) cs"

definition is_digit :: "byte \<Rightarrow> bool" where
  "is_digit c \<longleftrightarrow> 48 \<le> c \<and> c \<le> 57"

section \<open>Digits\<close>

lemma unat_digit: "d < 10 \<Longrightarrow> unat (48 + word_of_nat d :: byte) = 48 + d"
  by (simp add: unat_word_ariths unat_of_nat)

lemma digit_unat: "is_digit c \<Longrightarrow> 48 + word_of_nat (unat c - 48) = c \<and> unat c - 48 < 10"
proof -
  assume "is_digit c"
  then have b: "48 \<le> unat c" "unat c \<le> 57"
    by (auto simp: is_digit_def word_le_nat_alt)
  have "unat (48 + word_of_nat (unat c - 48) :: byte) = unat c"
    using b unat_digit[of "unat c - 48"] by simp
  then have "48 + word_of_nat (unat c - 48) = c" by (rule word_unat_eq_iff[THEN iffD2])
  then show ?thesis using b by simp
qed

lemma is_digit_digit: "d < 10 \<Longrightarrow> is_digit (48 + word_of_nat d)"
  using unat_digit[of d] by (simp add: is_digit_def word_le_nat_alt)

lemma dec_snoc: "0 < a \<Longrightarrow> d < 10 \<Longrightarrow> dec (a * 10 + d) = dec a @ [48 + word_of_nat d]"
  by (subst dec.simps) simp

lemma dec_nonempty [simp]: "dec v \<noteq> []"
  by (subst dec.simps) simp

lemma dec_100:
  assumes "100 \<le> v"
  shows "dec v = dec (v div 100) @ [48 + word_of_nat (v mod 100 div 10), 48 + word_of_nat (v mod 100 mod 10)]"
proof -
  have m: "v mod 100 = 10 * (v div 10 mod 10) + v mod 10" using mod_mult2_eq[of v 10 10] by simp
  have d: "v div 100 = v div 10 div 10" by (simp add: div_mult2_eq[symmetric])
  have "dec v = dec (v div 10) @ [48 + word_of_nat (v mod 10)]"
    using assms by (subst dec.simps) simp
  also have "dec (v div 10) = dec (v div 10 div 10) @ [48 + word_of_nat (v div 10 mod 10)]"
    using assms by (subst dec.simps) simp
  finally show ?thesis by (simp add: m d)
qed

lemma dec_99:
  assumes "10 \<le> v" "v < 100"
  shows "dec v = [48 + word_of_nat (v div 10), 48 + word_of_nat (v mod 10)]"
proof -
  have "dec v = dec (v div 10) @ [48 + word_of_nat (v mod 10)]"
    using assms by (subst dec.simps) simp
  also have "dec (v div 10) = [48 + word_of_nat (v div 10)]"
    using assms by (subst dec.simps) simp
  finally show ?thesis by simp
qed

lemma dec_length_le: "0 < n \<Longrightarrow> length (dec v) \<le> n \<longleftrightarrow> v < 10 ^ n"
proof (induction v arbitrary: n rule: dec.induct)
  case (1 v)
  show ?case
  proof (cases "v < 10")
    case True
    then have "v < 10 ^ n" using "1.prems" by (metis less_le_trans One_nat_def Suc_leI numeral_One one_le_numeral power_increasing power_one_right)
    moreover have "length (dec v) = 1" using True by (subst dec.simps) simp
    ultimately show ?thesis using "1.prems" by simp
  next
    case False
    have len: "length (dec v) = Suc (length (dec (v div 10)))" using False by (subst dec.simps) simp
    show ?thesis
    proof (cases "n = 1")
      case True
      then show ?thesis using False len by (cases "dec (v div 10)") auto
    next
      case n: False
      then obtain m where m: "n = Suc m" "0 < m" using "1.prems" by (cases n) auto
      have "length (dec v) \<le> n \<longleftrightarrow> v div 10 < 10 ^ m" using len m "1.IH"[OF False m(2)] by simp
      also have "\<dots> \<longleftrightarrow> v < 10 ^ n" by (simp add: m(1) div_less_iff_less_mult mult.commute)
      finally show ?thesis .
    qed
  qed
qed

lemma dec_length_eqI: "10 ^ n \<le> v \<Longrightarrow> v < 10 ^ Suc n \<Longrightarrow> length (dec v) = Suc n"
  using dec_length_le[of n v] dec_length_le[of "Suc n" v]
  by (cases "n = 0") (auto simp: le_Suc_eq not_le dest: leD)

lemma dec_length_shift: "10 ^ k \<le> v \<Longrightarrow> length (dec v) = k + length (dec (v div 10 ^ k))"
proof (induction k arbitrary: v)
  case (Suc k)
  have ge: "10 ^ k \<le> v div 10" using Suc.prems by (simp add: less_eq_div_iff_mult_less_eq mult.commute)
  have "10 \<le> v" using Suc.prems by (metis le_trans one_le_power one_le_numeral mult_le_mono2 power_Suc mult.right_neutral)
  then have "length (dec v) = Suc (length (dec (v div 10)))" by (subst dec.simps) simp
  also have "\<dots> = Suc (k + length (dec (v div 10 div 10 ^ k)))" using Suc.IH[OF ge] by simp
  finally show ?case by (simp add: div_mult2_eq)
qed simp

text \<open>\<open>digits10\<close> counts the digits of the decimal representation.\<close>

lemma digits10_length: "digits10 v = length (dec v)"
proof (induction v rule: digits10.induct)
  case (1 v)
  show ?case
  proof (cases "v < 1000000000000")
    case False
    then have "digits10 v = 12 + digits10 (v div 1000000000000)" by (subst digits10.simps) simp
    also have "\<dots> = 12 + length (dec (v div 10 ^ 12))" using "1" False by simp
    also have "\<dots> = length (dec v)" using False dec_length_shift[of 12 v] by simp
    finally show ?thesis .
  next
    case True
    consider "v < 10" | "10 \<le> v" "v < 100" | "100 \<le> v" "v < 1000" | "1000 \<le> v" "v < 10000"
      | "10000 \<le> v" "v < 100000" | "100000 \<le> v" "v < 1000000" | "1000000 \<le> v" "v < 10000000"
      | "10000000 \<le> v" "v < 100000000" | "100000000 \<le> v" "v < 1000000000"
      | "1000000000 \<le> v" "v < 10000000000" | "10000000000 \<le> v" "v < 100000000000"
      | "100000000000 \<le> v" using True by linarith
    then show ?thesis
    proof cases
      case 1 then show ?thesis by (subst digits10.simps, subst dec.simps) simp
    next
      case 2 then show ?thesis using dec_length_eqI[of 1 v] by (subst digits10.simps) simp
    next
      case 3 then show ?thesis using dec_length_eqI[of 2 v] by (subst digits10.simps) simp
    next
      case 4 then show ?thesis using dec_length_eqI[of 3 v] by (subst digits10.simps) simp
    next
      case 5 then show ?thesis using dec_length_eqI[of 4 v] by (subst digits10.simps) simp
    next
      case 6 then show ?thesis using dec_length_eqI[of 5 v] by (subst digits10.simps) simp
    next
      case 7 then show ?thesis using dec_length_eqI[of 6 v] by (subst digits10.simps) simp
    next
      case 8 then show ?thesis using dec_length_eqI[of 7 v] by (subst digits10.simps) simp
    next
      case 9 then show ?thesis using dec_length_eqI[of 8 v] by (subst digits10.simps) simp
    next
      case 10 then show ?thesis using dec_length_eqI[of 9 v] by (subst digits10.simps) simp
    next
      case 11 then show ?thesis using dec_length_eqI[of 10 v] by (subst digits10.simps) simp
    next
      case 12 then show ?thesis using dec_length_eqI[of 11 v] True by (subst digits10.simps) simp
    qed
  qed
qed

lemma digits_eq:
  "digits = concat (map (\<lambda>k. [48 + word_of_nat (k div 10), 48 + word_of_nat (k mod 10)]) [0..<100])"
  by (simp add: digits_def byte_of_char_def upt_conv_Cons)

lemma nth_concat_pairs:
  "k < n \<Longrightarrow> concat (map (\<lambda>k. [f k, g k]) [0..<n]) ! (k * 2) = f k \<and>
     concat (map (\<lambda>k. [f k, g k]) [0..<n]) ! (k * 2 + 1) = g k"
proof (induction n)
  case (Suc n)
  have len: "length (concat (map (\<lambda>k. [f k, g k]) [0..<n])) = n * 2"
    by (induction n) simp_all
  show ?case
    using Suc len by (cases "k = n") (auto simp: nth_append)
qed simp

lemma digits_table: "k < 100 \<Longrightarrow>
  digits ! (k * 2) = 48 + word_of_nat (k div 10) \<and> digits ! (k * 2 + 1) = 48 + word_of_nat (k mod 10)"
  unfolding digits_eq by (rule nth_concat_pairs)

section \<open>Printing\<close>

lemma update2_drop:
  assumes "n < length dst" "0 < n"
  shows "drop (n - 1) (dst[n := b, n - 1 := a]) = a # b # drop (Suc n) (dst :: 'a list)"
proof -
  have "drop (n - 1) xs = xs ! (n - 1) # xs ! n # drop (Suc n) xs" if "length xs = length dst" for xs :: "'a list"
    using assms that Cons_nth_drop_Suc[of "n - 1" xs] Cons_nth_drop_Suc[of n xs] by simp
  from this[of "dst[n := b, n - 1 := a]"] show ?thesis using assms by simp
qed

text \<open>The loop and the final one or two digits fill the buffer with the decimal representation.\<close>

lemma ull2string_loop_correct:
  assumes "length (dec v) = Suc next" "next < length dst" "ull2string_loop dst next v = (dst', next', v')"
  shows "(if v' < 10 then dst'[next' := 48 + word_of_nat v']
          else dst'[next' := digits ! (v' * 2 + 1), next' - 1 := digits ! (v' * 2)])
         = dec v @ drop (Suc next) dst"
  using assms
proof (induction dst "next" v rule: ull2string_loop.induct)
  case (1 dst "next" v)
  show ?case
  proof (cases "100 \<le> v")
    case True
    have d: "dec v = dec (v div 100) @ [48 + word_of_nat (v mod 100 div 10), 48 + word_of_nat (v mod 100 mod 10)]"
      using True by (rule dec_100)
    have "dec (v div 100) \<noteq> []" by simp
    then have n: "2 \<le> next" "length (dec (v div 100)) = Suc (next - 2)"
      using "1.prems"(1) unfolding d by (cases "dec (v div 100)"; auto)+
    have t: "digits ! (v mod 100 * 2) = 48 + word_of_nat (v mod 100 div 10)"
      "digits ! Suc (v mod 100 * 2) = 48 + word_of_nat (v mod 100 mod 10)"
      using digits_table[of "v mod 100"] by auto
    let ?dst = "dst[next := digits ! (v mod 100 * 2 + 1), next - 1 := digits ! (v mod 100 * 2)]"
    have rest: "drop (Suc (next - 2)) ?dst = drop (next - 1) ?dst" using n(1) by (simp add: Suc_diff_Suc numeral_2_eq_2)
    have "ull2string_loop ?dst (next - 2) (v div 100) = (dst', next', v')"
      using "1.prems"(3) True by (simp add: ull2string_loop.simps[of dst "next" v] Let_def)
    then have "(if v' < 10 then dst'[next' := 48 + word_of_nat v']
          else dst'[next' := digits ! (v' * 2 + 1), next' - 1 := digits ! (v' * 2)])
         = dec (v div 100) @ drop (Suc (next - 2)) ?dst"
      using True n "1.prems"(2) by (intro "1.IH") auto
    also have "\<dots> = dec v @ drop (Suc next) dst"
      unfolding rest using n(1) "1.prems"(2) by (subst update2_drop) (simp_all add: d t)
    finally show ?thesis .
  next
    case False
    then have r: "dst' = dst" "next' = next" "v' = v"
      using "1.prems"(3) by (simp_all add: ull2string_loop.simps[of dst "next" v])
    show ?thesis
    proof (cases "v < 10")
      case True
      then have "dec v = [48 + word_of_nat v]" by (subst dec.simps) simp
      moreover from this have "next = 0" using "1.prems"(1) by simp
      ultimately show ?thesis using True r "1.prems"(2) by (cases dst) simp_all
    next
      case v: False
      then have d: "dec v = [48 + word_of_nat (v div 10), 48 + word_of_nat (v mod 10)]"
        using False by (intro dec_99) auto
      then have n: "next = 1" using "1.prems"(1) by simp
      have "dst[next := digits ! (v * 2 + 1), next - 1 := digits ! (v * 2)]
        = drop (next - 1) (dst[next := digits ! (v * 2 + 1), next - 1 := digits ! (v * 2)])"
        by (simp add: n)
      also have "\<dots> = dec v @ drop (Suc next) dst"
        using "1.prems"(2) n False digits_table[of v] by (subst update2_drop) (auto simp: d)
      finally show ?thesis using v r by simp
    qed
  qed
qed

text \<open>With room for the digits and the terminator, \<open>ull2string\<close> writes them, else it fails.\<close>

lemma ull2string_correct:
  assumes "length (dec v) < dstlen" "dstlen \<le> length dst"
  shows "ull2string dst dstlen v =
    (dec v @ 0 # drop (Suc (length (dec v))) dst, length (dec v))"
proof -
  obtain n where n: "length (dec v) = Suc n" by (cases "dec v") (auto dest: arg_cong[of _ _ "\<lambda>x. x = []"])
  obtain dst' next' v' where l: "ull2string_loop (dst[n + 1 := 0]) n v = (dst', next', v')"
    by (metis prod_cases3)
  have "(if v' < 10 then dst'[next' := 48 + word_of_nat v']
          else dst'[next' := digits ! (v' * 2 + 1), next' - 1 := digits ! (v' * 2)])
         = dec v @ drop (Suc n) (dst[n + 1 := 0])"
    using n assms l by (intro ull2string_loop_correct) auto
  also have "drop (Suc n) (dst[n + 1 := 0]) = 0 # drop (Suc (Suc n)) dst"
    using n assms Cons_nth_drop_Suc[of "Suc n" "dst[n + 1 := 0]"] by simp
  finally show ?thesis
    using assms n l by (simp add: ull2string_def digits10_length Let_def split: if_splits)
qed

lemma sdec_length_int64: "is_int64 v \<Longrightarrow> length (sdec v) < LONG_STR_SIZE"
proof -
  assume v: "is_int64 v"
  have "nat (if v < 0 then - v else v) < 10 ^ 19" using v by (auto simp: range_simps)
  then have "length (dec (nat (if v < 0 then - v else v))) \<le> 19"
    using dec_length_le[of 19] by simp
  then show ?thesis by (auto simp: sdec_def LONG_STR_SIZE_def split: if_splits)
qed

lemma sdigits10_length: "is_int64 v \<Longrightarrow> sdigits10 v = length (sdec v)"
  by (auto simp: sdigits10_def sdec_def digits10_length range_simps)

lemma ll2string_correct:
  assumes "is_int64 v" "length (sdec v) < dstlen" "dstlen \<le> length dst"
  shows "ll2string dst dstlen v =
    (sdec v @ 0 # drop (Suc (length (sdec v))) dst, length (sdec v))"
proof (cases "v < 0")
  case True
  then have u: "(if v \<noteq> INT64_MIN then nat (- v) else nat INT64_MAX + 1) = nat (- v)"
    by (simp add: range_simps)
  have s: "sdec v = 45 # dec (nat (- v))" using True by (simp add: sdec_def)
  have len: "length (dec (nat (- v))) < dstlen - 1" "dstlen - 1 \<le> length (tl dst)" "\<not> dstlen < 2"
    using assms(2,3) by (auto simp: s)
  show ?thesis
    using True assms(3) len ull2string_correct[OF len(1,2)]
    by (cases dst) (simp_all add: ll2string_def u s)
next
  case False
  then have s: "sdec v = dec (nat v)" by (simp add: sdec_def)
  show ?thesis
    using False assms(2,3) ull2string_correct[of "nat v" dstlen dst]
    by (simp add: ll2string_def s)
qed

lemma ll2string_too_small:
  assumes "is_int64 v" "dstlen \<le> length (sdec v)"
  shows "snd (ll2string dst dstlen v) = 0"
proof (cases "v < 0")
  case True
  then have u: "(if v \<noteq> INT64_MIN then nat (- v) else nat INT64_MAX + 1) = nat (- v)"
    by (simp add: range_simps)
  then show ?thesis
    using True assms(2) by (auto simp: ll2string_def sdec_def ull2string_def digits10_length Let_def)
next
  case False
  then show ?thesis
    using assms(2) by (auto simp: ll2string_def sdec_def ull2string_def digits10_length Let_def)
qed

lemma ll2string_too_small_buf:
  assumes "is_int64 v" "dstlen \<le> length (sdec v)" "0 < dstlen" "dstlen \<le> length dst"
  shows "drop dstlen (fst (ll2string dst dstlen v)) = drop dstlen dst \<and>
    0 \<in> set (take dstlen (fst (ll2string dst dstlen v)))"
proof -
  have upd: "drop n (xs[0 := 0]) = drop n xs \<and> 0 \<in> set (take n (xs[0 := 0 :: byte]))"
    if "0 < n" "n \<le> length xs" for n xs
    using that by (cases xs; cases n) auto
  obtain d ds where dst: "dst = d # ds" using assms by (cases dst) auto
  obtain k where k: "dstlen = Suc k" using assms by (cases dstlen) auto
  show ?thesis
  proof (cases "v < 0")
    case True
    then have u: "(if v \<noteq> INT64_MIN then nat (- v) else nat INT64_MAX + 1) = nat (- v)"
      by (simp add: range_simps)
    show ?thesis
    proof (cases "k = 0")
      case True
      then show ?thesis using \<open>v < 0\<close> k dst by (simp add: ll2string_def)
    next
      case False
      then have "ll2string dst dstlen v = (45 # ds[0 := 0], 0)"
        using True assms(2) u
        by (simp add: ll2string_def sdec_def ull2string_def digits10_length dst k)
      then show ?thesis using upd[of k ds] False assms(4) by (simp add: k dst)
    qed
  next
    case False
    then have "ll2string dst dstlen v = (dst[0 := 0], 0)"
      using assms(2,3) by (simp add: ll2string_def sdec_def ull2string_def digits10_length)
    then show ?thesis using upd assms by simp
  qed
qed

section \<open>Parsing\<close>

lemma dec_val_ge: "acc \<le> dec_val acc cs"
proof (induction cs arbitrary: acc)
  case (Cons c cs)
  have "acc \<le> acc * 10 + (unat c - 48)" by simp
  also have "\<dots> \<le> dec_val (acc * 10 + (unat c - 48)) cs" by (rule Cons)
  finally show ?case by simp
qed simp

lemma dec_dec_val:
  "0 < a \<Longrightarrow> list_all is_digit cs \<Longrightarrow> dec (dec_val a cs) = dec a @ cs"
proof (induction cs arbitrary: a)
  case (Cons c cs)
  have c: "48 + word_of_nat (unat c - 48) = c" "unat c - 48 < 10" using Cons.prems digit_unat[of c] by auto
  have "dec (dec_val (a * 10 + (unat c - 48)) cs) = dec (a * 10 + (unat c - 48)) @ cs"
    using Cons by simp
  also have "dec (a * 10 + (unat c - 48)) = dec a @ [c]"
    using Cons.prems c by (simp add: dec_snoc)
  finally show ?case by simp
qed simp

lemma dec_val_snoc: "dec_val a (cs @ [c]) = dec_val a cs * 10 + (unat c - 48)"
  by (induction cs arbitrary: a) auto

lemma dec_posE:
  assumes "0 < v"
  obtains c cs where "dec v = c # cs" "49 \<le> c" "c \<le> 57" "list_all is_digit cs" "dec_val (unat c - 48) cs = v"
  using assms
proof (induction v arbitrary: thesis rule: dec.induct)
  case (1 v)
  show ?case
  proof (cases "v < 10")
    case True
    have "unat (48 + word_of_nat v :: byte) = 48 + v" using True by (rule unat_digit)
    then show ?thesis
      using True "1.prems"(2)
      by (intro "1.prems"(1)[of "48 + word_of_nat v" "[]"])
         (auto simp: dec.simps[of v] word_le_nat_alt)
  next
    case False
    then obtain c cs where c: "dec (v div 10) = c # cs" "49 \<le> c" "c \<le> 57" "list_all is_digit cs"
      "dec_val (unat c - 48) cs = v div 10"
      using "1.IH"[OF False] by (metis div_greater_zero_iff linorder_not_less zero_less_numeral)
    have "dec v = c # (cs @ [48 + word_of_nat (v mod 10)])" using False c(1) by (simp add: dec.simps[of v])
    moreover have "unat (48 + word_of_nat (v mod 10) :: byte) = 48 + v mod 10" by (rule unat_digit) simp
    ultimately show ?thesis
      using c by (intro "1.prems"(1)[of c "cs @ [48 + word_of_nat (v mod 10)]"])
        (auto simp: dec_val_snoc is_digit_digit)
  qed
qed

text \<open>The digit loop consumes everything exactly on digit strings without overflow.\<close>

lemma string2ll_loop_iff:
  assumes "v < 2 ^ 64"
  shows "string2ll_loop v p = Some (w, []) \<longleftrightarrow>
     list_all is_digit p \<and> dec_val v p = w \<and> w < 2 ^ 64"
  using assms
proof (induction p arbitrary: v)
  case (Cons c p)
  let ?d = "unat c - 48"
  show ?case
  proof (cases "is_digit c")
    case False
    then show ?thesis by (auto simp: is_digit_def)
  next
    case True
    have d: "?d < 10" using digit_unat[OF True] by simp
    have ge: "v * 10 + ?d \<le> dec_val (v * 10 + ?d) p" by (rule dec_val_ge)
    show ?thesis
    proof (cases "v * 10 + ?d < 2 ^ 64")
      case small: True
      then have "\<not> v > (2 ^ 64 - 1) div 10" "\<not> v * 10 > 2 ^ 64 - 1 - ?d" by auto
      then have "string2ll_loop v (c # p) = string2ll_loop (v * 10 + ?d) p"
        using True by (simp add: is_digit_def Let_def)
      then show ?thesis using Cons.IH[OF small] True by simp
    next
      case big: False
      then have "v > (2 ^ 64 - 1) div 10 \<or> v * 10 > 2 ^ 64 - 1 - ?d" using d by auto
      then have "string2ll_loop v (c # p) = None"
        using True by (auto simp: is_digit_def Let_def)
      moreover have "\<not> dec_val v (c # p) < 2 ^ 64" using big ge by simp
      ultimately show ?thesis by auto
    qed
  qed
qed auto

lemma digit1_is_digit: "49 \<le> c \<Longrightarrow> c \<le> 57 \<Longrightarrow> is_digit c"
  by (auto simp: is_digit_def word_le_nat_alt)

lemma string2ll_body:
  assumes "p \<noteq> []"
  shows "49 \<le> p ! 0 \<and> p ! 0 \<le> 57 \<and> string2ll_loop (unat (p ! 0) - 48) (tl p) = Some (n, [])
     \<longleftrightarrow> 0 < n \<and> n < 2 ^ 64 \<and> p = dec n"
proof -
  obtain c cs where p: "p = c # cs" using assms by (cases p) auto
  show ?thesis
  proof
    assume "49 \<le> p ! 0 \<and> p ! 0 \<le> 57 \<and> string2ll_loop (unat (p ! 0) - 48) (tl p) = Some (n, [])"
    then have c: "49 \<le> c" "c \<le> 57" and l: "string2ll_loop (unat c - 48) cs = Some (n, [])"
      by (auto simp: p)
    have b: "49 \<le> unat c" "unat c \<le> 57" using c by (auto simp: word_le_nat_alt)
    then have f: "list_all is_digit cs" "dec_val (unat c - 48) cs = n" "n < 2 ^ 64"
      using l string2ll_loop_iff[of "unat c - 48" cs n] by auto
    have "dec n = dec (unat c - 48) @ cs" using dec_dec_val[of "unat c - 48" cs] f b by simp
    moreover have "dec (unat c - 48) = [c]"
      using b digit_unat[OF digit1_is_digit[OF c]] by (subst dec.simps) simp
    moreover have "0 < n" using f(2) dec_val_ge[of "unat c - 48" cs] b by linarith
    ultimately show "0 < n \<and> n < 2 ^ 64 \<and> p = dec n" using f(3) by (simp add: p)
  next
    assume a: "0 < n \<and> n < 2 ^ 64 \<and> p = dec n"
    then obtain d ds where d: "dec n = d # ds" "49 \<le> d" "d \<le> 57" "list_all is_digit ds"
      "dec_val (unat d - 48) ds = n" using dec_posE[of n] by metis
    then have "unat d - 48 < 2 ^ 64" using digit_unat[OF digit1_is_digit[of d]] by simp
    then have "string2ll_loop (unat d - 48) ds = Some (n, [])"
      using d a by (simp add: string2ll_loop_iff)
    then show "49 \<le> p ! 0 \<and> p ! 0 \<le> 57 \<and> string2ll_loop (unat (p ! 0) - 48) (tl p) = Some (n, [])"
      using a d by simp
  qed
qed

lemma dec_0 [simp]: "dec 0 = [48]"
  by (subst dec.simps) simp

lemma dec_head_not_minus: "dec n ! 0 \<noteq> 45"
proof (cases "0 < n")
  case True
  then obtain c cs where "dec n = c # cs" "49 \<le> c" by (rule dec_posE)
  then show ?thesis by (auto simp: word_le_nat_alt)
qed simp

lemma dec_val_dec: "dec_val 0 (dec n) = n"
proof (induction n rule: dec.induct)
  case (1 n)
  show ?case
  proof (cases "n < 10")
    case True
    then show ?thesis using unat_digit[of n] by (subst dec.simps) simp
  next
    case False
    then show ?thesis
      using 1 unat_digit[of "n mod 10"] by (subst dec.simps) (simp add: dec_val_snoc)
  qed
qed

lemma dec_inj: "dec a = dec b \<longleftrightarrow> a = b"
  by (metis dec_val_dec)

lemma sdec_nonempty [simp]: "sdec v \<noteq> []"
  by (simp add: sdec_def)

lemma sdec_inj: "sdec a = sdec b \<longleftrightarrow> a = b"
  using dec_head_not_minus by (auto simp: sdec_def dec_inj split: if_splits) (metis nth_Cons_0)+

text \<open>\<open>string2ll\<close> accepts exactly the canonical representations of 64 bit integers.\<close>

lemma string2ll_iff: "string2ll s = Some v \<longleftrightarrow> is_int64 v \<and> s = sdec v"
proof (cases "length s = 0 \<or> length s \<ge> LONG_STR_SIZE")
  case True
  then show ?thesis
    using sdec_length_int64[of v] by (auto simp: string2ll_def)
next
  case len: False
  show ?thesis
  proof (cases "s = [48]")
    case True
    have "sdec v = [48] \<longleftrightarrow> v = 0" using sdec_inj[of v 0] by (simp add: sdec_def)
    then show ?thesis using True by (auto simp: string2ll_def LONG_STR_SIZE_def range_simps)
  next
    case not0: False
    define neg where "neg = (s ! 0 = 45)"
    define p where "p = (if neg then tl s else s)"
    have s: "s = (if neg then 45 # p else p)" using len by (cases s) (auto simp: neg_def p_def)
    have n0: "\<not> (length s = 1 \<and> s ! 0 = 48)" using not0 by (cases s) auto
    have b: "string2ll s =
       (if neg \<and> p = [] then None
        else if 49 \<le> p ! 0 \<and> p ! 0 \<le> 57 then
          (case string2ll_loop (unat (p ! 0) - 48) (tl p) of None \<Rightarrow> None
           | Some (v, rest) \<Rightarrow>
               if rest \<noteq> [] then None
               else if neg then (if v > nat (- (INT64_MIN + 1)) + 1 then None else Some (- int v))
               else (if int v > INT64_MAX then None else Some (int v)))
        else None)"
      using len n0 unfolding string2ll_def Let_def neg_def p_def by (simp only: if_False simp_thms)
    have "p \<noteq> [] \<or> neg" using len by (auto simp: p_def)
    then have eq: "string2ll s = Some v \<longleftrightarrow> p \<noteq> [] \<and> 49 \<le> p ! 0 \<and> p ! 0 \<le> 57 \<and>
      (\<exists>w. string2ll_loop (unat (p ! 0) - 48) (tl p) = Some (w, []) \<and>
         (if neg then w \<le> 2 ^ 63 \<and> v = - int w else int w < 2 ^ 63 \<and> v = int w))"
      unfolding b by (auto simp: range_simps split: option.splits prod.splits if_splits)
    show ?thesis
    proof (cases "p = []")
      case True
      then have "s = [45]" "string2ll s \<noteq> Some v" using eq s len by (auto split: if_splits)
      moreover have "sdec v \<noteq> [45]"
        using dec_head_not_minus[of "nat v"] by (auto simp: sdec_def)
      ultimately show ?thesis by auto
    next
      case False
      note body = string2ll_body[OF False]
      have "string2ll s = Some v \<longleftrightarrow>
        (\<exists>w. 0 < w \<and> w < 2 ^ 64 \<and> p = dec w \<and>
           (if neg then w \<le> 2 ^ 63 \<and> v = - int w else int w < 2 ^ 63 \<and> v = int w))"
        unfolding eq using body False by blast
      also have "\<dots> \<longleftrightarrow> is_int64 v \<and> s = sdec v"
      proof (cases neg)
        case True
        then have "s = sdec v \<longleftrightarrow> v < 0 \<and> p = dec (nat (- v))"
          using s dec_head_not_minus[of "nat v"] by (auto simp: sdec_def dest: sym[of "45 # p"])
        then show ?thesis using True
          by (auto simp: range_simps intro!: exI[of _ "nat (- v)"])
      next
        case False
        have "v \<noteq> 0" if "s = sdec v" using that not0 by (auto simp: sdec_def)
        moreover have "s = sdec v \<longleftrightarrow> \<not> v < 0 \<and> p = dec (nat v)"
          using s False neg_def by (auto simp: sdec_def)
        ultimately show ?thesis using False not0 s
          by (auto simp: range_simps intro!: exI[of _ "nat v"])
      qed
      finally show ?thesis .
    qed
  qed
qed

lemma lpStringToInt64_loop_eq:
  "lpStringToInt64_loop v p = string2ll_loop v p"
proof (induction p arbitrary: v)
  case (Cons c p)
  have "is_digit c \<Longrightarrow> int (unat c - 48) = uint c - 48 \<and> unat c - 48 < 10"
    using digit_unat[of c] by (auto simp: is_digit_def word_le_nat_alt of_nat_diff)
  then have e: "is_digit c \<Longrightarrow> (int v > UINT64_MAX div 10) = (v > (2 ^ 64 - 1) div 10)"
     "is_digit c \<Longrightarrow> (int (v * 10) > UINT64_MAX - (uint c - 48)) = (v * 10 > 2 ^ 64 - 1 - (unat c - 48))"
    by (auto simp: range_simps)
  show ?case
    unfolding lpStringToInt64_loop.simps string2ll_loop.simps Let_def is_digit_def[symmetric] Cons
    by (cases "is_digit c") (simp_all only: e if_True if_False)
qed simp

lemma lpStringToInt64_eq: "lpStringToInt64 s = string2ll s"
  unfolding lpStringToInt64_def string2ll_def lpStringToInt64_loop_eq by (rule refl)

lemma ll2string_string2ll:
  assumes "is_int64 v" "length (sdec v) < dstlen" "dstlen \<le> length dst"
  shows "string2ll (take (snd (ll2string dst dstlen v)) (fst (ll2string dst dstlen v))) = Some v"
  using assms by (simp add: ll2string_correct string2ll_iff)

section \<open>Properties of the component\<close>

text \<open>C17: \<open>string2ll\<close> accepts a string exactly when it is the canonical decimal form of a 64 bit
  integer (no sign for positive numbers, no leading zeros, no \<open>-0\<close>, no spaces), and then
  returns that integer: the conversion can be undone without loss.\<close>
theorem string2ll_exact: "string2ll s = Some v \<longleftrightarrow> is_int64 v \<and> s = sdec v"
  by (rule string2ll_iff)

text \<open>C19: the copy of the parser in \<open>listpack.c\<close> decides the same language and returns the same
  value as \<open>string2ll\<close>, on every input string.\<close>
theorem lpStringToInt64_same: "lpStringToInt64 s = string2ll s"
  by (rule lpStringToInt64_eq)

text \<open>C18: printing a 64 bit integer with \<open>ll2string\<close> and parsing it back gives the integer. The
  text is zero-terminated, the returned length is its length, and no byte of the buffer beyond the
  terminator changes. A buffer of \<open>LONG_STR_SIZE\<close> bytes is always large enough.\<close>
theorem ll2string_roundtrip:
  assumes "is_int64 v" "LONG_STR_SIZE \<le> length dst"
  shows "let (buf, n) = ll2string dst (length dst) v in
    string2ll (take n buf) = Some v \<and> buf ! n = 0 \<and> n < LONG_STR_SIZE \<and>
    length buf = length dst \<and> drop (Suc n) buf = drop (Suc n) dst"
  using assms sdec_length_int64[OF assms(1)]
  by (auto simp: ll2string_correct string2ll_iff nth_append)

theorem ll2string_roundtrip_witness:
  "let (buf, n) = ll2string (replicate 21 7) 21 INT64_MIN in
    string2ll (take n buf) = Some INT64_MIN \<and> buf ! n = 0"
  using ll2string_roundtrip[of INT64_MIN "replicate 21 7"]
  by (auto simp: range_simps LONG_STR_SIZE_def)

text \<open>C20: when the buffer has no room for the digits, the sign and the terminator, \<open>ll2string\<close>
  returns 0, writes inside the declared length only and leaves a terminated string.\<close>
theorem ll2string_short_buffer:
  assumes "is_int64 v" "dstlen \<le> length (sdec v)" "0 < dstlen" "dstlen \<le> length dst"
  shows "let (buf, n) = ll2string dst dstlen v in
    n = 0 \<and> drop dstlen buf = drop dstlen dst \<and> 0 \<in> set (take dstlen buf)"
  using ll2string_too_small[OF assms(1,2), of dst] ll2string_too_small_buf[OF assms]
  by (simp add: split_beta)

theorem ll2string_short_buffer_witness:
  "let (buf, n) = ll2string (replicate 4 7) 4 (-1234) in
    n = 0 \<and> drop 4 buf = [] \<and> 0 \<in> set (take 4 buf)"
  using ll2string_short_buffer[of "-1234" 4 "replicate 4 7"]
  by (auto simp: range_simps sdec_def dec.simps)

text \<open>The comparison tree of \<open>digits10\<close> counts decimal digits: it returns the \<open>n\<close> with
  \<open>10 ^ (n - 1) \<le> v < 10 ^ n\<close>, and 1 for zero.\<close>
theorem digits10_counts:
  "v < 10 ^ digits10 v \<and> (10 ^ (digits10 v - 1) \<le> v \<or> v = 0 \<and> digits10 v = 1)"
proof -
  let ?n = "length (dec v)"
  have "0 < ?n" by simp
  then have "v < 10 ^ ?n" "1 < ?n \<Longrightarrow> 10 ^ (?n - 1) \<le> v" "?n = 1 \<Longrightarrow> 10 ^ (?n - 1) = (1 :: nat)"
    using dec_length_le[of ?n v] dec_length_le[of "?n - 1" v] by auto
  then show ?thesis
    using \<open>0 < ?n\<close> by (cases "v = 0"; cases "?n = 1") (auto simp: digits10_length simp del: length_greater_0_conv)
qed

end
