(* ===== verification/Listpack_Enc.thy ===== *)
theory Listpack_Enc
  imports Util
begin

text \<open>
  The entry encodings of \<^verbatim>\<open>listpack.c\<close>: integers in 7, 13, 16, 24, 32 or 64 bits,
  strings with a 6, 12 or 32 bit length, and the backward-readable entry length at the
  end of every entry. A pointer into a listpack is the list of bytes from there on
  (\<open>p[i]\<close> is \<open>p ! i\<close>); where the code reads backwards the memory and the index are
  given. The lemmas show that decoding inverts encoding for every 64 bit integer and
  every string, forwards and backwards.
\<close>

section \<open>Encoding\<close>

definition LP_EOF :: byte where "LP_EOF = 0xFF"

definition LP_ENCODING_IS_7BIT_UINT :: "byte \<Rightarrow> bool" where
  "LP_ENCODING_IS_7BIT_UINT b \<longleftrightarrow> b AND 0x80 = 0"
definition LP_ENCODING_IS_6BIT_STR :: "byte \<Rightarrow> bool" where
  "LP_ENCODING_IS_6BIT_STR b \<longleftrightarrow> b AND 0xC0 = 0x80"
definition LP_ENCODING_IS_13BIT_INT :: "byte \<Rightarrow> bool" where
  "LP_ENCODING_IS_13BIT_INT b \<longleftrightarrow> b AND 0xE0 = 0xC0"
definition LP_ENCODING_IS_12BIT_STR :: "byte \<Rightarrow> bool" where
  "LP_ENCODING_IS_12BIT_STR b \<longleftrightarrow> b AND 0xF0 = 0xE0"
definition LP_ENCODING_IS_16BIT_INT :: "byte \<Rightarrow> bool" where
  "LP_ENCODING_IS_16BIT_INT b \<longleftrightarrow> b AND 0xFF = 0xF1"
definition LP_ENCODING_IS_24BIT_INT :: "byte \<Rightarrow> bool" where
  "LP_ENCODING_IS_24BIT_INT b \<longleftrightarrow> b AND 0xFF = 0xF2"
definition LP_ENCODING_IS_32BIT_INT :: "byte \<Rightarrow> bool" where
  "LP_ENCODING_IS_32BIT_INT b \<longleftrightarrow> b AND 0xFF = 0xF3"
definition LP_ENCODING_IS_64BIT_INT :: "byte \<Rightarrow> bool" where
  "LP_ENCODING_IS_64BIT_INT b \<longleftrightarrow> b AND 0xFF = 0xF4"
definition LP_ENCODING_IS_32BIT_STR :: "byte \<Rightarrow> bool" where
  "LP_ENCODING_IS_32BIT_STR b \<longleftrightarrow> b AND 0xFF = 0xF0"

lemmas lp_tag_defs = LP_ENCODING_IS_7BIT_UINT_def LP_ENCODING_IS_6BIT_STR_def
  LP_ENCODING_IS_13BIT_INT_def LP_ENCODING_IS_12BIT_STR_def LP_ENCODING_IS_16BIT_INT_def
  LP_ENCODING_IS_24BIT_INT_def LP_ENCODING_IS_32BIT_INT_def LP_ENCODING_IS_64BIT_INT_def
  LP_ENCODING_IS_32BIT_STR_def

text \<open>\<open>lpEncodeIntegerGetType\<close>: the bytes left in \<open>intenc\<close>; \<open>enclen\<close> is their number.\<close>

definition lpEncodeIntegerGetType :: "int \<Rightarrow> byte list" where
  "lpEncodeIntegerGetType v =
     (if v \<ge> 0 \<and> v \<le> 127 then [word_of_int v]
      else if v \<ge> -4096 \<and> v \<le> 4095 then
        let v = (if v < 0 then 2 ^ 13 + v else v) in
        [word_of_int (drop_bit 8 v OR 0xC0), word_of_int (v AND 0xff)]
      else if v \<ge> -32768 \<and> v \<le> 32767 then
        let v = (if v < 0 then 2 ^ 16 + v else v) in
        [0xF1, word_of_int (v AND 0xff), word_of_int (drop_bit 8 v)]
      else if v \<ge> -8388608 \<and> v \<le> 8388607 then
        let v = (if v < 0 then 2 ^ 24 + v else v) in
        [0xF2, word_of_int (v AND 0xff), word_of_int (drop_bit 8 v AND 0xff),
         word_of_int (drop_bit 16 v)]
      else if v \<ge> -2147483648 \<and> v \<le> 2147483647 then
        let v = (if v < 0 then 2 ^ 32 + v else v) in
        [0xF3, word_of_int (v AND 0xff), word_of_int (drop_bit 8 v AND 0xff),
         word_of_int (drop_bit 16 v AND 0xff), word_of_int (drop_bit 24 v)]
      else
        let uv = v mod 2 ^ 64 in
        [0xF4, word_of_int (uv AND 0xff), word_of_int (drop_bit 8 uv AND 0xff),
         word_of_int (drop_bit 16 uv AND 0xff), word_of_int (drop_bit 24 uv AND 0xff),
         word_of_int (drop_bit 32 uv AND 0xff), word_of_int (drop_bit 40 uv AND 0xff),
         word_of_int (drop_bit 48 uv AND 0xff), word_of_int (drop_bit 56 uv)])"

datatype lp_enctype = LP_ENCODING_INT "byte list" | LP_ENCODING_STRING

text \<open>\<open>lpEncodeGetType\<close>: the type (with \<open>intenc\<close>) and \<open>*enclen\<close>.\<close>

definition lpEncodeGetType :: "byte list \<Rightarrow> lp_enctype \<times> nat" where
  "lpEncodeGetType ele =
     (let size = length ele in
      case lpStringToInt64 ele of
        Some v \<Rightarrow> (let intenc = lpEncodeIntegerGetType v in (LP_ENCODING_INT intenc, length intenc))
      | None \<Rightarrow>
          (LP_ENCODING_STRING,
           if size < 64 then 1 + size else if size < 4096 then 2 + size else 5 + size))"

text \<open>\<open>lpEncodeBacklen\<close>: the bytes written to \<open>buf\<close>; the return value is their number.\<close>

definition lpEncodeBacklen :: "nat \<Rightarrow> byte list" where
  "lpEncodeBacklen l =
     (if l \<le> 127 then [word_of_nat l]
      else if l < 16383 then
        [word_of_nat (drop_bit 7 l), word_of_nat ((l AND 127) OR 128)]
      else if l < 2097151 then
        [word_of_nat (drop_bit 14 l), word_of_nat ((drop_bit 7 l AND 127) OR 128),
         word_of_nat ((l AND 127) OR 128)]
      else if l < 268435455 then
        [word_of_nat (drop_bit 21 l), word_of_nat ((drop_bit 14 l AND 127) OR 128),
         word_of_nat ((drop_bit 7 l AND 127) OR 128), word_of_nat ((l AND 127) OR 128)]
      else
        [word_of_nat (drop_bit 28 l), word_of_nat ((drop_bit 21 l AND 127) OR 128),
         word_of_nat ((drop_bit 14 l AND 127) OR 128), word_of_nat ((drop_bit 7 l AND 127) OR 128),
         word_of_nat ((l AND 127) OR 128)])"

text \<open>
  \<open>lpDecodeBacklen\<close> walks towards lower addresses. The loop is given with \<open>None\<close> for the early
  return, which the function turns into the error value \<open>UINT64_MAX\<close>.
\<close>

function lpDecodeBacklen_loop :: "byte list \<Rightarrow> nat \<Rightarrow> nat \<Rightarrow> nat \<Rightarrow> nat option" where
  "lpDecodeBacklen_loop m p val shift =
     (let val = val OR push_bit shift (unat (m ! p AND 127)) in
      if m ! p AND 128 = 0 then Some val
      else
        let shift = shift + 7 in
        if shift > 28 then None else lpDecodeBacklen_loop m (p - 1) val shift)"
  by pat_completeness auto
termination
  by (relation "measure (\<lambda>(m, p, val, shift). 29 - shift)") auto

declare lpDecodeBacklen_loop.simps [simp del]

definition lpDecodeBacklen :: "byte list \<Rightarrow> nat \<Rightarrow> nat" where
  "lpDecodeBacklen m p =
     (case lpDecodeBacklen_loop m p 0 0 of None \<Rightarrow> nat UINT64_MAX | Some val \<Rightarrow> val)"

definition lpEncodeString :: "byte list \<Rightarrow> byte list" where
  "lpEncodeString s =
     (let len = length s in
      if len < 64 then word_of_nat (len OR 0x80) # s
      else if len < 4096 then
        word_of_nat (drop_bit 8 len OR 0xE0) # word_of_nat (len AND 0xff) # s
      else
        [0xF0, word_of_nat (len AND 0xff), word_of_nat (drop_bit 8 len AND 0xff),
         word_of_nat (drop_bit 16 len AND 0xff), word_of_nat (drop_bit 24 len AND 0xff)] @ s)"

section \<open>Decoding\<close>

definition LP_ENCODING_6BIT_STR_LEN :: "byte list \<Rightarrow> nat" where
  "LP_ENCODING_6BIT_STR_LEN p = unat (p ! 0 AND 0x3F)"

definition LP_ENCODING_12BIT_STR_LEN :: "byte list \<Rightarrow> nat" where
  "LP_ENCODING_12BIT_STR_LEN p = push_bit 8 (unat (p ! 0 AND 0xF)) OR unat (p ! 1)"

definition LP_ENCODING_32BIT_STR_LEN :: "byte list \<Rightarrow> nat" where
  "LP_ENCODING_32BIT_STR_LEN p =
     unat (p ! 1) OR push_bit 8 (unat (p ! 2)) OR push_bit 16 (unat (p ! 3)) OR
     push_bit 24 (unat (p ! 4))"

lemmas lp_len_defs = LP_ENCODING_6BIT_STR_LEN_def LP_ENCODING_12BIT_STR_LEN_def
  LP_ENCODING_32BIT_STR_LEN_def

definition lpCurrentEncodedSizeUnsafe :: "byte list \<Rightarrow> nat" where
  "lpCurrentEncodedSizeUnsafe p =
     (if LP_ENCODING_IS_7BIT_UINT (p ! 0) then 1
      else if LP_ENCODING_IS_6BIT_STR (p ! 0) then 1 + LP_ENCODING_6BIT_STR_LEN p
      else if LP_ENCODING_IS_13BIT_INT (p ! 0) then 2
      else if LP_ENCODING_IS_16BIT_INT (p ! 0) then 3
      else if LP_ENCODING_IS_24BIT_INT (p ! 0) then 4
      else if LP_ENCODING_IS_32BIT_INT (p ! 0) then 5
      else if LP_ENCODING_IS_64BIT_INT (p ! 0) then 9
      else if LP_ENCODING_IS_12BIT_STR (p ! 0) then 2 + LP_ENCODING_12BIT_STR_LEN p
      else if LP_ENCODING_IS_32BIT_STR (p ! 0) then (5 + LP_ENCODING_32BIT_STR_LEN p) mod 2 ^ 32
      else if p ! 0 = LP_EOF then 1
      else 0)"

definition lpCurrentEncodedSizeBytes :: "byte list \<Rightarrow> nat" where
  "lpCurrentEncodedSizeBytes p =
     (if LP_ENCODING_IS_7BIT_UINT (p ! 0) then 1
      else if LP_ENCODING_IS_6BIT_STR (p ! 0) then 1
      else if LP_ENCODING_IS_13BIT_INT (p ! 0) then 1
      else if LP_ENCODING_IS_16BIT_INT (p ! 0) then 1
      else if LP_ENCODING_IS_24BIT_INT (p ! 0) then 1
      else if LP_ENCODING_IS_32BIT_INT (p ! 0) then 1
      else if LP_ENCODING_IS_64BIT_INT (p ! 0) then 1
      else if LP_ENCODING_IS_12BIT_STR (p ! 0) then 2
      else if LP_ENCODING_IS_32BIT_STR (p ! 0) then 5
      else if p ! 0 = LP_EOF then 1
      else 0)"

text \<open>
  \<open>lpGetWithSize\<close>: a string is returned with its bytes, an integer as a number, each with
  \<open>*entry_size\<close> (\<open>None\<close> where the code leaves it unset). With an \<open>intbuf\<close> integers are
  printed by \<open>ll2string\<close> into it.
\<close>

datatype lp_value = LP_STR "byte list" | LP_INT int

definition lp_signed :: "int \<Rightarrow> int \<Rightarrow> int \<Rightarrow> int" where
  "lp_signed uval negstart negmax =
     (if uval \<ge> negstart then let uval = negmax - uval in - uval - 1 else uval)"

definition LP_INTBUF_SIZE :: nat where "LP_INTBUF_SIZE = 21"

definition lp_return_int :: "byte list option \<Rightarrow> int \<Rightarrow> lp_value" where
  "lp_return_int intbuf val =
     (case intbuf of
        Some buf \<Rightarrow> (case ll2string buf LP_INTBUF_SIZE val of (buf', count) \<Rightarrow> LP_STR (take count buf'))
      | None \<Rightarrow> LP_INT val)"

definition lpGetWithSize :: "byte list \<Rightarrow> byte list option \<Rightarrow> lp_value \<times> nat option" where
  "lpGetWithSize p intbuf =
     (if LP_ENCODING_IS_7BIT_UINT (p ! 0) then
        (lp_return_int intbuf (lp_signed (uint (p ! 0 AND 0x7f)) UINT64_MAX 0), Some 2)
      else if LP_ENCODING_IS_6BIT_STR (p ! 0) then
        let count = LP_ENCODING_6BIT_STR_LEN p in
        (LP_STR (read_at 1 count p), Some (1 + count + length (lpEncodeBacklen (count + 1))))
      else if LP_ENCODING_IS_13BIT_INT (p ! 0) then
        (lp_return_int intbuf
           (lp_signed (push_bit 8 (uint (p ! 0 AND 0x1f)) OR uint (p ! 1)) (2 ^ 12) 8191), Some 3)
      else if LP_ENCODING_IS_16BIT_INT (p ! 0) then
        (lp_return_int intbuf
           (lp_signed (uint (p ! 1) OR push_bit 8 (uint (p ! 2))) (2 ^ 15) (2 ^ 16 - 1)), Some 4)
      else if LP_ENCODING_IS_24BIT_INT (p ! 0) then
        (lp_return_int intbuf
           (lp_signed (uint (p ! 1) OR push_bit 8 (uint (p ! 2)) OR push_bit 16 (uint (p ! 3)))
              (2 ^ 23) (2 ^ 24 - 1)), Some 5)
      else if LP_ENCODING_IS_32BIT_INT (p ! 0) then
        (lp_return_int intbuf
           (lp_signed (uint (p ! 1) OR push_bit 8 (uint (p ! 2)) OR push_bit 16 (uint (p ! 3)) OR
                       push_bit 24 (uint (p ! 4)))
              (2 ^ 31) (2 ^ 32 - 1)), Some 6)
      else if LP_ENCODING_IS_64BIT_INT (p ! 0) then
        (lp_return_int intbuf
           (lp_signed (uint (p ! 1) OR push_bit 8 (uint (p ! 2)) OR push_bit 16 (uint (p ! 3)) OR
                       push_bit 24 (uint (p ! 4)) OR push_bit 32 (uint (p ! 5)) OR
                       push_bit 40 (uint (p ! 6)) OR push_bit 48 (uint (p ! 7)) OR
                       push_bit 56 (uint (p ! 8)))
              (2 ^ 63) (2 ^ 64 - 1)), Some 10)
      else if LP_ENCODING_IS_12BIT_STR (p ! 0) then
        let count = LP_ENCODING_12BIT_STR_LEN p in
        (LP_STR (read_at 2 count p), Some (2 + count + length (lpEncodeBacklen (count + 2))))
      else if LP_ENCODING_IS_32BIT_STR (p ! 0) then
        let count = LP_ENCODING_32BIT_STR_LEN p in
        (LP_STR (read_at 5 count p), Some (5 + count + length (lpEncodeBacklen (count + 5))))
      else
        (lp_return_int intbuf (lp_signed (12345678900000000 + uint (p ! 0)) UINT64_MAX 0), None))"

definition lpGet :: "byte list \<Rightarrow> byte list option \<Rightarrow> lp_value" where
  "lpGet p intbuf = fst (lpGetWithSize p intbuf)"

text \<open>\<open>lpGetValue\<close> (a string or an integer) and \<open>lpGetIntegerValue\<close>.\<close>

definition lpGetValue :: "byte list \<Rightarrow> lp_value" where
  "lpGetValue p = lpGet p None"

definition lpGetIntegerValue :: "byte list \<Rightarrow> int option" where
  "lpGetIntegerValue p = (case lpGet p None of LP_INT v \<Rightarrow> Some v | LP_STR s \<Rightarrow> None)"

text \<open>\<open>lpCompare\<close>\<close>

definition lpCompare :: "byte list \<Rightarrow> byte list \<Rightarrow> bool" where
  "lpCompare p s =
     (if p ! 0 = LP_EOF then False
      else case lpGet p None of
        LP_STR value \<Rightarrow> length s = length value \<and> value = s
      | LP_INT sz \<Rightarrow> (case lpStringToInt64 s of Some sval \<Rightarrow> sz = sval | None \<Rightarrow> False))"

text \<open>\<open>lpEntrySizeInteger\<close> and \<open>lpEstimateBytesRepeatedInteger\<close>\<close>

definition lpEntrySizeInteger :: "int \<Rightarrow> nat" where
  "lpEntrySizeInteger lval =
     (let enclen = length (lpEncodeIntegerGetType lval);
          backlen = length (lpEncodeBacklen enclen)
      in enclen + backlen)"

definition lpEstimateBytesRepeatedInteger :: "int \<Rightarrow> nat \<Rightarrow> nat" where
  "lpEstimateBytesRepeatedInteger lval rep = 6 + lpEntrySizeInteger lval * rep + 1"

section \<open>Encoded integers\<close>

lemma int_or_192: "0 \<le> (x::int) \<Longrightarrow> x < 32 \<Longrightarrow> x OR 192 = x + 192"
  using int_or_push_bit[of x 6 3] int_or_push_bit[of x 5 6] by (simp add: push_bit_eq_mult)

lemma le_bytes_written:
  "[word_of_int (v AND 0xff), word_of_int (drop_bit 8 v)] = le_bytes 2 v"
  "[word_of_int (v AND 0xff), word_of_int (drop_bit 8 v AND 0xff), word_of_int (drop_bit 16 v)] = le_bytes 3 v"
  "[word_of_int (v AND 0xff), word_of_int (drop_bit 8 v AND 0xff), word_of_int (drop_bit 16 v AND 0xff),
    word_of_int (drop_bit 24 v)] = le_bytes 4 v"
  "[word_of_int (v AND 0xff), word_of_int (drop_bit 8 v AND 0xff),
    word_of_int (drop_bit 16 v AND 0xff), word_of_int (drop_bit 24 v AND 0xff),
    word_of_int (drop_bit 32 v AND 0xff), word_of_int (drop_bit 40 v AND 0xff),
    word_of_int (drop_bit 48 v AND 0xff), word_of_int (drop_bit 56 v)] = le_bytes 8 v"
  by (simp_all only: int_and_255 word_of_int_mod_256 drop_bit_eq_div)
    (simp_all add: le_bytes_numeral flip: zdiv_zmult2_eq)

lemma le_bytes_wrap:
  "le_bytes 2 (if v < 0 then 2 ^ 16 + v else v) = le_bytes 2 v"
  "le_bytes 3 (if v < 0 then 2 ^ 24 + v else v) = le_bytes 3 v"
  "le_bytes 4 (if v < 0 then 2 ^ 32 + v else v) = le_bytes 4 v"
  "le_bytes 8 (v mod 2 ^ 64) = le_bytes 8 v"
  by (rule le_bytes_cong; simp)+

lemma lp_13bit_written:
  assumes "-4096 \<le> v" "v \<le> 4095"
  shows "[word_of_int (drop_bit 8 (if v < 0 then 2 ^ 13 + v else v) OR 0xC0),
      word_of_int ((if v < 0 then 2 ^ 13 + v else v) AND 0xff)] =
    [word_of_int (v mod 8192 div 256 + 192), word_of_int (v mod 8192) :: byte]"
proof -
  have "(v + 8192) mod 8192 = v + 8192" if "v < 0" using that assms by (intro mod_pos_pos_trivial) auto
  then have "(if v < 0 then 2 ^ 13 + v else v) = v mod 8192" using assms by (auto simp: add.commute)
  then show ?thesis by (simp only: int_and_255 word_of_int_mod_256) (simp add: drop_bit_eq_div int_or_192)
qed

lemma lpEncodeIntegerGetType_eq:
  "lpEncodeIntegerGetType v =
     (if v \<ge> 0 \<and> v \<le> 127 then [word_of_int v]
      else if v \<ge> -4096 \<and> v \<le> 4095 then
        [word_of_int (v mod 8192 div 256 + 192), word_of_int (v mod 8192)]
      else if v \<ge> -32768 \<and> v \<le> 32767 then 0xF1 # le_bytes 2 v
      else if v \<ge> -8388608 \<and> v \<le> 8388607 then 0xF2 # le_bytes 3 v
      else if v \<ge> -2147483648 \<and> v \<le> 2147483647 then 0xF3 # le_bytes 4 v
      else 0xF4 # le_bytes 8 v)"
  unfolding lpEncodeIntegerGetType_def Let_def le_bytes_written le_bytes_wrap
  using lp_13bit_written[of v] by presburger
lemma lp_tag_ranges:
  "LP_ENCODING_IS_7BIT_UINT b \<longleftrightarrow> unat b < 128"
  "LP_ENCODING_IS_6BIT_STR b \<longleftrightarrow> 128 \<le> unat b \<and> unat b < 192"
  "LP_ENCODING_IS_13BIT_INT b \<longleftrightarrow> 192 \<le> unat b \<and> unat b < 224"
  "LP_ENCODING_IS_12BIT_STR b \<longleftrightarrow> 224 \<le> unat b \<and> unat b < 240"
proof -
  have u: "uint b = int (unat b)" "uint (0 :: byte) = 0" "uint (0x80 :: byte) = 128"
    "uint (0xC0 :: byte) = 192" "uint (0xE0 :: byte) = 224"
    by simp_all
  have "int n div 128 * 128 = 0 \<longleftrightarrow> n < 128" "int n div 64 * 64 = 128 \<longleftrightarrow> 128 \<le> n \<and> n < 192"
    "int n div 32 * 32 = 192 \<longleftrightarrow> 192 \<le> n \<and> n < 224" "int n div 16 * 16 = 224 \<longleftrightarrow> 224 \<le> n \<and> n < 240"
    for n
    using div_mult_eq_iff[of 128 "int n" 0] div_mult_eq_iff[of 64 "int n" 2] div_mult_eq_iff[of 32 "int n" 6]
      div_mult_eq_iff[of 16 "int n" 14]
    by auto
  then show "LP_ENCODING_IS_7BIT_UINT b \<longleftrightarrow> unat b < 128"
    "LP_ENCODING_IS_6BIT_STR b \<longleftrightarrow> 128 \<le> unat b \<and> unat b < 192"
    "LP_ENCODING_IS_13BIT_INT b \<longleftrightarrow> 192 \<le> unat b \<and> unat b < 224"
    "LP_ENCODING_IS_12BIT_STR b \<longleftrightarrow> 224 \<le> unat b \<and> unat b < 240"
    unfolding lp_tag_defs byte_and_high u by blast+
qed

lemmas lp_tags = lp_tag_ranges LP_ENCODING_IS_16BIT_INT_def LP_ENCODING_IS_24BIT_INT_def
  LP_ENCODING_IS_32BIT_INT_def LP_ENCODING_IS_64BIT_INT_def LP_ENCODING_IS_32BIT_STR_def
  byte_and_255


lemma LP_ENCODING_32BIT_STR_LEN_eq:
  "LP_ENCODING_32BIT_STR_LEN p = nat (le_val [p ! 1, p ! 2, p ! 3, p ! 4])"
proof -
  have "int (LP_ENCODING_32BIT_STR_LEN p) = le_val [p ! 1, p ! 2, p ! 3, p ! 4]"
    unfolding LP_ENCODING_32BIT_STR_LEN_def of_nat_or_eq of_nat_push_bit of_nat_unat or.assoc[symmetric] le_val_int_or
    by (rule refl)
  then show ?thesis by linarith
qed

lemma lpEncodeString_eq:
  assumes "length s < 2 ^ 32"
  shows "lpEncodeString s =
     (if length s < 64 then word_of_nat (length s + 128) # s
      else if length s < 4096 then word_of_nat (length s div 256 + 224) # word_of_nat (length s mod 256) # s
      else 0xF0 # le_bytes 4 (int (length s)) @ s)"
proof -
  have "[word_of_nat (n AND 0xff), word_of_nat (drop_bit 8 n AND 0xff),
         word_of_nat (drop_bit 16 n AND 0xff), word_of_nat (drop_bit 24 n AND 0xff)] = le_bytes 4 (int n)"
    if "n < 2 ^ 32" for n
  proof -
    have d: "int m div 256 = int (m div 256)" for m by (simp add: zdiv_int)
    have "le_bytes 4 (int n) = [word_of_nat n, word_of_nat (n div 256), word_of_nat (n div 256 div 256),
        word_of_nat (n div 256 div 256 div 256)]"
      by (simp add: le_bytes_numeral d)
    then show ?thesis
      unfolding nat_and_255 word_of_nat_mod_256 drop_bit_eq_div by (simp add: div_mult2_eq[symmetric])
  qed
  from this[OF assms] show ?thesis
    by (auto simp: lpEncodeString_def Let_def nat_or_high nat_and_255 drop_bit_eq_div)
qed

section \<open>Decoding inverts encoding\<close>

definition lp_enc :: "lp_value \<Rightarrow> byte list" where
  "lp_enc e = (case e of LP_INT v \<Rightarrow> lpEncodeIntegerGetType v | LP_STR s \<Rightarrow> lpEncodeString s)"

definition lp_ok :: "lp_value \<Rightarrow> bool" where
  "lp_ok e = (case e of LP_INT v \<Rightarrow> is_int64 v | LP_STR s \<Rightarrow> length s + 5 < 2 ^ 32)"

lemma lp_signed_to_signed:
  "0 < n \<Longrightarrow> lp_signed u (2 ^ (8 * n - 1)) (2 ^ (8 * n) - 1) = to_signed n u"
  by (auto simp: lp_signed_def to_signed_def Let_def)

lemma lp_signed_le:
  "- (2 ^ 15) \<le> v \<Longrightarrow> v < 2 ^ 15 \<Longrightarrow> lp_signed (v mod 2 ^ 16) (2 ^ 15) (2 ^ 16 - 1) = v"
  "- (2 ^ 23) \<le> v \<Longrightarrow> v < 2 ^ 23 \<Longrightarrow> lp_signed (v mod 2 ^ 24) (2 ^ 23) (2 ^ 24 - 1) = v"
  "- (2 ^ 31) \<le> v \<Longrightarrow> v < 2 ^ 31 \<Longrightarrow> lp_signed (v mod 2 ^ 32) (2 ^ 31) (2 ^ 32 - 1) = v"
  "- (2 ^ 63) \<le> v \<Longrightarrow> v < 2 ^ 63 \<Longrightarrow> lp_signed (v mod 2 ^ 64) (2 ^ 63) (2 ^ 64 - 1) = v"
  using lp_signed_to_signed[of 2] to_signed_mod[of 2 v] lp_signed_to_signed[of 3] to_signed_mod[of 3 v]
   lp_signed_to_signed[of 4] to_signed_mod[of 4 v] lp_signed_to_signed[of 8] to_signed_mod[of 8 v]
  by simp_all

lemma lp_signed_13:
  "- 4096 \<le> v \<Longrightarrow> v \<le> 4095 \<Longrightarrow> lp_signed (v mod 8192) (2 ^ 12) 8191 = v"
proof -
  assume v: "- 4096 \<le> v" "v \<le> 4095"
  have "v mod 8192 = (if v < 0 then v + 8192 else v)"
  proof (cases "v < 0")
    case True
    have "(v + 8192) mod 8192 = v + 8192" using v True by (intro mod_pos_pos_trivial) auto
    then show ?thesis using True by simp
  qed (use v in simp)
  then show ?thesis using v by (auto simp: lp_signed_def)
qed

text \<open>
  Reading back an integer, and its size, from the bytes of \<open>lpEncodeIntegerGetType\<close>: one lemma
  for the 7 bit, the 13 bit and the tagged encodings.
\<close>

definition lp_int_at :: "byte list \<Rightarrow> int \<Rightarrow> nat \<Rightarrow> bool" where
  "lp_int_at p v n \<longleftrightarrow>
     (\<forall>intbuf. lpGetWithSize p intbuf = (lp_return_int intbuf v, Some (n + 1))) \<and>
     lpCurrentEncodedSizeUnsafe p = n \<and> lpCurrentEncodedSizeBytes p = 1 \<and> p ! 0 \<noteq> LP_EOF"

lemmas lp_int_at_defs = lp_int_at_def lpGetWithSize_def lpCurrentEncodedSizeUnsafe_def
  lpCurrentEncodedSizeBytes_def

lemma lp_int_at_7bit:
  assumes "0 \<le> v" "v \<le> 127" "p = word_of_int v # rest"
  shows "lp_int_at p v 1"
proof -
  have b: "unat (p ! 0) = nat v" using assms by (simp add: unat_byte_of_int)
  have "uint (p ! 0 AND 127) = v" unfolding uint_unat unat_and_mask b using assms by (auto simp: nat_less_iff)
  moreover have "p ! 0 \<noteq> LP_EOF" using b assms by (auto simp: LP_EOF_def)
  moreover have "lp_signed v UINT64_MAX 0 = v"
    using assms by (simp add: lp_signed_def range_simps UINT64_MAX_def)
  moreover have "LP_ENCODING_IS_7BIT_UINT (p ! 0)" using b assms by (auto simp: lp_tags nat_less_iff)
  ultimately show ?thesis by (simp add: lp_int_at_defs)
qed

lemma lp_int_at_13bit:
  assumes v: "- 4096 \<le> v" "v \<le> 4095"
    and p: "p = word_of_int (v mod 8192 div 256 + 192) # word_of_int (v mod 8192) # rest"
  shows "lp_int_at p v 2"
proof -
  let ?m = "v mod 8192"
  have m: "0 \<le> ?m div 256" "?m div 256 < 32"
    using zdiv_mono1[of ?m 8191 256] pos_mod_bound[of 8192 v] by auto
  have b: "unat (p ! 0) = nat (?m div 256) + 192"
    unfolding p nth_Cons_0 using m by (subst unat_byte_of_int) (auto simp: nat_add_distrib)
  have "uint (p ! 0 AND 31) = ?m div 256"
    unfolding uint_unat unat_and_mask b using m mod_mult_self2[of "nat (?m div 256)" 32 6]
    by (simp add: nat_less_iff)
  moreover have "uint (p ! 1) = ?m mod 256" by (simp add: p uint_byte_of_int)
  ultimately have "push_bit 8 (uint (p ! 0 AND 31)) OR uint (p ! 1) = ?m"
    using int_or_push_bit[of "?m mod 256" 8 "?m div 256"] by (simp add: or.commute)
  moreover have "LP_ENCODING_IS_13BIT_INT (p ! 0)" "\<not> LP_ENCODING_IS_7BIT_UINT (p ! 0)"
    "\<not> LP_ENCODING_IS_6BIT_STR (p ! 0)" "p ! 0 \<noteq> LP_EOF"
    using b m by (auto simp: lp_tags nat_less_iff LP_EOF_def)
  ultimately show ?thesis using lp_signed_13[OF v] by (simp add: lp_int_at_defs)
qed

lemma lp_int_at_tagged:
  shows "- (2 ^ 15) \<le> v \<Longrightarrow> v < 2 ^ 15 \<Longrightarrow> lp_int_at (0xF1 # le_bytes 2 v @ rest) v 3"
    and "- (2 ^ 23) \<le> v \<Longrightarrow> v < 2 ^ 23 \<Longrightarrow> lp_int_at (0xF2 # le_bytes 3 v @ rest) v 4"
    and "- (2 ^ 31) \<le> v \<Longrightarrow> v < 2 ^ 31 \<Longrightarrow> lp_int_at (0xF3 # le_bytes 4 v @ rest) v 5"
    and "- (2 ^ 63) \<le> v \<Longrightarrow> v < 2 ^ 63 \<Longrightarrow> lp_int_at (0xF4 # le_bytes 8 v @ rest) v 9"
proof -
  obtain a b c d e f g h where le: "le_bytes 2 v = [a, b]" "le_bytes 3 v = [a, b, c]"
    "le_bytes 4 v = [a, b, c, d]" "le_bytes 8 v = [a, b, c, d, e, f, g, h]"
    by (rule le_bytes_form)
  have u2: "uint a OR push_bit 8 (uint b) = v mod 2 ^ 16"
    unfolding le_val_int_or by (rule le_bytes_nth(1)[OF le(1)])
  have u3: "uint a OR push_bit 8 (uint b) OR push_bit 16 (uint c) = v mod 2 ^ 24"
    unfolding or.assoc[symmetric] le_val_int_or by (rule le_bytes_nth(2)[OF le(2)])
  have u4: "uint a OR push_bit 8 (uint b) OR push_bit 16 (uint c) OR push_bit 24 (uint d) = v mod 2 ^ 32"
    unfolding or.assoc[symmetric] le_val_int_or by (rule le_bytes_nth(3)[OF le(3)])
  have u8: "uint a OR push_bit 8 (uint b) OR push_bit 16 (uint c) OR push_bit 24 (uint d) OR
      push_bit 32 (uint e) OR push_bit 40 (uint f) OR push_bit 48 (uint g) OR push_bit 56 (uint h) = v mod 2 ^ 64"
    unfolding or.assoc[symmetric] le_val_int_or by (rule le_bytes_nth(4)[OF le(4)])
  show "- (2 ^ 15) \<le> v \<Longrightarrow> v < 2 ^ 15 \<Longrightarrow> lp_int_at (0xF1 # le_bytes 2 v @ rest) v 3"
    using u2 lp_signed_le(1)[of v] by (simp add: le lp_int_at_defs lp_tags LP_EOF_def)
  show "- (2 ^ 23) \<le> v \<Longrightarrow> v < 2 ^ 23 \<Longrightarrow> lp_int_at (0xF2 # le_bytes 3 v @ rest) v 4"
    using u3 lp_signed_le(2)[of v] by (simp add: le lp_int_at_defs lp_tags LP_EOF_def)
  show "- (2 ^ 31) \<le> v \<Longrightarrow> v < 2 ^ 31 \<Longrightarrow> lp_int_at (0xF3 # le_bytes 4 v @ rest) v 5"
    using u4 lp_signed_le(3)[of v] by (simp add: le lp_int_at_defs lp_tags LP_EOF_def)
  show "- (2 ^ 63) \<le> v \<Longrightarrow> v < 2 ^ 63 \<Longrightarrow> lp_int_at (0xF4 # le_bytes 8 v @ rest) v 9"
    using u8 lp_signed_le(4)[of v] by (simp add: le lp_int_at_defs lp_tags LP_EOF_def)
qed

lemma lp_int_at_encoded:
  assumes "is_int64 v"
  shows "lp_int_at (lpEncodeIntegerGetType v @ rest) v (length (lpEncodeIntegerGetType v))"
  using assms lp_int_at_7bit[OF _ _ refl, of v rest] lp_int_at_13bit[OF _ _ refl, of v rest]
    lp_int_at_tagged[of v rest]
  by (simp add: lpEncodeIntegerGetType_eq range_simps flip: numeral_2_eq_2)

lemma lpEncodeIntegerGetType_length:
  "0 < length (lpEncodeIntegerGetType v)" "length (lpEncodeIntegerGetType v) \<le> 9"
  by (simp_all add: lpEncodeIntegerGetType_def Let_def)

lemma lp_str_decode:
  assumes s: "length s + 5 < 2 ^ 32" and p: "p = lpEncodeString s @ rest"
  shows "lpGetWithSize p intbuf = (LP_STR s,
      Some (length (lpEncodeString s) + length (lpEncodeBacklen (length (lpEncodeString s)))))"
    and "lpCurrentEncodedSizeUnsafe p = length (lpEncodeString s)"
    and "0 < lpCurrentEncodedSizeBytes p" "lpCurrentEncodedSizeBytes p \<le> length (lpEncodeString s)"
    and "p ! 0 \<noteq> LP_EOF"
proof -
  note e = lpEncodeString_eq[of s]
  consider "length s < 64" | "64 \<le> length s" "length s < 4096" | "4096 \<le> length s" by linarith
  then have "lpGetWithSize p intbuf = (LP_STR s,
      Some (length (lpEncodeString s) + length (lpEncodeBacklen (length (lpEncodeString s))))) \<and>
    lpCurrentEncodedSizeUnsafe p = length (lpEncodeString s) \<and> 0 < lpCurrentEncodedSizeBytes p \<and>
    lpCurrentEncodedSizeBytes p \<le> length (lpEncodeString s) \<and> p ! 0 \<noteq> LP_EOF"
  proof cases
    case 1
    then have e: "lpEncodeString s = word_of_nat (length s + 128) # s" using e s by simp
    have b: "unat (p ! 0) = length s + 128" unfolding p e using 1 by (simp add: unat_byte_of_nat del: of_nat_add)
    have "LP_ENCODING_IS_6BIT_STR (p ! 0)" "\<not> LP_ENCODING_IS_7BIT_UINT (p ! 0)" "p ! 0 \<noteq> LP_EOF"
      using b 1 by (auto simp: lp_tags LP_EOF_def)
    moreover have "LP_ENCODING_6BIT_STR_LEN p = length s"
      unfolding LP_ENCODING_6BIT_STR_LEN_def unat_and_mask b
      using 1 mod_mult_self2[of "length s" 64 2] by simp
    moreover have "read_at 1 (length s) p = s" by (simp add: read_at_def p e)
    ultimately show ?thesis
      by (simp add: lpGetWithSize_def lpCurrentEncodedSizeUnsafe_def lpCurrentEncodedSizeBytes_def e Let_def)
  next
    case 2
    let ?h = "length s div 256"
    have h: "?h < 16" using 2 by (simp add: div_less_iff_less_mult)
    have e: "lpEncodeString s = word_of_nat (?h + 224) # word_of_nat (length s mod 256) # s"
      using e s 2 by simp
    have b: "unat (p ! 0) = ?h + 224" unfolding p e using h by (simp add: unat_byte_of_nat del: of_nat_add)
    have c: "unat (p ! 1) = length s mod 256" unfolding p e by (simp add: unat_byte_of_nat)
    have "LP_ENCODING_IS_12BIT_STR (p ! 0)" "\<not> LP_ENCODING_IS_7BIT_UINT (p ! 0)" "p ! 0 \<noteq> LP_EOF"
      "\<not> LP_ENCODING_IS_6BIT_STR (p ! 0)" "\<not> LP_ENCODING_IS_13BIT_INT (p ! 0)"
      "\<not> LP_ENCODING_IS_16BIT_INT (p ! 0)" "\<not> LP_ENCODING_IS_24BIT_INT (p ! 0)"
      "\<not> LP_ENCODING_IS_32BIT_INT (p ! 0)" "\<not> LP_ENCODING_IS_64BIT_INT (p ! 0)"
      using b h by (auto simp: lp_tags LP_EOF_def)
    moreover have "LP_ENCODING_12BIT_STR_LEN p = length s"
    proof -
      have "(?h + 224) mod 16 = ?h" using h mod_mult_self2[of ?h 16 14] by simp
      then show ?thesis
        unfolding LP_ENCODING_12BIT_STR_LEN_def unat_and_mask b c or.commute[of "push_bit _ _"]
        by (subst nat_or_push_bit) auto
    qed
    moreover have "read_at 2 (length s) p = s" by (simp add: read_at_def p e)
    ultimately show ?thesis
      by (simp add: lpGetWithSize_def lpCurrentEncodedSizeUnsafe_def lpCurrentEncodedSizeBytes_def e Let_def)
  next
    case 3
    obtain a b c d where le: "le_bytes 4 (int (length s)) = [a, b, c, d]" by (rule le_bytes_form)
    have e: "lpEncodeString s = 0xF0 # [a, b, c, d] @ s"
      using e s 3 by (simp only: le) auto
    have "LP_ENCODING_32BIT_STR_LEN p = length s"
      using le_bytes_nth(3)[OF le] s by (simp add: LP_ENCODING_32BIT_STR_LEN_eq p e del: le_val.simps)
    moreover have "read_at 5 (length s) p = s" by (simp add: read_at_def p e)
    moreover have "p ! 0 = 0xF0" by (simp add: p e)
    moreover have "length (lpEncodeString s) = length s + 5" by (simp add: e)
    ultimately show ?thesis
      using s
      by (simp add: lpGetWithSize_def lpCurrentEncodedSizeUnsafe_def lpCurrentEncodedSizeBytes_def
        lp_tags LP_EOF_def Let_def)
  qed
  then show "lpGetWithSize p intbuf = (LP_STR s,
      Some (length (lpEncodeString s) + length (lpEncodeBacklen (length (lpEncodeString s)))))"
    "lpCurrentEncodedSizeUnsafe p = length (lpEncodeString s)"
    "0 < lpCurrentEncodedSizeBytes p" "lpCurrentEncodedSizeBytes p \<le> length (lpEncodeString s)"
    "p ! 0 \<noteq> LP_EOF" by blast+
qed

text \<open>Both kinds of entries together.\<close>

lemma lp_enc_decode:
  assumes "lp_ok e"
  shows "lpGetWithSize (lp_enc e @ rest) None =
      (e, Some (length (lp_enc e) + length (lpEncodeBacklen (length (lp_enc e)))))"
    and "lpCurrentEncodedSizeUnsafe (lp_enc e @ rest) = length (lp_enc e)"
    and "0 < lpCurrentEncodedSizeBytes (lp_enc e @ rest)"
      "lpCurrentEncodedSizeBytes (lp_enc e @ rest) \<le> length (lp_enc e)"
    and "(lp_enc e @ rest) ! 0 \<noteq> LP_EOF"
proof -
  have "lpGetWithSize (lp_enc e @ rest) None =
      (e, Some (length (lp_enc e) + length (lpEncodeBacklen (length (lp_enc e))))) \<and>
    lpCurrentEncodedSizeUnsafe (lp_enc e @ rest) = length (lp_enc e) \<and>
    0 < lpCurrentEncodedSizeBytes (lp_enc e @ rest) \<and>
    lpCurrentEncodedSizeBytes (lp_enc e @ rest) \<le> length (lp_enc e) \<and> (lp_enc e @ rest) ! 0 \<noteq> LP_EOF"
  proof (cases e)
    case (LP_INT v)
    have "length (lpEncodeBacklen (length (lpEncodeIntegerGetType v))) = 1"
      using lpEncodeIntegerGetType_length[of v] by (simp add: lpEncodeBacklen_def)
    then show ?thesis
      using LP_INT assms lp_int_at_encoded[of v rest] lpEncodeIntegerGetType_length[of v]
      by (simp add: lp_enc_def lp_ok_def lp_int_at_def lp_return_int_def Suc_le_eq)
  next
    case (LP_STR s)
    then show ?thesis
      using assms lp_str_decode[OF _ refl, of s rest] by (simp add: lp_enc_def lp_ok_def)
  qed
  then show "lpGetWithSize (lp_enc e @ rest) None =
      (e, Some (length (lp_enc e) + length (lpEncodeBacklen (length (lp_enc e)))))"
    "lpCurrentEncodedSizeUnsafe (lp_enc e @ rest) = length (lp_enc e)"
    "0 < lpCurrentEncodedSizeBytes (lp_enc e @ rest)"
    "lpCurrentEncodedSizeBytes (lp_enc e @ rest) \<le> length (lp_enc e)"
    "(lp_enc e @ rest) ! 0 \<noteq> LP_EOF" by blast+
qed

lemma lp_enc_length:
  assumes "lp_ok e"
  shows "0 < length (lp_enc e)" "length (lp_enc e) < 2 ^ 32"
proof -
  have s: "length (lpEncodeString s) \<le> length s + 5" "0 < length (lpEncodeString s)" for s
    by (simp_all add: lpEncodeString_def Let_def)
  have "0 < length (lp_enc e) \<and> length (lp_enc e) < 2 ^ 32"
  proof (cases e)
    case (LP_STR x)
    then show ?thesis using assms s[of x] by (simp add: lp_enc_def lp_ok_def)
  next
    case (LP_INT v)
    then show ?thesis using lpEncodeIntegerGetType_length[of v] by (simp add: lp_enc_def)
  qed
  then show "0 < length (lp_enc e)" "length (lp_enc e) < 2 ^ 32" by blast+
qed

section \<open>The backward length\<close>

lemma lpDecodeBacklen_more:
  assumes "m ! Suc p = word_of_nat (x + 128)" "x < 128" "val < 2 ^ shift" "shift + 7 \<le> 28"
  shows "lpDecodeBacklen_loop m (Suc p) val shift = lpDecodeBacklen_loop m p (val + 2 ^ shift * x) (shift + 7)"
proof -
  have b: "unat (m ! Suc p) = x + 128" unfolding assms(1) using assms(2) by (simp add: unat_byte_of_nat del: of_nat_add)
  have "m ! Suc p AND 128 \<noteq> 0" using b by (simp flip: LP_ENCODING_IS_7BIT_UINT_def add: lp_tag_ranges)
  moreover have "unat (m ! Suc p AND 127) = x"
    unfolding unat_and_mask b using assms(2) by simp
  ultimately show ?thesis
    using assms(3,4) by (subst lpDecodeBacklen_loop.simps) (simp add: nat_or_push_bit)
qed

lemma lpDecodeBacklen_last:
  assumes "m ! p = word_of_nat x" "x < 128" "val < 2 ^ shift"
  shows "lpDecodeBacklen_loop m p val shift = Some (val + 2 ^ shift * x)"
proof -
  have b: "unat (m ! p) = x" unfolding assms(1) using assms(2) by (simp add: unat_byte_of_nat)
  have "m ! p AND 128 = 0" using b assms(2) by (simp flip: LP_ENCODING_IS_7BIT_UINT_def add: lp_tag_ranges)
  moreover have "unat (m ! p AND 127) = x"
    unfolding unat_and_mask b using assms(2) by simp
  ultimately show ?thesis
    using assms(3) by (subst lpDecodeBacklen_loop.simps) (simp add: nat_or_push_bit)
qed


lemma lpEncodeBacklen_eq:
  assumes "l < 2 ^ 35"
  shows "lpEncodeBacklen l =
     (if l < 128 then [word_of_nat l]
      else if l < 16383 then [word_of_nat (l div 128), word_of_nat (l mod 128 + 128)]
      else if l < 2097151 then
        [word_of_nat (l div 128 div 128), word_of_nat (l div 128 mod 128 + 128), word_of_nat (l mod 128 + 128)]
      else if l < 268435455 then
        [word_of_nat (l div 128 div 128 div 128), word_of_nat (l div 128 div 128 mod 128 + 128),
         word_of_nat (l div 128 mod 128 + 128), word_of_nat (l mod 128 + 128)]
      else
        [word_of_nat (l div 128 div 128 div 128 div 128), word_of_nat (l div 128 div 128 div 128 mod 128 + 128),
         word_of_nat (l div 128 div 128 mod 128 + 128), word_of_nat (l div 128 mod 128 + 128),
         word_of_nat (l mod 128 + 128)])"
proof -
  have d: "drop_bit 7 l = l div 128" "drop_bit 14 l = l div 128 div 128"
    "drop_bit 21 l = l div 128 div 128 div 128" "drop_bit 28 l = l div 128 div 128 div 128 div 128"
    by (simp_all add: drop_bit_eq_div flip: div_mult2_eq)
  have o: "x mod 128 OR 128 = x mod 128 + 128" for x :: nat by (rule nat_or_high) simp
  show ?thesis
    unfolding lpEncodeBacklen_def d nat_and_127 o by (simp only: less_Suc_eq_le[symmetric]) simp
qed

lemma lpEncodeBacklen_length: "1 \<le> length (lpEncodeBacklen l)" "length (lpEncodeBacklen l) \<le> 5"
  by (simp_all add: lpEncodeBacklen_def)

lemma lpDecodeBacklen_correct:
  assumes l: "l < 2 ^ 35" and m: "m = pre @ lpEncodeBacklen l @ suf"
  shows "lpDecodeBacklen m (length pre + length (lpEncodeBacklen l) - 1) = l"
proof -
  define a b c d e where abc: "a = l mod 128" "b = l div 128 mod 128" "c = l div 128 div 128 mod 128"
    "d = l div 128 div 128 div 128 mod 128" "e = l div 128 div 128 div 128 div 128"
  note eq = lpEncodeBacklen_eq[OF l]
  have b1: "a < 128" "b < 128" "c < 128" "d < 128" by (simp_all add: abc)
  have l1: "l = a + 128 * (l div 128)" "l div 128 = b + 128 * (l div 128 div 128)"
    "l div 128 div 128 = c + 128 * (l div 128 div 128 div 128)"
    "l div 128 div 128 div 128 = d + 128 * (l div 128 div 128 div 128 div 128)"
    by (simp_all add: abc del: div_mult2_eq)
  let ?n = "length pre"
  note step = lpDecodeBacklen_more lpDecodeBacklen_last
  consider "l < 128" | "128 \<le> l" "l < 16383" | "16383 \<le> l" "l < 2097151"
    | "2097151 \<le> l" "l < 268435455" | "268435455 \<le> l" by linarith
  then show ?thesis
  proof cases
    case 1
    then have "m ! ?n = word_of_nat l" "lpEncodeBacklen l = [word_of_nat l]" by (simp_all add: m eq nth_append)
    then show ?thesis using 1 lpDecodeBacklen_last[of m ?n l 0 0] by (simp add: lpDecodeBacklen_def)
  next
    case 2
    have n: "m ! (Suc ?n) = word_of_nat (a + 128)" "m ! ?n = word_of_nat (l div 128)"
      "length (lpEncodeBacklen l) = 2"
      using 2 by (simp_all add: m eq nth_append abc)
    have "l div 128 < 128" using 2 by (simp add: div_less_iff_less_mult)
    then show ?thesis
      using n b1 l1(1) lpDecodeBacklen_more[OF n(1), of 0 0] lpDecodeBacklen_last[OF n(2), of a 7]
      by (simp add: lpDecodeBacklen_def)
  next
    case 3
    have n: "m ! (Suc (Suc ?n)) = word_of_nat (a + 128)" "m ! (Suc ?n) = word_of_nat (b + 128)"
      "m ! ?n = word_of_nat (l div 128 div 128)" "length (lpEncodeBacklen l) = 3"
      using 3 by (simp_all add: m eq nth_append abc)
    have "l div 128 div 128 < 128" using 3 by (simp add: div_less_iff_less_mult)
    then show ?thesis
      using n b1 l1(1,2) lpDecodeBacklen_more[OF n(1), of 0 0] lpDecodeBacklen_more[OF n(2), of a 7]
        lpDecodeBacklen_last[OF n(3), of "a + 128 * b" 14]
      by (simp add: lpDecodeBacklen_def)
  next
    case 4
    have n: "m ! (Suc (Suc (Suc ?n))) = word_of_nat (a + 128)" "m ! (Suc (Suc ?n)) = word_of_nat (b + 128)"
      "m ! (Suc ?n) = word_of_nat (c + 128)"
      "m ! ?n = word_of_nat (l div 128 div 128 div 128)" "length (lpEncodeBacklen l) = 4"
      using 4 by (simp_all add: m eq nth_append abc)
    have "l div 128 div 128 div 128 < 128" using 4 by (simp add: div_less_iff_less_mult)
    then have "lpDecodeBacklen m (Suc (Suc (Suc ?n))) = l"
      using n b1 l1(1,2,3) lpDecodeBacklen_more[OF n(1), of 0 0] lpDecodeBacklen_more[OF n(2), of a 7]
        lpDecodeBacklen_more[OF n(3), of "a + 128 * b" 14] 
        lpDecodeBacklen_last[OF n(4), of "a + 128 * b + 16384 * c" 21]
      by (simp add: lpDecodeBacklen_def)
    then show ?thesis using n(5) by (simp add: eval_nat_numeral)
  next
    case 5
    have n: "m ! (Suc (Suc (Suc (Suc ?n)))) = word_of_nat (a + 128)" "m ! (Suc (Suc (Suc ?n))) = word_of_nat (b + 128)"
      "m ! (Suc (Suc ?n)) = word_of_nat (c + 128)" "m ! (Suc ?n) = word_of_nat (d + 128)"
      "m ! ?n = word_of_nat e" "length (lpEncodeBacklen l) = 5"
      using 5 by (simp_all add: m eq nth_append abc)
    have "e < 128" using l by (simp add: abc div_less_iff_less_mult)
    moreover have val: "a + 128 * b + 16384 * c + 2097152 * d + 268435456 * e = l"
      using l1 unfolding abc(5) by linarith
    ultimately have "lpDecodeBacklen m (Suc (Suc (Suc (Suc ?n)))) = l"
      using n b1 val lpDecodeBacklen_more[OF n(1), of 0 0] lpDecodeBacklen_more[OF n(2), of a 7]
        lpDecodeBacklen_more[OF n(3), of "a + 128 * b" 14] lpDecodeBacklen_more[OF n(4), of "a + 128 * b + 16384 * c" 21]
        lpDecodeBacklen_last[OF n(5), of "a + 128 * b + 16384 * c + 2097152 * d" 28]
      by (simp add: lpDecodeBacklen_def)
    then show ?thesis using n(6) by (simp add: eval_nat_numeral)
  qed
qed

end
