(* ===== verification/Listpack_Correct.thy ===== *)
theory Listpack_Correct
  imports Listpack
begin

text \<open>
  The list of entries a listpack stands for, and what the operations of \<^verbatim>\<open>listpack.c\<close> do to
  it.
\<close>

section \<open>Abstraction\<close>

text \<open>An entry with its backward length, the entries in sequence, the header.\<close>

definition lp_entry :: "lp_value \<Rightarrow> byte list" where
  "lp_entry e = lp_enc e @ lpEncodeBacklen (length (lp_enc e))"

definition lp_body :: "lp_value list \<Rightarrow> byte list" where
  "lp_body es = concat (map lp_entry es)"

definition lp_hdr :: "nat \<Rightarrow> nat \<Rightarrow> byte list" where
  "lp_hdr t n = le_bytes 4 (int t) @ le_bytes 2 (int n)"

text \<open>The offset of the entry that follows \<open>es\<close>.\<close>

definition lp_off :: "lp_value list \<Rightarrow> nat" where
  "lp_off es = 6 + length (lp_body es)"

definition lp_numele_ok :: "nat \<Rightarrow> lp_value list \<Rightarrow> bool" where
  "lp_numele_ok n es \<longleftrightarrow> n = 65535 \<or> n < 65535 \<and> n = length es"

text \<open>The listpack \<open>lp\<close> holds the entries \<open>es\<close>; \<open>slack\<close> are the unused bytes of the allocation.\<close>

definition lp_image :: "nat \<Rightarrow> lp_value list \<Rightarrow> byte list \<Rightarrow> byte list" where
  "lp_image n es slack = lp_hdr (lp_off es + 1) n @ lp_body es @ LP_EOF # slack"

definition lp_fits :: "lp_value list \<Rightarrow> bool" where
  "lp_fits es \<longleftrightarrow> lp_off es + 1 < 2 ^ 32 \<and> (\<forall>e \<in> set es. lp_ok e)"

definition lp_rep :: "byte list \<Rightarrow> lp_value list \<Rightarrow> bool" where
  "lp_rep lp es \<longleftrightarrow> lp_fits es \<and> (\<exists>n slack. lp_numele_ok n es \<and> lp = lp_image n es slack)"

lemma lp_ok_simps [simp]: "lp_ok (LP_INT v) = is_int64 v" "lp_ok (LP_STR s) \<longleftrightarrow> length s + 5 < 2 ^ 32"
  by (simp_all add: lp_ok_def)

lemma lp_body_simps [simp]: "lp_body [] = []" "lp_body (e # es) = lp_entry e @ lp_body es"
  "lp_body (xs @ ys) = lp_body xs @ lp_body ys"
  by (simp_all add: lp_body_def)

lemma lp_off_simps [simp]: "lp_off [] = 6" "lp_off (xs @ ys) = lp_off xs + length (lp_body ys)"
  by (simp_all add: lp_off_def)

lemma length_lp_hdr [simp]: "length (lp_hdr t n) = 6"
  by (simp add: lp_hdr_def)

lemma lp_hdr_Cons: "\<exists>a b c d e f. lp_hdr t n = [a, b, c, d, e, f] \<and> le_bytes 4 (int t) = [a, b, c, d] \<and>
    le_bytes 2 (int n) = [e, f]"
  by (simp add: lp_hdr_def le_bytes_numeral)

lemma lpGetTotalBytes_hdr [simp]: "t < 2 ^ 32 \<Longrightarrow> lpGetTotalBytes (lp_hdr t n @ R) = t"
proof -
  assume t: "t < 2 ^ 32"
  obtain a b c d e f where h: "lp_hdr t n = [a, b, c, d, e, f]" "le_bytes 4 (int t) = [a, b, c, d]"
    using lp_hdr_Cons by blast
  have n: "(lp_hdr t n @ R) ! 0 = a" "(lp_hdr t n @ R) ! 1 = b" "(lp_hdr t n @ R) ! 2 = c"
    "(lp_hdr t n @ R) ! 3 = d"
    by (simp_all add: h)
  have "int (lpGetTotalBytes (lp_hdr t n @ R)) = le_val [a, b, c, d]"
    unfolding lpGetTotalBytes_def n of_nat_or_eq of_nat_push_bit of_nat_unat or.assoc[symmetric]
      le_val_int_or
    by (rule refl)
  then show ?thesis using le_bytes_nth(3)[OF h(2)] t by simp
qed

lemma lpGetNumElements_hdr [simp]: "n < 2 ^ 16 \<Longrightarrow> lpGetNumElements (lp_hdr t n @ R) = n"
proof -
  assume n': "n < 2 ^ 16"
  obtain a b c d e f where h: "lp_hdr t n = [a, b, c, d, e, f]" "le_bytes 2 (int n) = [e, f]"
    using lp_hdr_Cons by blast
  have n: "(lp_hdr t n @ R) ! 4 = e" "(lp_hdr t n @ R) ! 5 = f"
    by (simp_all add: h)
  have "int (lpGetNumElements (lp_hdr t n @ R)) = le_val [e, f]"
    unfolding lpGetNumElements_def n of_nat_or_eq of_nat_push_bit of_nat_unat le_val_int_or
    by (rule refl)
  then show ?thesis using le_bytes_nth(1)[OF h(2)] n' by simp
qed

lemma le_bytes_nat:
  "le_bytes 4 (int v) = [word_of_nat (v AND 0xff), word_of_nat (drop_bit 8 v AND 0xff),
     word_of_nat (drop_bit 16 v AND 0xff), word_of_nat (drop_bit 24 v AND 0xff)]"
  "le_bytes 2 (int v) = [word_of_nat (v AND 0xff), word_of_nat (drop_bit 8 v AND 0xff)]"
proof -
  have d: "int m div 256 = int (m div 256)" for m by (simp add: zdiv_int)
  show "le_bytes 4 (int v) = [word_of_nat (v AND 0xff), word_of_nat (drop_bit 8 v AND 0xff),
     word_of_nat (drop_bit 16 v AND 0xff), word_of_nat (drop_bit 24 v AND 0xff)]"
    "le_bytes 2 (int v) = [word_of_nat (v AND 0xff), word_of_nat (drop_bit 8 v AND 0xff)]"
    unfolding nat_and_255 word_of_nat_mod_256 drop_bit_eq_div
    by (simp_all add: le_bytes_numeral d div_mult2_eq[symmetric])
qed

lemma lpSetTotalBytes_hdr [simp]: "lpSetTotalBytes (lp_hdr t n @ R) v = lp_hdr v n @ R"
proof -
  obtain a b c d e f where h: "lp_hdr t n = [a, b, c, d, e, f]" "le_bytes 2 (int n) = [e, f]"
    using lp_hdr_Cons by blast
  have u: "([a, b, c, d, e, f] @ R)[0 := x, 1 := y, 2 := z, 3 := w] = [x, y, z, w, e, f] @ R" for x y z w
    by (simp add: eval_nat_numeral)
  show ?thesis
    unfolding lpSetTotalBytes_def h(1) u lp_hdr_def[of v n] h(2) le_bytes_nat(1) by simp
qed

lemma lpSetNumElements_hdr [simp]: "lpSetNumElements (lp_hdr t n @ R) v = lp_hdr t v @ R"
proof -
  obtain a b c d e f where h: "lp_hdr t n = [a, b, c, d, e, f]" "le_bytes 4 (int t) = [a, b, c, d]"
    using lp_hdr_Cons by blast
  have u: "([a, b, c, d, e, f] @ R)[4 := x, 5 := y] = [a, b, c, d, x, y] @ R" for x y
    by (simp add: eval_nat_numeral)
  show ?thesis
    unfolding lpSetNumElements_def h(1) u lp_hdr_def[of t v] h(2) le_bytes_nat(2) by simp
qed

lemma lp_hdr_num_mod: "lp_hdr t (n mod 2 ^ 16) = lp_hdr t n"
  unfolding lp_hdr_def by (simp add: zmod_int le_bytes_cong[of "int n mod 65536" 2 "int n"])

section \<open>Navigation\<close>

lemma lp_image_total [simp]:
  "lp_fits es \<Longrightarrow> lpGetTotalBytes (lp_image n es sl) = lp_off es + 1"
  "lp_fits es \<Longrightarrow> lpBytes (lp_image n es sl) = lp_off es + 1"
  by (simp_all add: lp_image_def lp_fits_def lpBytes_def)

lemma lp_image_numele [simp]: "lp_numele_ok n es \<Longrightarrow> lpGetNumElements (lp_image n es sl) = n"
  by (auto simp: lp_image_def lp_numele_ok_def)

lemma lp_image_drop: "drop (lp_off xs) (lp_image n (xs @ ys) sl) = lp_body ys @ LP_EOF # sl"
  by (simp add: lp_image_def lp_off_def)

lemma lp_image_nth: "lp_image n (xs @ ys) sl ! (lp_off xs) = (lp_body ys @ LP_EOF # sl) ! 0"
proof -
  have "lp_off xs < length (lp_image n (xs @ ys) sl)" by (simp add: lp_image_def lp_off_def)
  then show ?thesis
    using lp_image_drop[of xs n ys sl] nth_via_drop[of "lp_off xs" "lp_image n (xs @ ys) sl"]
    by (metis Cons_nth_drop_Suc nth_Cons_0)
qed

lemma lp_fits_app: "lp_fits (xs @ ys) \<Longrightarrow> lp_fits xs \<and> (\<forall>e \<in> set ys. lp_ok e)"
  by (auto simp: lp_fits_def)

lemma length_lp_entry: "length (lp_entry e) = length (lp_enc e) + length (lpEncodeBacklen (length (lp_enc e)))"
  by (simp add: lp_entry_def)

lemma lp_entry_pos: "0 < length (lp_entry e)"
  using lpEncodeBacklen_length(1)[of "length (lp_enc e)"] by (simp add: length_lp_entry del: length_greater_0_conv)

text \<open>What the decoding functions see at the start of an entry.\<close>

lemma lp_image_entry:
  fixes n sl
  assumes "lp_fits (xs @ e # ys)"
  defines "p \<equiv> drop (lp_off xs) (lp_image n (xs @ e # ys) sl)"
  shows "lpGetWithSize p None = (e, Some (length (lp_entry e)))"
    and "lpCurrentEncodedSizeUnsafe p = length (lp_enc e)"
    and "0 < lpCurrentEncodedSizeBytes p" "lpCurrentEncodedSizeBytes p \<le> length (lp_enc e)"
    and "lp_image n (xs @ e # ys) sl ! lp_off xs \<noteq> LP_EOF"
proof -
  have ok: "lp_ok e" using assms(1) by (simp add: lp_fits_def)
  have p: "p = lp_enc e @ lpEncodeBacklen (length (lp_enc e)) @ lp_body ys @ LP_EOF # sl"
    by (simp add: p_def lp_image_drop lp_entry_def)
  show "lpGetWithSize p None = (e, Some (length (lp_entry e)))"
    "lpCurrentEncodedSizeUnsafe p = length (lp_enc e)" "0 < lpCurrentEncodedSizeBytes p"
    "lpCurrentEncodedSizeBytes p \<le> length (lp_enc e)"
    unfolding p using lp_enc_decode[OF ok] by (simp_all add: length_lp_entry)
  show "lp_image n (xs @ e # ys) sl ! lp_off xs \<noteq> LP_EOF"
    using lp_enc_decode(5)[OF ok, of "lpEncodeBacklen (length (lp_enc e)) @ lp_body ys @ LP_EOF # sl"]
    by (simp add: lp_image_nth lp_entry_def)
qed

lemma lp_image_eof [simp]: "lp_image n es sl ! lp_off es = LP_EOF"
  using lp_image_nth[of n es "[]" sl] by simp

lemma lpSkip_image:
  "lp_fits (xs @ e # ys) \<Longrightarrow> lpSkip (lp_image n (xs @ e # ys) sl) (lp_off xs) = lp_off (xs @ [e])"
  by (simp add: lpSkip_def lp_image_entry Let_def length_lp_entry)

lemma lp_image_backlen:
  assumes "lp_fits (xs @ e # ys)"
  shows "lpDecodeBacklen (lp_image n (xs @ e # ys) sl) (lp_off (xs @ [e]) - 1) = length (lp_enc e)"
proof -
  let ?l = "length (lp_enc e)" and ?pre = "lp_hdr (lp_off (xs @ e # ys) + 1) n @ lp_body xs @ lp_enc e"
  have ok: "lp_ok e" using assms by (simp add: lp_fits_def)
  have l: "?l < 2 ^ 35" using lp_enc_length(2)[OF ok] by simp
  have im: "lp_image n (xs @ e # ys) sl = ?pre @ lpEncodeBacklen ?l @ lp_body ys @ LP_EOF # sl"
    by (simp add: lp_image_def lp_entry_def)
  have off: "lp_off (xs @ [e]) - 1 = length ?pre + length (lpEncodeBacklen ?l) - 1"
    by (simp add: lp_off_def length_lp_entry)
  show ?thesis unfolding off by (rule lpDecodeBacklen_correct[OF l im])
qed

lemma lpOutOfRange_iff: "lpOutOfRange lpbytes p \<longleftrightarrow> p < 6 \<or> lpbytes \<le> p"
  by (auto simp: lpOutOfRange_def)

lemma lpValidateNext_image:
  assumes fits: "lp_fits (xs @ ys)"
  shows "lpValidateNext (lp_image n (xs @ ys) sl) (Some (lp_off xs)) (lp_off (xs @ ys) + 1) =
    (True, case ys of [] \<Rightarrow> None | y # _ \<Rightarrow> Some (lp_off (xs @ [y])))"
proof (cases ys)
  case Nil
  then show ?thesis using lp_image_eof[of n xs sl] by (simp add: lpValidateNext_def lpOutOfRange_iff lp_off_def)
next
  case (Cons e zs)
  note im = lp_image_entry[OF fits[unfolded Cons], of n sl]
  have bl: "lpDecodeBacklen (lp_image n (xs @ e # zs) sl) (lp_off xs + length (lp_entry e) - 1) = length (lp_enc e)"
    using lp_image_backlen[of xs e zs n sl] fits Cons by simp
  have "length (lp_entry e) < 2 ^ 64" using fits Cons by (simp add: lp_fits_def)
  then have "(length (lp_enc e) + length (lpEncodeBacklen (length (lp_enc e)))) mod 2 ^ 64 = length (lp_entry e)"
    by (simp add: length_lp_entry)
  moreover have "lpCurrentEncodedSizeBytes (drop (lp_off xs) (lp_image n (xs @ e # zs) sl)) \<le> length (lp_entry e)"
    using im(4) by (simp add: length_lp_entry)
  ultimately show ?thesis
    using im bl Cons
    by (simp add: lpValidateNext_def lpOutOfRange_iff Let_def lp_off_def length_lp_entry[symmetric])
qed

lemma lpAssertValidEntry_image [simp]:
  "lp_fits (xs @ ys) \<Longrightarrow>
   lpAssertValidEntry (lp_image n (xs @ ys) sl) (Suc (lp_off xs + length (lp_body ys))) (lp_off xs) = Some ()"
  using lpValidateNext_image[of xs ys n sl] by (simp add: lpAssertValidEntry_def)

lemma lpNext_image:
  assumes "lp_fits (xs @ e # ys)"
  shows "lpNext (lp_image n (xs @ e # ys) sl) (lp_off xs) =
    Some (if ys = [] then None else Some (lp_off (xs @ [e])))"
proof (cases ys)
  case Nil
  then show ?thesis
    using assms lp_image_eof[of n "xs @ [e]" sl] by (simp add: lpNext_def lpSkip_image)
next
  case (Cons y zs)
  then show ?thesis
    using assms lp_image_entry(5)[of "xs @ [e]" y zs n sl] lpAssertValidEntry_image[of "xs @ [e]" ys n sl]
    by (simp add: lpNext_def lpSkip_image ac_simps)
qed

lemma lpPrev_image:
  assumes fits: "lp_fits (xs @ ys)"
  shows "lpPrev (lp_image n (xs @ ys) sl) (lp_off xs) =
    Some (if xs = [] then None else Some (lp_off (butlast xs)))"
proof (cases xs rule: rev_cases)
  case Nil
  then show ?thesis by (simp add: lpPrev_def)
next
  case (snoc zs e)
  have bl: "lpDecodeBacklen (lp_image n (zs @ e # ys) sl) (lp_off zs + length (lp_entry e) - 1) = length (lp_enc e)"
    using lp_image_backlen[of zs e ys n sl] fits snoc by simp
  have m: "length (lp_entry e) mod 2 ^ 64 = length (lp_entry e)"
    using fits snoc by (simp add: lp_fits_def)
  have "lp_off xs \<noteq> 6" using lp_entry_pos[of e] by (simp add: snoc lp_off_def)
  moreover have "lp_off zs + length (lp_entry e) - 1 - (length (lp_entry e) - 1) = lp_off zs"
    using lp_entry_pos[of e] by simp
  ultimately show ?thesis
    using bl m fits snoc lpAssertValidEntry_image[of zs "e # ys" n sl]
    by (simp add: lpPrev_def Let_def length_lp_entry[symmetric] ac_simps)
qed

lemma lpFirst_image:
  "lp_fits es \<Longrightarrow> lpFirst (lp_image n es sl) = Some (if es = [] then None else Some (lp_off []))"
  using lp_image_entry(5)[of "[]" "hd es" "tl es" n sl] lpAssertValidEntry_image[of "[]" es n sl]
    lp_image_eof[of n "[]" sl]
  by (cases es) (simp_all add: lpFirst_def ac_simps lp_off_def)

lemma lpLast_image:
  "lp_fits es \<Longrightarrow> lpLast (lp_image n es sl) = Some (if es = [] then None else Some (lp_off (butlast es)))"
  using lpPrev_image[of es "[]" n sl] by (simp add: lpLast_def)

lemma lpSeekForward_image:
  assumes "lp_fits (xs @ ys)"
  shows "lpSeekForward (lp_image n (xs @ ys) sl) k (if ys = [] then None else Some (lp_off xs)) =
    Some (if k < length ys then Some (lp_off (xs @ take k ys)) else None)"
  using assms
proof (induction k arbitrary: xs ys)
  case (Suc k)
  show ?case
  proof (cases ys)
    case (Cons y zs)
    then show ?thesis
      using Suc.prems Suc.IH[of "xs @ [y]" zs] by (simp add: lpNext_image split: if_splits)
  qed simp
qed simp

lemma lpSeekBackward_image:
  assumes "lp_fits (xs @ ys)"
  shows "lpSeekBackward (lp_image n (xs @ ys) sl) k (if xs = [] then None else Some (lp_off (butlast xs))) =
    Some (if k < length xs then Some (lp_off (take (length xs - 1 - k) xs)) else None)"
  using assms
proof (induction k arbitrary: xs ys)
  case 0
  then show ?case by (simp add: butlast_conv_take)
next
  case (Suc k)
  show ?case
  proof (cases xs rule: rev_cases)
    case (snoc zs z)
    then show ?thesis
      using Suc.prems Suc.IH[of zs "z # ys"] lpPrev_image[of zs "z # ys" n sl]
      by (simp split: if_splits)
  qed simp
qed

lemma lpSeekScan_image:
  assumes "lp_fits es"
  shows "0 \<le> i \<Longrightarrow> lpSeekScan (lp_image n es sl) True i =
      Some (if nat i < length es then Some (lp_off (take (nat i) es)) else None)"
    and "i < 0 \<Longrightarrow> lpSeekScan (lp_image n es sl) False i =
      Some (if nat (- i) \<le> length es then Some (lp_off (take (length es - nat (- i)) es)) else None)"
proof -
  show "0 \<le> i \<Longrightarrow> lpSeekScan (lp_image n es sl) True i =
      Some (if nat i < length es then Some (lp_off (take (nat i) es)) else None)"
    using lpSeekForward_image[of "[]" es n sl "nat i"] assms
    by (simp add: lpSeekScan_def lpFirst_image)
  assume i: "i < 0"
  have "nat (- 1 - i) < length es \<longleftrightarrow> nat (- i) \<le> length es" "length es - 1 - nat (- 1 - i) = length es - nat (- i)"
    using i by auto
  then show "lpSeekScan (lp_image n es sl) False i =
      Some (if nat (- i) \<le> length es then Some (lp_off (take (length es - nat (- i)) es)) else None)"
    using lpSeekBackward_image[of es "[]" n sl "nat (- 1 - i)"] assms
    by (simp add: lpSeekScan_def lpLast_image)
qed

text \<open>The index of the entry that \<open>index\<close> denotes, counted from the end when negative.\<close>

definition lp_index :: "lp_value list \<Rightarrow> int \<Rightarrow> nat option" where
  "lp_index es index =
     (let i = (if index < 0 then int (length es) + index else index) in
      if 0 \<le> i \<and> i < int (length es) then Some (nat i) else None)"

lemma lpSeek_image:
  assumes fits: "lp_fits es" and n: "lp_numele_ok n es"
  shows "lpSeek (lp_image n es sl) index = Some (map_option (\<lambda>i. lp_off (take i es)) (lp_index es index))"
proof (cases "n = 65535")
  case True
  have "nat (- index) \<le> length es \<longleftrightarrow> 0 \<le> int (length es) + index"
    "length es - nat (- index) = nat (int (length es) + index)" if "index < 0"
    using that by auto
  then show ?thesis
    using True n lpSeekScan_image[OF fits, of index n sl]
    by (auto simp: lpSeek_def lp_index_def Let_def nat_less_iff)
next
  case False
  then have n': "int n = int (length es)" using n by (simp add: lp_numele_ok_def)
  define i where "i = (if index < 0 then int (length es) + index else index)"
  have "nat (- (i - int (length es))) \<le> length es" "length es - nat (- (i - int (length es))) = nat i"
    "nat i < length es" if "0 \<le> i" "i < int (length es)"
    using that by auto
  then show ?thesis
    using False n n' lpSeekScan_image(1)[OF fits, of i n sl] lpSeekScan_image(2)[OF fits, of "i - int (length es)" n sl]
    by (auto simp: lpSeek_def lp_index_def Let_def i_def[symmetric])
qed

section \<open>Length\<close>

lemma lp_off_length: "2 * length es + 6 \<le> lp_off es" if "\<forall>e \<in> set es. lp_ok e"
  using that
proof (induction es)
  case (Cons e es)
  have "2 \<le> length (lp_entry e)"
    using Cons.prems lp_enc_length(1)[of e] lpEncodeBacklen_length(1)[of "length (lp_enc e)"]
    by (simp add: length_lp_entry del: length_greater_0_conv)
  then show ?case using Cons by (simp add: lp_off_def)
qed simp

lemma lp_fits_length: "lp_fits es \<Longrightarrow> length es < 2 ^ 31"
  using lp_off_length[of es] by (auto simp: lp_fits_def)

lemma lpLength_loop_image:
  assumes "lp_fits (xs @ ys)" "c + length ys < 2 ^ 32"
  shows "lpLength_loop (lp_image n (xs @ ys) sl) (if ys = [] then None else Some (lp_off xs)) c =
    Some (c + length ys)"
  using assms
proof (induction ys arbitrary: xs c)
  case Nil
  then show ?case by (simp add: lpLength_loop.simps)
next
  case (Cons y ys)
  then show ?case
    using Cons.IH[of "xs @ [y]" "c + 1"]
    by (subst lpLength_loop.simps) (simp add: lpNext_image split: if_splits)
qed

lemma lpLength_image:
  assumes fits: "lp_fits es" and n: "lp_numele_ok n es"
  shows "\<exists>n'. lp_numele_ok n' es \<and> lpLength (lp_image n es sl) = Some (lp_image n' es sl, length es)"
proof (cases "n = 65535")
  case True
  have "lpLength_loop (lp_image n es sl) (if es = [] then None else Some (lp_off [])) 0 = Some (length es)"
    using lpLength_loop_image[of "[]" es 0 n sl] fits lp_fits_length[OF fits] by simp
  then have *: "lpLength (lp_image n es sl) =
      Some (if length es < 65535 then lp_image (length es) es sl else lp_image n es sl, length es)"
    using True n fits by (simp add: lpLength_def lpFirst_image) (simp add: lp_image_def)
  show ?thesis
  proof (cases "length es < 65535")
    case True
    then show ?thesis using * by (intro exI[of _ "length es"]) (simp add: lp_numele_ok_def)
  next
    case False
    then show ?thesis using * n by (intro exI[of _ n]) simp
  qed
next
  case False
  then show ?thesis using n by (intro exI[of _ n]) (auto simp: lpLength_def lp_numele_ok_def Let_def)
qed

section \<open>Search\<close>

text \<open>The text of an entry, as \<open>lpGet\<close> with a buffer gives it.\<close>

definition lp_text :: "lp_value \<Rightarrow> byte list" where
  "lp_text e = (case e of LP_INT v \<Rightarrow> sdec v | LP_STR s \<Rightarrow> s)"

text \<open>
  The search on the list of entries: of the entries at distance \<open>k\<close>, \<open>k + skip + 1\<close>, \<dots> the
  index of the first that satisfies \<open>P\<close>.
\<close>

primrec lp_find :: "(lp_value \<Rightarrow> bool) \<Rightarrow> nat \<Rightarrow> nat \<Rightarrow> lp_value list \<Rightarrow> nat option" where
  "lp_find P skip k [] = None"
| "lp_find P skip k (e # es) =
     (if k = 0 then (if P e then Some 0 else map_option Suc (lp_find P skip skip es))
      else map_option Suc (lp_find P skip (k - 1) es))"

lemma lp_find_Some:
  "lp_find P skip k es = Some i \<Longrightarrow> i < length es \<and> P (es ! i)"
  by (induction es arbitrary: k i) (auto split: if_splits)

text \<open>The contract of a comparison callback: it decides \<open>P\<close> as long as its user data satisfy \<open>I\<close>.\<close>

locale lp_comparator =
  fixes cmp :: "byte list \<Rightarrow> nat \<Rightarrow> 'u \<Rightarrow> lp_value \<Rightarrow> bool \<times> 'u"
    and I :: "'u \<Rightarrow> bool"
    and P :: "lp_value \<Rightarrow> bool"
  assumes cmp_result: "I u \<Longrightarrow> lp_ok e \<Longrightarrow> fst (cmp lp p u e) = P e"
    and cmp_inv: "I u \<Longrightarrow> lp_ok e \<Longrightarrow> I (snd (cmp lp p u e))"
begin

lemma find_step:
  assumes "lp_fits (xs @ e # ys)" "I u"
  shows "\<exists>sz u'. I u' \<and>
    lpFindCb_step cmp (lp_image n (xs @ e # ys) sl) (lp_off (xs @ e # ys) + 1) skip (lp_off xs) k es u =
    Some (if k = 0 \<and> P e then Inl (lp_off xs)
          else Inr (lp_off (xs @ [e]), if k = 0 then skip else k - 1, sz, u'))"
proof (cases "k = 0")
  case True
  let ?lp = "lp_image n (xs @ e # ys) sl"
  have ok: "lp_ok e" using assms(1) by (simp add: lp_fits_def)
  obtain b u' where c: "cmp ?lp (lp_off xs) u e = (b, u')" by fastforce
  then have "b = P e" "I u'"
    using cmp_result[OF assms(2) ok, of ?lp "lp_off xs"] cmp_inv[OF assms(2) ok, of ?lp "lp_off xs"] by auto
  moreover have "6 \<le> lp_off xs" by (simp add: lp_off_def)
  ultimately show ?thesis
    using True c assms(1)
    by (intro exI[of _ "length (lp_entry e)"] exI[of _ u'])
      (auto simp: lpFindCb_step_def lp_image_entry Let_def split: lp_value.splits)
next
  case False
  then show ?thesis
    using assms by (intro exI[of _ es] exI[of _ u]) (simp add: lpFindCb_step_def lpSkip_image)
qed

lemma find_loop:
  assumes "lp_fits (xs @ ys)" "I u" "ys \<noteq> []"
  shows "lpFindCb_loop cmp (lp_image n (xs @ ys) sl) (lp_off (xs @ ys) + 1) skip (lp_off xs) k es u =
    Some (map_option (\<lambda>i. lp_off (xs @ take i ys)) (lp_find P skip k ys))"
  using assms
proof (induction ys arbitrary: xs k es u)
  case (Cons y ys)
  let ?lp = "lp_image n (xs @ y # ys) sl" and ?b = "lp_off (xs @ y # ys) + 1"
  obtain sz u' where u': "I u'" and st: "lpFindCb_step cmp ?lp ?b skip (lp_off xs) k es u =
      Some (if k = 0 \<and> P y then Inl (lp_off xs)
            else Inr (lp_off (xs @ [y]), if k = 0 then skip else k - 1, sz, u'))"
    using find_step[OF Cons.prems(1,2)] by blast
  have chk: "lpFindCb_check ?lp ?b (lp_off (xs @ [y])) = Some ()"
    using Cons.prems(1) lpAssertValidEntry_image[of "xs @ [y]" ys n sl]
    by (simp add: lpFindCb_check_def ac_simps) (simp add: lp_off_def)
  show ?case
  proof (cases "k = 0 \<and> P y")
    case True
    then show ?thesis using st by (subst lpFindCb_loop.simps) simp
  next
    case nf: False
    show ?thesis
    proof (cases "ys = []")
      case True
      then show ?thesis
        using st chk nf lp_image_eof[of n "xs @ [y]" sl]
        by (subst lpFindCb_loop.simps) (auto split: if_splits)
    next
      case False
      then obtain z zs where ys: "ys = z # zs" by (cases ys) auto
      have "?lp ! lp_off (xs @ [y]) \<noteq> LP_EOF"
        using lp_image_entry(5)[of "xs @ [y]" z zs n sl] Cons.prems(1) ys by simp
      then have "lpFindCb_loop cmp ?lp ?b skip (lp_off xs) k es u =
          lpFindCb_loop cmp ?lp ?b skip (lp_off (xs @ [y])) (if k = 0 then skip else k - 1) sz u'"
        using st chk nf by (subst lpFindCb_loop.simps) simp
      also have "\<dots> = Some (map_option (\<lambda>i. lp_off ((xs @ [y]) @ take i ys))
          (lp_find P skip (if k = 0 then skip else k - 1) ys))"
        using Cons.IH[of "xs @ [y]" u'] Cons.prems(1) u' False by simp
      also have "\<dots> = Some (map_option (\<lambda>i. lp_off (xs @ take i (y # ys))) (lp_find P skip k (y # ys)))"
        using nf by (auto simp: option.map_comp comp_def)
      finally show ?thesis .
    qed
  qed
qed simp

lemma find_from:
  assumes "lp_fits (xs @ ys)" "I u" "ys \<noteq> []"
  shows "lpFindCb cmp (lp_image n (xs @ ys) sl) (Some (lp_off xs)) u skip =
    Some (map_option (\<lambda>i. lp_off (xs @ take i ys)) (lp_find P skip 0 ys))"
  using find_loop[OF assms, of n sl skip 0] assms(1) by (simp add: lpFindCb_def)

lemma find_first:
  assumes "lp_fits es" "I u"
  shows "lpFindCb cmp (lp_image n es sl) None u skip =
    Some (map_option (\<lambda>i. lp_off (take i es)) (lp_find P skip 0 es))"
  using find_loop[of "[]" es u n sl skip 0] assms
  by (cases "es = []") (simp_all add: lpFindCb_def lpFirst_image)

end

text \<open>The comparison of \<open>lpFind\<close> satisfies the contract; its user data cache the parsed argument.\<close>

definition lp_find_inv :: "byte list \<Rightarrow> lpFindArg \<Rightarrow> bool" where
  "lp_find_inv s arg \<longleftrightarrow> fa_s arg = s \<and>
     (fa_vencoding arg = 0 \<or> fa_vencoding arg = 1 \<and> lpStringToInt64 s = Some (fa_vll arg) \<or>
      fa_vencoding arg = 255 \<and> lpStringToInt64 s = None)"

lemma lpStringToInt64_None:
  "32 \<le> length s \<or> s = [] \<Longrightarrow> lpStringToInt64 s = None"
  by (auto simp: lpStringToInt64_eq string2ll_def LONG_STR_SIZE_def Let_def)

interpretation lp_find_cmp: lp_comparator lpFindCmp "lp_find_inv s" "\<lambda>e. lp_text e = s" for s
proof unfold_locales
  fix u e lp p
  assume I: "lp_find_inv s u" and ok: "lp_ok e"
  have iff: "lpStringToInt64 s = Some v \<longleftrightarrow> is_int64 v \<and> s = sdec v" for v
    by (simp add: lpStringToInt64_eq string2ll_iff)
  have "fst (lpFindCmp lp p u e) = (lp_text e = s) \<and> lp_find_inv s (snd (lpFindCmp lp p u e))"
  proof (cases e)
    case (LP_STR x)
    then show ?thesis using I by (auto simp: lpFindCmp_def lp_text_def lp_find_inv_def)
  next
    case (LP_INT v)
    then have v: "is_int64 v" using ok by (simp add: lp_ok_def)
    have eq: "sdec v = s \<longleftrightarrow> lpStringToInt64 s = Some v" using iff[of v] v by auto
    show ?thesis
      using I LP_INT lpStringToInt64_None[of s]
      by (auto simp: lpFindCmp_def lp_text_def lp_find_inv_def eq split: option.splits)
  qed
  then show "fst (lpFindCmp lp p u e) = (lp_text e = s)" "lp_find_inv s (snd (lpFindCmp lp p u e))"
    by blast+
qed

lemma lpFind_image:
  assumes "lp_fits es"
  shows "lpFind (lp_image n es sl) None s slen skip =
    Some (map_option (\<lambda>i. lp_off (take i es)) (lp_find (\<lambda>e. lp_text e = take (slen mod 2 ^ 32) s) skip 0 es))"
  using lp_find_cmp.find_first[OF assms] by (simp add: lpFind_def lp_find_inv_def Let_def)

lemma lpFind_from_image:
  assumes "lp_fits (xs @ ys)" "ys \<noteq> []"
  shows "lpFind (lp_image n (xs @ ys) sl) (Some (lp_off xs)) s slen skip =
    Some (map_option (\<lambda>i. lp_off (xs @ take i ys)) (lp_find (\<lambda>e. lp_text e = take (slen mod 2 ^ 32) s) skip 0 ys))"
  using lp_find_cmp.find_from[OF assms(1) _ assms(2)] by (simp add: lpFind_def lp_find_inv_def Let_def)

end
