(* ===== verification/Listpack_Update.thy ===== *)
theory Listpack_Update
  imports Listpack_Correct
begin

text \<open>
  The operations of \<^verbatim>\<open>listpack.c\<close> that change the list of entries: insertion, replacement and
  deletion of one entry, batches, ranges, merging. Each of them is shown to give the image of
  the changed list, or to fail exactly when the result would exceed the maximal size.
\<close>

section \<open>Insertion, replacement, deletion\<close>

text \<open>Making room for \<open>k\<close> bytes in place of the bytes \<open>B\<close>, as \<open>lpInsert\<close> does.\<close>

lemma lp_make_room:
  fixes P B T S :: "byte list"
  assumes lp: "lp = P @ B @ T @ S"
    and new: "new = length P + k + length T" and old: "old = length P + length B + length T"
    and m1: "m1 = (if new > old \<and> new > length lp then realloc new lp else lp)"
    and m2: "m2 = memmove (length P + k) (length P + length B) (length T) m1"
    and m3: "m3 = (if new < old then realloc new m2 else m2)"
  shows "\<exists>G S'. length G = k \<and> m3 = P @ G @ T @ S'"
proof -
  obtain S1 where S1: "m1 = P @ B @ T @ S1" "k \<le> length B + length S1"
  proof (cases "new > old \<and> new > length lp")
    case True
    then have "m1 = P @ B @ T @ S @ replicate (new - length lp) uninit"
      using take_all[of lp new] by (simp add: m1 realloc_def) (simp add: lp)
    moreover have "k \<le> length B + length (S @ replicate (new - length lp) uninit)"
      using True by (simp add: lp new)
    ultimately show ?thesis using that by blast
  next
    case False
    then show ?thesis using that[of S] by (auto simp: m1 lp new old)
  qed
  let ?R = "B @ T @ S1"
  have "read_at (length P + length B) (length T) m1 = T" by (simp add: read_at_def S1)
  moreover have "length P + k + length T \<le> length m1" using S1 by simp
  ultimately have "m2 = take (length P + k) m1 @ T @ drop (length P + k + length T) m1"
    by (simp add: m2 memmove_def write_at_inside)
  then have m2': "m2 = P @ take k ?R @ T @ drop (k + length T) ?R"
    by (simp add: S1(1) add.commute)
  have k: "length (take k ?R) = k" using S1(2) by simp
  show ?thesis
  proof (cases "new < old")
    case True
    then have "m3 = take new m2" using m2' k by (simp add: m3 realloc_def new old)
    also have "\<dots> = P @ take k ?R @ T @ []"
    proof -
      have "take (length P + length G + length T) (P @ G @ T @ X) = P @ G @ T @ []" for G X :: "byte list"
        by simp
      from this[of "take k ?R"] show ?thesis unfolding m2' new k .
    qed
    finally show ?thesis using k by blast
  next
    case False
    then have "m3 = m2" by (simp add: m3)
    then show ?thesis using m2' k by blast
  qed
qed

lemma write_at_gap: "length G = length N \<Longrightarrow> write_at (length P) N (P @ G @ R) = P @ N @ R"
  by (simp add: write_at_inside)

lemma write_at_gap2:
  assumes "length G = length N1 + length N2"
  shows "write_at (length P + length N1) N2 (write_at (length P) N1 (P @ G @ R)) = P @ N1 @ N2 @ R"
proof -
  have "write_at (length P) N1 (P @ G @ R) = (P @ N1) @ drop (length N1) G @ R"
    using assms write_at_gap[of "take (length N1) G" N1 P "drop (length N1) G @ R"]
    by (simp flip: append_assoc)
  then show ?thesis
    using assms write_at_gap[of "drop (length N1) G" N2 "P @ N1" R] by simp
qed

text \<open>The entry a string is stored as.\<close>

definition lp_of_string :: "byte list \<Rightarrow> lp_value" where
  "lp_of_string s = (case lpStringToInt64 s of Some v \<Rightarrow> LP_INT v | None \<Rightarrow> LP_STR s)"

lemma lpEncodeGetType_of_string:
  assumes "length s < 2 ^ 32"
  shows "lpEncodeGetType s =
    (case lpStringToInt64 s of
       Some v \<Rightarrow> (LP_ENCODING_INT (lp_enc (lp_of_string s)), length (lp_enc (lp_of_string s)))
     | None \<Rightarrow> (LP_ENCODING_STRING, length (lp_enc (lp_of_string s))))"
  using lpEncodeString_eq[OF assms]
  by (auto simp: lpEncodeGetType_def lp_of_string_def lp_enc_def Let_def split: option.splits)

text \<open>The arguments of \<open>lpInsert\<close> and the entries they stand for: one to insert, or none to delete.\<close>

inductive lp_arg :: "byte list option \<Rightarrow> byte list option \<Rightarrow> lp_value list \<Rightarrow> bool" where
  arg_string: "length s < 2 ^ 32 \<Longrightarrow> lp_arg (Some s) None [lp_of_string s]"
| arg_int: "is_int64 v \<Longrightarrow> lp_arg None (Some (lpEncodeIntegerGetType v)) [LP_INT v]"
| arg_none: "lp_arg None None []"

lemma lp_ok_of_string: "length (lp_entry (lp_of_string s)) < 2 ^ 32 \<Longrightarrow> lp_ok (lp_of_string s)"
proof (cases "lpStringToInt64 s")
  case None
  assume "length (lp_entry (lp_of_string s)) < 2 ^ 32"
  moreover have "length (lpEncodeString s) = (if length s < 64 then length s + 1
      else if length s < 4096 then length s + 2 else length s + 5)"
    by (simp add: lpEncodeString_def Let_def)
  ultimately show ?thesis
    using None lpEncodeBacklen_length(1)[of "length (lpEncodeString s)"]
    by (auto simp: lp_of_string_def lp_ok_def lp_entry_def lp_enc_def split: if_splits)
next
  case (Some v)
  then have "is_int64 v" by (simp add: lpStringToInt64_eq string2ll_iff)
  then show ?thesis using Some by (simp add: lp_of_string_def lp_ok_def)
qed

lemma lp_arg_ok: "lp_arg elestr eleint es \<Longrightarrow> length (lp_body es) < 2 ^ 32 \<Longrightarrow> e \<in> set es \<Longrightarrow> lp_ok e"
  by (induction rule: lp_arg.induct) (auto simp: lp_ok_of_string)


text \<open>The parts of \<open>lpInsert\<close>.\<close>

lemma lpInsert_room_image:
  assumes whr: "whr = LP_BEFORE \<and> bs = [] \<or> whr = LP_REPLACE"
    and k: "k = a + b" and rl: "rl = length (lp_body bs)"
    and old: "old = lp_off (xs @ bs @ ys) + 1" and new: "new = lp_off xs + k + length (lp_body ys) + 1"
  shows "\<exists>G S'. length G = k \<and>
    lpInsert_room (lp_image n (xs @ bs @ ys) sl) whr (lp_off xs) a b rl old new =
    (lp_hdr old n @ lp_body xs) @ G @ lp_body ys @ LP_EOF # S'"
proof -
  let ?lp = "lp_image n (xs @ bs @ ys) sl" and ?P = "lp_hdr old n @ lp_body xs"
  let ?T = "lp_body ys @ [LP_EOF]"
  define m1 where "m1 = (if new > old \<and> new > length ?lp then realloc new ?lp else ?lp)"
  define m2 where "m2 = memmove (length ?P + k) (length ?P + length (lp_body bs)) (length ?T) m1"
  define m3 where "m3 = (if new < old then realloc new m2 else m2)"
  have lenP: "length ?P = lp_off xs" by (simp add: lp_off_def)
  have lp: "?lp = ?P @ lp_body bs @ ?T @ sl" by (simp add: lp_image_def old)
  have "lpInsert_room ?lp whr (lp_off xs) a b rl old new = m3"
    using whr unfolding m3_def m2_def m1_def lenP k rl
    by (auto simp: lpInsert_room_def Let_def old add.assoc)
  moreover have "\<exists>G S'. length G = k \<and> m3 = ?P @ G @ ?T @ S'"
    by (rule lp_make_room[OF lp _ _ m1_def m2_def m3_def]) (simp_all add: new old lp_off_def)
  ultimately show ?thesis by simp
qed

text \<open>The encoding chosen for the argument, and that its stores write the entry into the gap.\<close>

definition lp_stores :: "byte list option \<Rightarrow> lp_enctype \<Rightarrow> lp_value \<Rightarrow> bool" where
  "lp_stores elestr et e \<longleftrightarrow> et = LP_ENCODING_INT (lp_enc e) \<or>
     et = LP_ENCODING_STRING \<and> (\<exists>s. elestr = Some s \<and> lp_enc e = lpEncodeString s)"

lemma lpInsert_store_entry:
  assumes "lp_stores elestr et e" "length G = length (lp_entry e)"
  shows "lpInsert_store (P @ G @ R) elestr et (length (lp_enc e)) (lpEncodeBacklen (length (lp_enc e))) (length P) =
    P @ lp_entry e @ R"
  using assms write_at_gap2[of G "lp_enc e" "lpEncodeBacklen (length (lp_enc e))" P R]
  by (auto simp: lp_stores_def lpInsert_store_def lp_entry_def)

lemma lpInsert_enc_arg:
  assumes "lp_arg elestr eleint [e]"
  shows "elestr \<noteq> None \<or> eleint \<noteq> None"
    and "\<exists>et. lpInsert_enc elestr eleint = (et, length (lp_enc e)) \<and> lp_stores elestr et e"
  using assms
  by (cases; auto simp: lpInsert_enc_def lpEncodeGetType_of_string lp_stores_def lp_enc_def lp_of_string_def
      split: option.splits)+

text \<open>The element count the header gets.\<close>

definition lp_count :: "nat \<Rightarrow> lp_where \<Rightarrow> bool \<Rightarrow> nat" where
  "lp_count n whr delete =
     (if n = 65535 then n else if delete then n - 1 else if whr = LP_REPLACE then n else n + 1)"

lemma lpInsert_header_image:
  assumes "n \<le> 65535" "delete \<Longrightarrow> n \<noteq> 0"
  shows "lpInsert_header (lp_hdr t n @ R) whr delete new = lp_hdr new (lp_count n whr delete) @ R"
proof -
  have "((n + 2 ^ 32 - 1) mod 2 ^ 32) = n - 1" if "delete"
    using assms(2)[OF that] assms(1) by (cases n) auto
  then show ?thesis using assms by (auto simp: lpInsert_header_def lp_count_def Let_def)
qed


lemma lp_fits_put:
  assumes "lp_fits (xs @ bs @ ys)" "lp_arg elestr eleint new" "lp_off (xs @ new @ ys) + 1 < 2 ^ 32"
  shows "lp_fits (xs @ new @ ys)"
  using assms lp_arg_ok[OF assms(2)] by (auto simp: lp_fits_def)

lemma lp_count_ok:
  assumes "lp_numele_ok n (xs @ bs @ ys)"
    and "whr = LP_BEFORE \<and> bs = [] \<and> length new = 1 \<or> whr = LP_REPLACE \<and> length bs = 1 \<and> length new \<le> 1"
  shows "lp_numele_ok (lp_count n whr (new = [])) (xs @ new @ ys)"
  using assms by (cases new; cases bs) (auto simp: lp_numele_ok_def lp_count_def)

text \<open>
  \<open>lpInsert\<close> puts the entry \<open>e\<close> after \<open>xs\<close>, in front of \<open>ys\<close> (\<open>bs\<close> empty) or in place of the entry
  of \<open>bs\<close>; the only failure is a listpack that would exceed its maximal size.
\<close>

lemma lpInsert_put_image:
  assumes fits: "lp_fits (xs @ bs @ ys)" and n: "lp_numele_ok n (xs @ bs @ ys)"
    and arg: "lp_arg elestr eleint [e]"
    and whr: "whr = LP_BEFORE \<and> bs = [] \<or> whr = LP_REPLACE \<and> bs = [b]"
  shows "\<exists>n' sl'. lp_numele_ok n' (xs @ e # ys) \<and>
    lpInsert (lp_image n (xs @ bs @ ys) sl) elestr eleint (lp_off xs) whr =
    Some (if lp_off (xs @ e # ys) + 1 < 2 ^ 32
          then Some (lp_image n' (xs @ e # ys) sl', Some (lp_off xs)) else None)"
proof -
  let ?lp = "lp_image n (xs @ bs @ ys) sl" and ?old = "lp_off (xs @ bs @ ys) + 1"
  let ?new = "lp_off xs + length (lp_entry e) + length (lp_body ys) + 1"
  let ?l = "length (lp_enc e)" and ?rl = "length (lp_body bs)"
  obtain et where et: "lpInsert_enc elestr eleint = (et, ?l)" "lp_stores elestr et e"
    using lpInsert_enc_arg(2)[OF arg] by blast
  obtain G S' where G: "length G = length (lp_entry e)" and
    room: "lpInsert_room ?lp whr (lp_off xs) ?l (length (lpEncodeBacklen ?l)) ?rl ?old ?new =
      (lp_hdr ?old n @ lp_body xs) @ G @ lp_body ys @ LP_EOF # S'"
    using lpInsert_room_image[of whr bs _ ?l "length (lpEncodeBacklen ?l)" ?rl ?old xs ys ?new n sl] whr
    by (auto simp: length_lp_entry)
  have st: "lpInsert_store ((lp_hdr ?old n @ lp_body xs) @ G @ lp_body ys @ LP_EOF # S') elestr et ?l
      (lpEncodeBacklen ?l) (lp_off xs) = (lp_hdr ?old n @ lp_body xs) @ lp_entry e @ lp_body ys @ LP_EOF # S'"
    using lpInsert_store_entry[OF et(2) G, of "lp_hdr ?old n @ lp_body xs"] by (simp add: lp_off_def)
  have hd: "lpInsert_header ((lp_hdr ?old n @ lp_body xs) @ lp_entry e @ lp_body ys @ LP_EOF # S') whr False ?new =
      lp_image (lp_count n whr False) (xs @ e # ys) S'"
    using lpInsert_header_image[of n False ?old "lp_body xs @ lp_entry e @ lp_body ys @ LP_EOF # S'" whr ?new] n
    by (auto simp: lp_image_def lp_numele_ok_def ac_simps)
  have repl: "lpCurrentEncodedSizeUnsafe (drop (lp_off xs) ?lp) = length (lp_enc b)"
    "length (lp_entry b) mod 2 ^ 32 = length (lp_entry b)"
    "ASSERT_INTEGRITY_LEN ?lp (lp_off xs) (length (lp_entry b)) = Some ()" if "bs = [b]"
    using that fits lp_image_entry(2)[of xs b ys n sl]
    by (simp_all add: ASSERT_INTEGRITY_LEN_def lp_fits_def) (simp add: lp_off_def)
  have "lpInsert ?lp elestr eleint (lp_off xs) whr =
      Some (if ?new < 2 ^ 32 then Some (lp_image (lp_count n whr False) (xs @ e # ys) S', Some (lp_off xs)) else None)"
  proof -
    define nb where "nb = ?old + ?l + length (lpEncodeBacklen ?l) - ?rl"
    have nb: "nb = ?new" by (simp add: nb_def length_lp_entry)
    have "lpInsert ?lp elestr eleint (lp_off xs) whr =
        Some (if nb > UINT32_MAX then None
              else Some (lpInsert_header (lpInsert_store (lpInsert_room ?lp whr (lp_off xs) ?l
                (length (lpEncodeBacklen ?l)) ?rl ?old nb) elestr et ?l (lpEncodeBacklen ?l) (lp_off xs))
                whr False nb, Some (lp_off xs)))"
      using whr
    proof
      assume "whr = LP_BEFORE \<and> bs = []"
      then show ?thesis
        using lpInsert_enc_arg(1)[OF arg] fits
        by (auto simp: lpInsert_def et Let_def nb_def)
    next
      assume "whr = LP_REPLACE \<and> bs = [b]"
      then show ?thesis
        using lpInsert_enc_arg(1)[OF arg] fits repl
        by (auto simp: lpInsert_def et Let_def nb_def length_lp_entry[symmetric])
    qed
    then show ?thesis unfolding nb room st hd by (auto simp: UINT32_MAX_def)
  qed
  then show ?thesis
    using lp_count_ok[OF n, of whr "[e]"] whr by (intro exI[of _ "lp_count n whr False"] exI[of _ S']) auto
qed


lemma lpInsert_after_image:
  assumes "lp_fits (xs @ b # ys)" "elestr \<noteq> None \<or> eleint \<noteq> None"
  shows "lpInsert (lp_image n (xs @ b # ys) sl) elestr eleint (lp_off xs) LP_AFTER =
    lpInsert (lp_image n (xs @ b # ys) sl) elestr eleint (lp_off (xs @ [b])) LP_BEFORE"
proof -
  have "ASSERT_INTEGRITY (lp_image n (xs @ b # ys) sl) (lp_off xs + length (lp_entry b)) = Some ()"
    using assms(1) by (simp add: ASSERT_INTEGRITY_def lp_off_def)
  then show ?thesis using assms by (auto simp: lpInsert_def lpSkip_image)
qed

lemma lpDelete_image:
  assumes fits: "lp_fits (xs @ b # ys)" and n: "lp_numele_ok n (xs @ b # ys)"
  shows "\<exists>n' sl'. lp_numele_ok n' (xs @ ys) \<and>
    lpDelete (lp_image n (xs @ b # ys) sl) (lp_off xs) =
    Some (Some (lp_image n' (xs @ ys) sl', if ys = [] then None else Some (lp_off xs)))"
proof -
  let ?lp = "lp_image n (xs @ b # ys) sl" and ?old = "lp_off (xs @ b # ys) + 1"
  let ?new = "lp_off xs + length (lp_body ys) + 1" and ?rl = "length (lp_entry b)"
  obtain S' where room: "lpInsert_room ?lp LP_REPLACE (lp_off xs) 0 0 ?rl ?old ?new =
      (lp_hdr ?old n @ lp_body xs) @ lp_body ys @ LP_EOF # S'"
    using lpInsert_room_image[of LP_REPLACE "[b]" 0 0 0 ?rl ?old xs ys ?new n sl] by auto
  have repl: "lpCurrentEncodedSizeUnsafe (drop (lp_off xs) ?lp) = length (lp_enc b)"
    "length (lp_entry b) mod 2 ^ 32 = length (lp_entry b)"
    "ASSERT_INTEGRITY_LEN ?lp (lp_off xs) (length (lp_entry b)) = Some ()"
    using fits lp_image_entry(2)[of xs b ys n sl]
    by (simp_all add: ASSERT_INTEGRITY_LEN_def lp_fits_def) (simp add: lp_off_def)
  have hd: "lpInsert_header ((lp_hdr ?old n @ lp_body xs) @ lp_body ys @ LP_EOF # S') LP_REPLACE True ?new =
      lp_image (lp_count n LP_REPLACE True) (xs @ ys) S'"
    using lpInsert_header_image[of n True ?old "lp_body xs @ lp_body ys @ LP_EOF # S'" LP_REPLACE ?new] n
    by (auto simp: lp_image_def lp_numele_ok_def ac_simps)
  have "((lp_hdr ?old n @ lp_body xs) @ lp_body ys @ LP_EOF # S') ! lp_off xs = LP_EOF \<longleftrightarrow> ys = []"
  proof -
    have "((lp_hdr ?old n @ lp_body xs) @ lp_body ys @ LP_EOF # S') ! lp_off xs = (lp_body ys @ LP_EOF # S') ! 0"
      by (simp add: nth_append lp_off_def)
    moreover have "(lp_body ys @ LP_EOF # S') ! 0 \<noteq> LP_EOF" if "ys \<noteq> []"
      using that fits lp_enc_decode(5)[of "hd ys"] by (cases ys) (simp_all add: lp_fits_def lp_entry_def)
    ultimately show ?thesis by auto
  qed
  moreover have "?new \<le> UINT32_MAX" using fits by (simp add: lp_fits_def UINT32_MAX_def)
  moreover have "?old - length (lp_entry b) = ?new" by simp
  ultimately have "lpDelete ?lp (lp_off xs) = Some (Some (lp_image (lp_count n LP_REPLACE True) (xs @ ys) S',
      if ys = [] then None else Some (lp_off xs)))"
    using fits repl room hd
    by (simp add: lpDelete_def lpInsert_def lpInsert_enc_def length_lp_entry[symmetric] Let_def)
  then show ?thesis using n
    by (intro exI[of _ "lp_count n LP_REPLACE True"] exI[of _ S']) (auto simp: lp_count_def lp_numele_ok_def)
qed


section \<open>Batches\<close>

text \<open>The entry a \<open>listpackEntry\<close> is stored as.\<close>

definition lp_norm :: "lp_value \<Rightarrow> lp_value" where
  "lp_norm e = (case e of LP_STR s \<Rightarrow> lp_of_string s | LP_INT v \<Rightarrow> LP_INT v)"

definition lp_arg_ok :: "lp_value \<Rightarrow> bool" where
  "lp_arg_ok e = (case e of LP_STR s \<Rightarrow> length s < 2 ^ 32 | LP_INT v \<Rightarrow> is_int64 v)"

lemma lpBatchEncode_norm:
  assumes "lp_arg_ok e"
  shows "\<exists>et. lpBatchEncode e = (et, length (lp_enc (lp_norm e)), lpEncodeBacklen (length (lp_enc (lp_norm e)))) \<and>
    lp_stores (case e of LP_STR s \<Rightarrow> Some s | LP_INT v \<Rightarrow> None) et (lp_norm e)"
  using assms
  by (cases e)
    (auto simp: lpBatchEncode_def lp_norm_def lp_arg_ok_def lpEncodeGetType_of_string lp_stores_def lp_enc_def
      lp_of_string_def Let_def split: option.splits)

lemma lpBatchInsert_write_image:
  assumes "\<forall>e \<in> set es. lp_arg_ok e" "length G = length (lp_body (map lp_norm es))"
  shows "lpBatchInsert_write (P @ G @ R) (length P) newp (zip es (map lpBatchEncode es)) =
    (P @ lp_body (map lp_norm es) @ R,
     if es = [] then newp else Some (length P + length (lp_body (map lp_norm (butlast es)))))"
  using assms
proof (induction es arbitrary: P G newp)
  case (Cons e es)
  let ?e = "lp_norm e"
  obtain et where et: "lpBatchEncode e = (et, length (lp_enc ?e), lpEncodeBacklen (length (lp_enc ?e)))"
    "lp_stores (case e of LP_STR s \<Rightarrow> Some s | LP_INT v \<Rightarrow> None) et ?e"
    using lpBatchEncode_norm[of e] Cons.prems(1) by auto
  define G1 G2 where "G1 = take (length (lp_entry ?e)) G" and "G2 = drop (length (lp_entry ?e)) G"
  have G: "G = G1 @ G2" "length G1 = length (lp_entry ?e)" "length G2 = length (lp_body (map lp_norm es))"
    using Cons.prems(2) by (simp_all add: G1_def G2_def)
  have st: "lpInsert_store (P @ G1 @ G2 @ R) (case e of LP_STR s \<Rightarrow> Some s | LP_INT v \<Rightarrow> None) et
      (length (lp_enc ?e)) (lpEncodeBacklen (length (lp_enc ?e))) (length P) = P @ lp_entry ?e @ G2 @ R"
    by (rule lpInsert_store_entry[OF et(2) G(2)])
  have step: "lpBatchInsert_write (P @ G @ R) (length P) newp (zip (e # es) (map lpBatchEncode (e # es))) =
      lpBatchInsert_write (P @ lp_entry ?e @ G2 @ R) (length P + length (lp_entry ?e)) (Some (length P))
        (zip es (map lpBatchEncode es))"
    using st et(1)
    by (cases e; cases et)
      (simp_all add: G(1) lpInsert_store_def Let_def length_lp_entry add.assoc)
  show ?case
    unfolding step
    using Cons.IH[of G2 "P @ lp_entry ?e" "Some (length P)"] Cons.prems(1) G(3)
    by simp
qed simp


lemma lp_ok_norm:
  "lp_arg_ok e \<Longrightarrow> length (lp_entry (lp_norm e)) < 2 ^ 32 \<Longrightarrow> lp_ok (lp_norm e)"
  by (cases e) (auto simp: lp_norm_def lp_arg_ok_def lp_ok_of_string)

lemma length_lp_body_mem: "e \<in> set es \<Longrightarrow> length (lp_entry e) \<le> length (lp_body es)"
  by (induction es) auto

lemma lpBatchInsert_image:
  assumes fits: "lp_fits (xs @ ys)" and n: "lp_numele_ok n (xs @ ys)"
    and arg: "\<forall>e \<in> set es. lp_arg_ok e" "es \<noteq> []"
  defines "new \<equiv> map lp_norm es"
  shows "\<exists>n' sl'. lp_numele_ok n' (xs @ new @ ys) \<and>
    (lp_off (xs @ new @ ys) + 1 < 2 ^ 32 \<longrightarrow> lp_fits (xs @ new @ ys)) \<and>
    lpBatchInsert (lp_image n (xs @ ys) sl) (lp_off xs) LP_BEFORE es =
    Some (if lp_off (xs @ new @ ys) + 1 < 2 ^ 32
          then Some (lp_image n' (xs @ new @ ys) sl', Some (lp_off (xs @ butlast new))) else None)"
proof -
  let ?lp = "lp_image n (xs @ ys) sl" and ?old = "lp_off (xs @ ys) + 1" and ?k = "length (lp_body new)"
  define nb where "nb = lp_off xs + ?k + length (lp_body ys) + 1"
  define n' where "n' = (if n = 65535 \<or> length es + n > 65535 then 65535 else n + length es)"
  have add: "sum_list (map (\<lambda>(enctype, enclen, backlen). enclen + length backlen) (map lpBatchEncode es)) = ?k"
    using arg(1) unfolding new_def
  proof (induction es)
    case (Cons e es)
    then show ?case using lpBatchEncode_norm[of e] by (auto simp: length_lp_entry)
  qed simp
  obtain G S' where G: "length G = ?k" and
    room: "lpInsert_room ?lp LP_BEFORE (lp_off xs) ?k 0 0 ?old nb =
      (lp_hdr ?old n @ lp_body xs) @ G @ lp_body ys @ LP_EOF # S'"
    using lpInsert_room_image[of LP_BEFORE "[]" ?k ?k 0 0 ?old xs ys nb n sl] by (auto simp: nb_def)
  have "\<not> nb < ?old" by (simp add: nb_def)
  then have room': "memmove (lp_off xs + ?k) (lp_off xs) (?old - lp_off xs)
      (if nb > ?old \<and> nb > length ?lp then realloc nb ?lp else ?lp) =
      (lp_hdr ?old n @ lp_body xs) @ G @ lp_body ys @ LP_EOF # S'"
    using room by (simp add: lpInsert_room_def Let_def)
  have wr: "lpBatchInsert_write ((lp_hdr ?old n @ lp_body xs) @ G @ lp_body ys @ LP_EOF # S') (lp_off xs) None
      (zip es (map lpBatchEncode es)) =
      (lp_hdr ?old n @ lp_body xs @ lp_body new @ lp_body ys @ LP_EOF # S', Some (lp_off (xs @ butlast new)))"
    using lpBatchInsert_write_image[OF arg(1), of G "lp_hdr ?old n @ lp_body xs" "lp_body ys @ LP_EOF # S'" None]
      G arg(2) by (simp add: new_def lp_off_def map_butlast)
  have n16: "n < 2 ^ 16" using n by (auto simp: lp_numele_ok_def)
  have "lpBatchInsert ?lp (lp_off xs) LP_BEFORE es =
    Some (if nb > UINT32_MAX then None
          else Some (lp_image n' (xs @ new @ ys) S', Some (lp_off (xs @ butlast new))))"
  proof -
    have nb: "?old + ?k = nb" by (simp add: nb_def)
    have im: "lp_hdr nb m @ lp_body xs @ lp_body new @ lp_body ys @ LP_EOF # S' = lp_image m (xs @ new @ ys) S'" for m
      by (simp add: lp_image_def nb_def add.assoc)
    have c: "int (length es) > 65535 - int n \<longleftrightarrow> length es + n > 65535" by auto
    have "lpBatchInsert ?lp (lp_off xs) LP_BEFORE es =
      Some (if nb > UINT32_MAX then None
            else Some (lp_hdr nb n' @ lp_body xs @ lp_body new @ lp_body ys @ LP_EOF # S', Some (lp_off (xs @ butlast new))))"
    proof -
      have tot: "lpGetTotalBytes ?lp = ?old" and ne: "(0 < length es) = True" using fits arg(2) by simp_all
      show ?thesis
        by (simp only: lpBatchInsert_def Let_def add tot nb room' wr Option.bind.simps c_assert_simps simp_thms
            lp_where.simps if_True if_False ne prod.case)
          (use n16 c in \<open>auto simp: n'_def\<close>)
    qed
    then show ?thesis unfolding im .
  qed
  moreover have "lp_numele_ok n' (xs @ new @ ys)"
    using n by (auto simp: n'_def lp_numele_ok_def new_def)
  moreover have "lp_fits (xs @ new @ ys)" if "lp_off (xs @ new @ ys) + 1 < 2 ^ 32"
  proof -
    have "lp_ok (lp_norm e)" if "e \<in> set es" for e
    proof (rule lp_ok_norm)
      have "length (lp_entry (lp_norm e)) \<le> ?k" unfolding new_def by (rule length_lp_body_mem) (use that in simp)
      then show "length (lp_entry (lp_norm e)) < 2 ^ 32" using \<open>lp_off (xs @ new @ ys) + 1 < 2 ^ 32\<close> by simp
    qed (use arg(1) that in blast)
    then show ?thesis using that fits by (auto simp: lp_fits_def new_def)
  qed
  moreover have "nb > UINT32_MAX \<longleftrightarrow> \<not> lp_off (xs @ new @ ys) + 1 < 2 ^ 32"
    by (auto simp: nb_def UINT32_MAX_def)
  ultimately show ?thesis by (intro exI[of _ n'] exI[of _ S']) simp
qed

end
