(* ===== verification/Listpack_Range.thy ===== *)
theory Listpack_Range
  imports Listpack_Update
begin

text \<open>
  The operations of \<^verbatim>\<open>listpack.c\<close> on several entries at once: deletion of a range or of a set
  of entries, merging, creation, and the validation of untrusted buffers.
\<close>

section \<open>Ranges\<close>

lemma lpDeleteRange_tail_image:
  assumes "lp_fits (xs @ ys)" "ys \<noteq> [] \<or> num = 0"
  shows "lpDeleteRange_tail (lp_image n (xs @ ys) sl) (lp_off (xs @ ys) + 1) num (lp_off xs) d =
    Some (lp_off (xs @ take num ys), d + min num (length ys))"
  using assms
proof (induction num arbitrary: xs ys d)
  case (Suc num)
  then obtain y zs where ys: "ys = y # zs" by (cases ys) auto
  have sk: "lpSkip (lp_image n (xs @ ys) sl) (lp_off xs) = lp_off (xs @ [y])"
    using Suc.prems(1) ys lpSkip_image[of xs y zs] by simp
  show ?case
  proof (cases zs)
    case Nil
    then show ?thesis using sk ys lp_image_eof[of n "xs @ [y]" sl] by (simp add: Let_def)
  next
    case (Cons z zs')
    have "lp_image n (xs @ ys) sl ! lp_off (xs @ [y]) \<noteq> LP_EOF"
      using lp_image_entry(5)[of "xs @ [y]" z zs' n sl] Suc.prems(1) ys Cons by simp
    moreover have "lpAssertValidEntry (lp_image n (xs @ ys) sl) (lp_off (xs @ ys) + 1) (lp_off (xs @ [y])) = Some ()"
      using lpAssertValidEntry_image[of "xs @ [y]" zs n sl] Suc.prems(1) ys by (simp add: ac_simps)
    moreover have "lpDeleteRange_tail (lp_image n (xs @ ys) sl) (lp_off (xs @ ys) + 1) num (lp_off (xs @ [y])) (d + 1) =
        Some (lp_off ((xs @ [y]) @ take num zs), d + 1 + min num (length zs))"
      using Suc.IH[of "xs @ [y]" zs "d + 1"] Suc.prems(1) ys Cons by simp
    ultimately show ?thesis using sk ys by (simp add: Let_def)
  qed
qed simp

text \<open>Closing a gap by moving the tail down, and shrinking the allocation.\<close>

lemma memmove_down:
  fixes P D T sl :: "byte list"
  shows "memmove (length P) (length P + length D) (length T) (P @ D @ T @ sl) =
    P @ T @ drop (length T) (D @ T @ sl)"
  by (simp add: memmove_def read_at_def write_at_inside)

lemma lpShrinkToFit_image:
  assumes "lp_fits es"
  shows "lpShrinkToFit (lp_image n es sl) = lp_image n es []"
proof -
  have "length (lp_image n es sl) = lp_off es + 1 + length sl" by (simp add: lp_image_def lp_off_def)
  moreover have "take (lp_off es + 1) (lp_image n es sl) = lp_image n es []"
    by (simp add: lp_image_def lp_off_def)
  ultimately show ?thesis
    using assms by (auto simp: lpShrinkToFit_def realloc_def)
qed

lemma uint32_sub:
  assumes "d \<le> n" "n < 2 ^ 16"
  shows "(n + 2 ^ 32 - d) mod 2 ^ 32 = (n - d :: nat)"
proof -
  have "n + 2 ^ 32 - d = n - d + 2 ^ 32" using assms(1) by auto
  moreover have "n - d < 2 ^ 32" using assms(2) by auto
  ultimately show ?thesis by (simp only: mod_add_self2 mod_less)
qed

lemma lp_fits_sub: "lp_fits es \<Longrightarrow> set es' \<subseteq> set es \<Longrightarrow> length (lp_body es') \<le> length (lp_body es) \<Longrightarrow> lp_fits es'"
  by (auto simp: lp_fits_def lp_off_def)

lemma length_lp_body_take_drop:
  "length (lp_body (take k es)) + length (lp_body (drop k es)) = length (lp_body es)"
  by (metis append_take_drop_id length_append lp_body_simps(3))

text \<open>Deleting the first \<open>num\<close> entries of \<open>ys\<close>.\<close>

lemma lpDeleteRangeWithEntry_image:
  assumes fits: "lp_fits (xs @ ys)" and n: "lp_numele_ok n (xs @ ys)" and ys: "ys \<noteq> []" "num \<noteq> 0"
  shows "\<exists>n'. lp_numele_ok n' (xs @ drop num ys) \<and>
    lpDeleteRangeWithEntry (lp_image n (xs @ ys) sl) (lp_off xs) num =
    Some (lp_image n' (xs @ drop num ys) [], if drop num ys = [] then None else Some (lp_off xs))"
proof -
  let ?lp = "lp_image n (xs @ ys) sl" and ?b = "lp_off (xs @ ys) + 1" and ?D = "lp_body (take num ys)"
  let ?es = "xs @ drop num ys" and ?d = "min num (length ys)"
  define n' where "n' = (if n = 65535 then n else n - ?d)"
  have tl: "lpDeleteRange_tail ?lp ?b num (lp_off xs) 0 = Some (lp_off xs + length ?D, ?d)"
    using lpDeleteRange_tail_image[OF fits, of num n sl 0] ys by simp
  have split: "lp_body ys = ?D @ lp_body (drop num ys)"
    by (metis append_take_drop_id lp_body_simps(3))
  let ?P = "lp_hdr ?b n @ lp_body xs" and ?T = "lp_body (drop num ys) @ [LP_EOF]"
  have lp: "?lp = ?P @ ?D @ ?T @ sl" by (simp add: lp_image_def split)
  have lenP: "length ?P = lp_off xs" by (simp add: lp_off_def)
  have lenT: "?b - 1 - (lp_off xs + length ?D) + 1 = length ?T"
    by (simp add: split)
  obtain S where mv: "memmove (lp_off xs) (lp_off xs + length ?D) (length ?T) ?lp = ?P @ ?T @ S"
    using memmove_down[of ?P ?D ?T sl] that unfolding lp[symmetric] lenP by blast
  have tb: "?b - (lp_off xs + length ?D - lp_off xs) = lp_off ?es + 1" by (simp add: split)
  have fits': "lp_fits ?es"
    by (rule lp_fits_sub[OF fits]) (use set_drop_subset in \<open>fastforce simp: split\<close>)+
  have n16: "n < 2 ^ 16" and d: "n \<noteq> 65535 \<Longrightarrow> ?d \<le> n" using n by (auto simp: lp_numele_ok_def)
  have nn: "(n + 2 ^ 32 - ?d) mod 2 ^ 32 = n - ?d" if "n \<noteq> 65535"
    using d[OF that] n16 by (rule uint32_sub)
  have sh: "lpShrinkToFit (if n \<noteq> 65535 then lpSetNumElements (lp_hdr (lp_off ?es + 1) n @ lp_body xs @ ?T @ S)
      ((n + 2 ^ 32 - ?d) mod 2 ^ 32) else lp_hdr (lp_off ?es + 1) n @ lp_body xs @ ?T @ S) = lp_image n' ?es []"
    using lpShrinkToFit_image[OF fits', of n' S] nn by (auto simp: n'_def lp_image_def)
  have eof: "lp_image n' ?es [] ! lp_off xs = LP_EOF \<longleftrightarrow> drop num ys = []"
    using lp_image_entry(5)[of xs "hd (drop num ys)" "tl (drop num ys)" n' "[]"] fits'
      lp_image_eof[of n' xs "[]"]
    by (cases "drop num ys") auto
  have "lpDeleteRangeWithEntry ?lp (lp_off xs) num =
      Some (lp_image n' ?es [], if drop num ys = [] then None else Some (lp_off xs))"
  proof -
    have tot: "lpBytes ?lp = ?b" using fits by simp
    have nz: "(num = 0) = False" using ys by simp
    have num: "lpGetNumElements (lp_hdr t n @ R) = n" for t R using n16 by simp
    show ?thesis
      by (simp only: lpDeleteRangeWithEntry_def Let_def tot nz if_False tl Option.bind.simps prod.case lenT mv tb
          append_assoc lpSetTotalBytes_hdr num LP_HDR_NUMELE_UNKNOWN_def sh[unfolded append_assoc] eof)
  qed
  moreover have "lp_numele_ok n' ?es" using n d by (auto simp: n'_def lp_numele_ok_def)
  ultimately show ?thesis by blast
qed


lemma lp_image_truncate:
  assumes "ys \<noteq> []" "lp_fits (xs @ ys)"
  shows "\<exists>S. lpSetNumElements (lpSetTotalBytes ((lp_image n (xs @ ys) sl)[lp_off xs := LP_EOF]) (lp_off xs + 1)) k =
    lp_image k xs S"
proof -
  obtain y zs where ys: "ys = y # zs" using assms(1) by (cases ys) auto
  have "0 < length (lp_entry y)" by (rule lp_entry_pos)
  then obtain c cs where "lp_entry y = c # cs" by (cases "lp_entry y") auto
  then have im: "lp_image n (xs @ ys) sl =
      (lp_hdr (lp_off (xs @ ys) + 1) n @ lp_body xs) @ c # cs @ lp_body zs @ LP_EOF # sl"
    by (simp add: lp_image_def ys)
  have off: "lp_off xs = length (lp_hdr (lp_off (xs @ ys) + 1) n @ lp_body xs)" by (simp add: lp_off_def)
  have "(lp_image n (xs @ ys) sl)[lp_off xs := LP_EOF] =
      lp_hdr (lp_off (xs @ ys) + 1) n @ lp_body xs @ LP_EOF # cs @ lp_body zs @ LP_EOF # sl"
    unfolding im off list_update_length by simp
  then show ?thesis by (auto simp: lp_image_def)
qed

lemma lp_index_Some:
  "lp_index es index = Some i \<Longrightarrow> i < length es \<and> (if index < 0 then int (length es) + index else index) = int i"
  by (auto simp: lp_index_def Let_def split: if_splits)

lemma lpDeleteRange_image:
  assumes fits: "lp_fits es" and n: "lp_numele_ok n es"
  shows "\<exists>n' sl'. let es' = (case lp_index es index of None \<Rightarrow> es | Some i \<Rightarrow> take i es @ drop (i + num) es) in
    lp_numele_ok n' es' \<and> lp_fits es' \<and> lpDeleteRange (lp_image n es sl) index num = Some (lp_image n' es' sl')"
proof (cases "num = 0 \<or> lp_index es index = None")
  case True
  then have "lpDeleteRange (lp_image n es sl) index num = Some (lp_image n es sl)"
    using lpSeek_image[OF fits n, of sl index] by (auto simp: lpDeleteRange_def Let_def)
  then show ?thesis using True fits n
    by (intro exI[of _ n] exI[of _ sl]) (auto split: option.splits)
next
  case False
  then obtain i where i: "lp_index es index = Some i" "num \<noteq> 0" by auto
  note i' = lp_index_Some[OF i(1)]
  let ?xs = "take i es" and ?ys = "drop i es"
  have fits': "lp_fits (?xs @ ?ys)" and n': "lp_numele_ok n (?xs @ ?ys)" and ne: "?ys \<noteq> []"
    using fits n i' by simp_all
  have sk: "lpSeek (lp_image n es sl) index = Some (Some (lp_off ?xs))"
    using lpSeek_image[OF fits n, of sl index] i by simp
  have fe: "lp_fits (?xs @ drop num ?ys)"
    by (rule lp_fits_sub[OF fits'])
      (use length_lp_body_take_drop[of num ?ys] length_lp_body_take_drop[of i es] in
        \<open>auto dest: in_set_takeD in_set_dropD simp: add.commute\<close>)
  show ?thesis
  proof (cases "n \<noteq> 65535 \<and> length es - i \<le> num")
    case True
    then have nl: "n = length es" "n < 65535" using n by (auto simp: lp_numele_ok_def)
    have "(int n - int i) mod 2 ^ 64 = int (length es - i)"
      using i' nl by (simp add: of_nat_diff)
    then have c: "(int n - int i) mod 2 ^ 64 \<le> int num" using True by simp
    obtain S where S: "lpSetNumElements (lpSetTotalBytes ((lp_image n es sl)[lp_off ?xs := LP_EOF]) (lp_off ?xs + 1)) i =
        lp_image i ?xs S"
      using lp_image_truncate[OF ne fits', of n sl i] by auto
    have "lp_fits ?xs" using lp_fits_app[OF fits'] by blast
    then have "lpDeleteRange (lp_image n es sl) index num = Some (lp_image i ?xs [])"
      using i(2) sk c nl n i' S lpShrinkToFit_image[of ?xs i S]
      by (auto simp: lpDeleteRange_def Let_def split: if_splits)
    moreover have "drop (i + num) es = []" using True by auto
    ultimately show ?thesis
      using i i' nl \<open>lp_fits ?xs\<close> by (intro exI[of _ i] exI[of _ "[]"]) (simp add: lp_numele_ok_def)
  next
    case False
    have c: "\<not> (n \<noteq> 65535 \<and> (int n - int i) mod 2 ^ 64 \<le> int num)"
    proof
      assume a: "n \<noteq> 65535 \<and> (int n - int i) mod 2 ^ 64 \<le> int num"
      then have nl: "n = length es" "n < 65535" using n by (auto simp: lp_numele_ok_def)
      have "(int n - int i) mod 2 ^ 64 = int (length es - i)"
        using i' nl by (simp add: of_nat_diff)
      then show False using a False by simp
    qed
    obtain n'' where w: "lp_numele_ok n'' (?xs @ drop num ?ys)"
      "lpDeleteRangeWithEntry (lp_image n (?xs @ ?ys) sl) (lp_off ?xs) num =
        Some (lp_image n'' (?xs @ drop num ?ys) [], if drop num ?ys = [] then None else Some (lp_off ?xs))"
      using lpDeleteRangeWithEntry_image[OF fits' n' ne i(2)] by blast
    have ix: "(if n \<noteq> 65535 \<and> index < 0 then int n + index else index) = int i" if "n \<noteq> 65535"
      using that n i' by (auto simp: lp_numele_ok_def)
    have "lpDeleteRange (lp_image n es sl) index num = Some (lp_image n'' (?xs @ drop num ?ys) [])"
      using i(2) sk c n w(2) ix by (cases "n = 65535") (simp_all add: lpDeleteRange_def Let_def)
    then show ?thesis
      using i w(1) fe by (intro exI[of _ n''] exI[of _ "[]"]) (simp add: add.commute)
  qed
qed


section \<open>Deleting a set of entries\<close>

text \<open>
  The entries from the first deleted one on, as segments of a deleted entry and the entries kept
  after it; the pointers to the deleted entries.
\<close>

type_synonym lp_segs = "(lp_value \<times> lp_value list) list"

definition seg_entries :: "lp_segs \<Rightarrow> lp_value list" where
  "seg_entries segs = concat (map (\<lambda>(d, ks). d # ks) segs)"

definition seg_kept :: "lp_segs \<Rightarrow> lp_value list" where
  "seg_kept segs = concat (map snd segs)"

primrec seg_ps :: "nat \<Rightarrow> lp_segs \<Rightarrow> nat list" where
  "seg_ps off [] = []"
| "seg_ps off (seg # segs) = off # seg_ps (off + length (lp_body (fst seg # snd seg))) segs"

lemma seg_simps [simp]:
  "seg_entries [] = []" "seg_entries (seg # segs) = fst seg # snd seg @ seg_entries segs"
  "seg_kept [] = []" "seg_kept (seg # segs) = snd seg @ seg_kept segs"
  by (simp_all add: seg_entries_def seg_kept_def split_beta)

lemma seg_ps_nonempty:
  "segs \<noteq> [] \<Longrightarrow> seg_ps off segs \<noteq> []"
  "segs \<noteq> [] \<Longrightarrow> (case seg_ps off segs of next # _ \<Rightarrow> next | [] \<Rightarrow> a) = off"
  by (cases segs; simp)+

lemma length_seg_ps [simp]: "length (seg_ps off segs) = length segs"
  by (induction segs arbitrary: off) simp_all

lemma length_seg_entries: "length (seg_entries segs) = length segs + length (seg_kept segs)"
  by (induction segs) simp_all

lemma lpSkip_suffix:
  assumes "lp_ok e" "drop p m = lp_entry e @ R"
  shows "lpSkip m p = p + length (lp_entry e)" "m ! p \<noteq> LP_EOF"
proof -
  have d: "drop p m = lp_enc e @ lpEncodeBacklen (length (lp_enc e)) @ R" using assms(2) by (simp add: lp_entry_def)
  have "drop p m \<noteq> []" using assms lp_enc_length(1)[OF assms(1)] by (simp add: d)
  then have "m ! p = drop p m ! 0" by simp
  then show "m ! p \<noteq> LP_EOF" using lp_enc_decode(5)[OF assms(1)] by (simp add: d)
  show "lpSkip m p = p + length (lp_entry e)"
    using lp_enc_decode(2)[OF assms(1)] by (simp add: lpSkip_def d length_lp_entry Let_def)
qed

lemma memmove_over:
  fixes K J R :: "byte list"
  shows "\<exists>J'. length J' = length J \<and> memmove (length K) (length K + length J) (length X) (K @ J @ X @ R) = K @ X @ J' @ R"
proof -
  have "memmove (length K) (length K + length J) (length X) (K @ J @ X @ R) = K @ X @ drop (length X) (J @ X @ R)"
    by (simp add: memmove_def read_at_def write_at_inside)
  also have "drop (length X) (J @ X @ R) = drop (length X) (J @ X) @ R" by simp
  finally show ?thesis by (intro exI[of _ "drop (length X) (J @ X)"]) simp
qed

lemma lpBatchDelete_loop_segs:
  assumes "\<forall>e \<in> set (seg_entries segs). lp_ok e" "segs \<noteq> []"
    and "lp_end = length K + length J + length (lp_body (seg_entries segs)) + 1"
  shows "\<exists>S. lpBatchDelete_loop lp_end (K @ J @ lp_body (seg_entries segs) @ LP_EOF # sl) (length K)
      (seg_ps (length K + length J) segs) =
    Some (K @ lp_body (seg_kept segs) @ LP_EOF # S, length K + length (lp_body (seg_kept segs)) + 1)"
  using assms
proof (induction segs arbitrary: K J)
  case (Cons seg segs)
  obtain d ks where seg: "seg = (d, ks)" by fastforce
  let ?m = "K @ J @ lp_body (seg_entries (seg # segs)) @ LP_EOF # sl" and ?p = "length K + length J"
  have ok: "lp_ok d" using Cons.prems(1) seg by simp
  have "drop ?p ?m = lp_entry d @ lp_body ks @ lp_body (seg_entries segs) @ LP_EOF # sl" by (simp add: seg)
  note sk = lpSkip_suffix[OF ok this]
  show ?case
  proof (cases segs)
    case Nil
    let ?X = "lp_body ks @ [LP_EOF]"
    obtain J' where J': "memmove (length K) (length K + length (J @ lp_entry d)) (length ?X)
        (K @ (J @ lp_entry d) @ ?X @ sl) = K @ ?X @ J' @ sl"
      using memmove_over by blast
    have "lp_end - (?p + length (lp_entry d)) = length ?X" using Cons.prems(3) by (simp add: seg Nil)
    then show ?thesis
      using sk J' Cons.prems(3) by (intro exI[of _ "J' @ sl"]) (simp add: seg Nil add.assoc)
  next
    case (Cons seg' segs')
    let ?off = "?p + length (lp_entry d) + length (lp_body ks)"
    have "segs \<noteq> []" by (simp add: Cons)
    note ps = seg_ps_nonempty[OF this]
    have ok': "\<forall>e \<in> set (seg_entries segs). lp_ok e" using Cons.prems(1) by simp
    show ?thesis
    proof (cases "ks = []")
      case True
      have "\<exists>S. lpBatchDelete_loop lp_end (K @ (J @ lp_entry d) @ lp_body (seg_entries segs) @ LP_EOF # sl) (length K)
          (seg_ps (length K + length (J @ lp_entry d)) segs) =
        Some (K @ lp_body (seg_kept segs) @ LP_EOF # S, length K + length (lp_body (seg_kept segs)) + 1)"
        by (rule Cons.IH[OF ok']) (use Cons.prems(3) True seg Cons in simp_all)
      then show ?thesis
        using sk True ps by (simp add: seg add.assoc Let_def)
    next
      case False
      obtain J' where J': "length J' = length (J @ lp_entry d)" "memmove (length K) (length K + length (J @ lp_entry d))
          (length (lp_body ks)) (K @ (J @ lp_entry d) @ lp_body ks @ lp_body (seg_entries segs) @ LP_EOF # sl) =
          K @ lp_body ks @ J' @ lp_body (seg_entries segs) @ LP_EOF # sl"
        using memmove_over[of "J @ lp_entry d" K "lp_body ks"] by blast
      have "\<exists>S. lpBatchDelete_loop lp_end ((K @ lp_body ks) @ J' @ lp_body (seg_entries segs) @ LP_EOF # sl)
          (length (K @ lp_body ks)) (seg_ps (length (K @ lp_body ks) + length J') segs) =
        Some ((K @ lp_body ks) @ lp_body (seg_kept segs) @ LP_EOF # S,
          length (K @ lp_body ks) + length (lp_body (seg_kept segs)) + 1)"
        by (rule Cons.IH[OF ok']) (use Cons.prems(3) J'(1) seg Cons in simp_all)
      moreover have "0 < length (lp_body ks)" using False lp_entry_pos by (cases ks) auto
      ultimately show ?thesis
        using sk ps J' by (simp add: seg ac_simps Let_def)
    qed
  qed
qed simp


lemma lpBatchDelete_segs:
  assumes fits: "lp_fits (xs @ seg_entries segs)" and n: "lp_numele_ok n (xs @ seg_entries segs)"
    and ne: "segs \<noteq> []"
  shows "\<exists>n'. lp_numele_ok n' (xs @ seg_kept segs) \<and>
    lpBatchDelete (lp_image n (xs @ seg_entries segs) sl) (seg_ps (lp_off xs) segs) =
    Some (lp_image n' (xs @ seg_kept segs) [])"
proof -
  let ?es = "xs @ seg_entries segs" and ?ks = "xs @ seg_kept segs" and ?c = "length (seg_ps (lp_off xs) segs)"
  let ?lp = "lp_image n ?es sl" and ?K = "lp_hdr (lp_off ?es + 1) n @ lp_body xs"
  define n' where "n' = (if n = 65535 then n else n - ?c)"
  have lenK: "length ?K = lp_off xs" by (simp add: lp_off_def)
  have ok: "\<forall>e \<in> set (seg_entries segs). lp_ok e" using fits by (simp add: lp_fits_def)
  have "lp_off ?es + 1 = length ?K + length ([] :: byte list) + length (lp_body (seg_entries segs)) + 1"
    by (simp add: lp_off_def)
  from lpBatchDelete_loop_segs[OF ok ne this, of sl]
  obtain S where S: "lpBatchDelete_loop (lp_off ?es + 1) ?lp (lp_off xs) (seg_ps (lp_off xs) segs) =
      Some (?K @ lp_body (seg_kept segs) @ LP_EOF # S, lp_off ?ks + 1)"
    unfolding lenK by (auto simp: lp_image_def)
  have len: "length (lp_body (seg_kept segs)) \<le> length (lp_body (seg_entries segs))" by (induction segs) auto
  have "set (seg_kept segs) \<subseteq> set (seg_entries segs)" by (induction segs) auto
  then have fits': "lp_fits ?ks" using len by (intro lp_fits_sub[OF fits]) auto
  have n16: "n < 2 ^ 16" and d: "n \<noteq> 65535 \<Longrightarrow> ?c \<le> n"
    using n length_seg_entries[of segs] by (auto simp: lp_numele_ok_def)
  have hd: "ps ! 0 = lp_off xs" if "ps = seg_ps (lp_off xs) segs" for ps
    using that ne by (cases segs) auto
  have dl: "lp_off ?es + 1 - (lp_off ?es + 1 - (lp_off ?ks + 1)) = lp_off ?ks + 1" using len by simp
  have eof: "?lp ! (lp_off ?es + 1 - 1) = LP_EOF"
    "(?K @ lp_body (seg_kept segs) @ LP_EOF # S) ! (lp_off ?ks + 1 - 1) = LP_EOF"
  proof -
    show "?lp ! (lp_off ?es + 1 - 1) = LP_EOF" using lp_image_eof[of n ?es sl] by simp
    show "(?K @ lp_body (seg_kept segs) @ LP_EOF # S) ! (lp_off ?ks + 1 - 1) = LP_EOF"
      using nth_append_length[of "?K @ lp_body (seg_kept segs)" LP_EOF S] by (simp add: lp_off_def)
  qed
  have num: "lpGetNumElements (lp_hdr t n @ R) = n" for t R using n16 by simp
  have sh: "lpShrinkToFit (if n \<noteq> 65535 then lpSetNumElements (lp_hdr (lp_off ?ks + 1) n @ lp_body xs @ lp_body (seg_kept segs) @ LP_EOF # S)
      ((n + 2 ^ 32 - ?c) mod 2 ^ 32) else lp_hdr (lp_off ?ks + 1) n @ lp_body xs @ lp_body (seg_kept segs) @ LP_EOF # S) = lp_image n' ?ks []"
    using lpShrinkToFit_image[OF fits', of n' S] uint32_sub[OF d n16] by (auto simp: n'_def lp_image_def)
  have tot: "lpGetTotalBytes ?lp = lp_off ?es + 1" and c0: "(?c = 0) = False" using fits ne by simp_all
  have "lpBatchDelete ?lp (seg_ps (lp_off xs) segs) = Some (lp_image n' ?ks [])"
    by (simp only: lpBatchDelete_def Let_def c0 if_False tot hd[OF refl] eof eof(2)[unfolded append_assoc] c_assert_simps simp_thms Option.bind.simps
        S prod.case dl append_assoc lpSetTotalBytes_hdr num LP_HDR_NUMELE_UNKNOWN_def sh)
  moreover have "lp_numele_ok n' ?ks"
    using n length_seg_entries[of segs] by (auto simp: n'_def lp_numele_ok_def)
  ultimately show ?thesis by blast
qed


text \<open>Any increasing list of indices splits the entries into such segments.\<close>

lemma lp_segs_exist:
  assumes "sorted_wrt (<) is" "\<forall>i \<in> set is. i < length es" "is \<noteq> []"
  shows "\<exists>xs segs. segs \<noteq> [] \<and> es = xs @ seg_entries segs \<and>
    map (\<lambda>i. off + length (lp_body (take i es))) is = seg_ps (off + length (lp_body xs)) segs \<and>
    nths es (- set is) = xs @ seg_kept segs"
  using assms
proof (induction "length is" arbitrary: "is" es off)
  case (Suc k)
  then obtain i "is'" where is_eq: "is = i # is'" by (cases "is") auto
  note prems = Suc.prems[unfolded is_eq]
  define ys d zs where "ys = take i es" and "d = es ! i" and "zs = drop (Suc i) es"
  have i: "i < length es" "length ys = i" using prems(2) by (simp_all add: ys_def)
  have es: "es = ys @ d # zs" unfolding ys_def d_def zs_def by (rule id_take_nth_drop[OF i(1)])
  define js where "js = map (\<lambda>j. j - Suc i) is'"
  have gt: "Suc i \<le> j" if "j \<in> set is'" for j using prems(1) that by auto
  have js: "is' = map (\<lambda>j. Suc i + j) js" using gt unfolding js_def map_map comp_def by (intro map_idI[symmetric]) (metis le_add_diff_inverse)
  have lt: "\<forall>j \<in> set js. j < length zs" using prems(2) gt by (force simp: js_def es i(2))
  have sorted: "sorted_wrt (<) js"
    using prems(1) unfolding js by (simp add: sorted_wrt_map)
  have kept: "nths es (- set (i # is')) = ys @ nths zs (- set js)"
  proof -
    have "nths ys (- set (i # is')) = ys" using gt by (intro nths_all) (fastforce simp: i(2))
    moreover have "{j. Suc j + length ys \<in> - set (i # is')} = - set js"
      unfolding js i(2) by (auto simp: image_iff)
    ultimately show ?thesis by (simp add: es nths_append nths_Cons i(2) del: list.set)
       (simp add: add.commute)
  qed
  have off: "map (\<lambda>j. off + length (lp_body (take j es))) is' =
      map (\<lambda>j. off + length (lp_body ys) + length (lp_entry d) + length (lp_body (take j zs))) js"
    unfolding js by (simp add: es i(2) add.assoc)
  show ?case
  proof (cases "is' = []")
    case True
    then show ?thesis
      using kept by (intro exI[of _ ys] exI[of _ "[(d, zs)]"]) (simp add: is_eq es js_def i(2) nths_all)
  next
    case False
    then have "js \<noteq> []" by (simp add: js_def)
    with Suc.hyps(1)[of js zs "off + length (lp_body ys) + length (lp_entry d)"] sorted lt Suc.hyps(2)
    obtain xs segs where ih: "segs \<noteq> []" "zs = xs @ seg_entries segs"
      "map (\<lambda>i. off + length (lp_body ys) + length (lp_entry d) + length (lp_body (take i zs))) js =
        seg_ps (off + length (lp_body ys) + length (lp_entry d) + length (lp_body xs)) segs"
      "nths zs (- set js) = xs @ seg_kept segs"
      by (auto simp: js_def is_eq)
    show ?thesis
      using kept off ih by (intro exI[of _ ys] exI[of _ "(d, xs) # segs"]) (simp add: is_eq es i(2) add.assoc)
  qed
qed simp


lemma lpBatchDelete_image:
  assumes "lp_fits es" "lp_numele_ok n es" "sorted_wrt (<) is" "\<forall>i \<in> set is. i < length es"
  shows "\<exists>n' sl'. lp_numele_ok n' (nths es (- set is)) \<and>
    lpBatchDelete (lp_image n es sl) (map (\<lambda>i. lp_off (take i es)) is) =
    Some (lp_image n' (nths es (- set is)) sl')"
proof (cases "is = []")
  case True
  then show ?thesis
    using assms(2) by (intro exI[of _ n] exI[of _ sl]) (simp add: lpBatchDelete_def nths_all)
next
  case False
  obtain xs segs where s: "segs \<noteq> []" "es = xs @ seg_entries segs"
    "map (\<lambda>i. 6 + length (lp_body (take i es))) is = seg_ps (6 + length (lp_body xs)) segs"
    "nths es (- set is) = xs @ seg_kept segs"
    using lp_segs_exist[OF assms(3,4) False] by blast
  then show ?thesis
    using lpBatchDelete_segs[of xs segs n sl] assms(1,2) by (auto simp: lp_off_def)
qed

section \<open>Merging\<close>

lemma lpMerge_image:
  assumes f1: "lp_fits es1" "lp_numele_ok n1 es1" and f2: "lp_fits es2" "lp_numele_ok n2 es2"
    and sum: "lp_off (es1 @ es2) + 1 < UINT32_MAX"
  shows "\<exists>n'. lp_numele_ok n' (es1 @ es2) \<and>
    lpMerge (Some (lp_image n1 es1 sl1)) (Some (lp_image n2 es2 sl2)) False =
    Some (if lp_off es1 \<ge> lp_off es2
          then (Some (lp_image n' (es1 @ es2) []), None, Some (lp_image n' (es1 @ es2) []))
          else (None, Some (lp_image n' (es1 @ es2) []), Some (lp_image n' (es1 @ es2) [])))"
proof -
  obtain m1 where m1: "lpLength (lp_image n1 es1 sl1) = Some (lp_image m1 es1 sl1, length es1)"
    using lpLength_image[OF f1] by blast
  obtain m2 where m2: "lpLength (lp_image n2 es2 sl2) = Some (lp_image m2 es2 sl2, length es2)"
    using lpLength_image[OF f2] by blast
  define n' where "n' = (if length es1 + length es2 < 65535 then length es1 + length es2 else 65535)"
  let ?b1 = "lp_off es1 + 1" and ?b2 = "lp_off es2 + 1" and ?b = "lp_off (es1 @ es2) + 1"
  have b: "?b1 + ?b2 - 6 - 1 = ?b" by (simp add: lp_off_def)
  have app: "write_at (?b1 - 1) (read_at 6 (?b2 - 6) (lp_image m2 es2 sl2)) (realloc ?b (lp_image m1 es1 sl1)) =
      lp_hdr ?b1 m1 @ lp_body es1 @ lp_body es2 @ [LP_EOF]"
  proof -
    have r: "read_at 6 (?b2 - 6) (lp_image m2 es2 sl2) = lp_body es2 @ [LP_EOF]"
      by (simp add: read_at_def lp_image_def lp_off_def)
    obtain X where X: "realloc ?b (lp_image m1 es1 sl1) = (lp_hdr ?b1 m1 @ lp_body es1) @ X"
      by (simp add: realloc_def lp_image_def lp_off_def)
    have "length X = length (lp_body es2 @ [LP_EOF])"
      using arg_cong[OF X, of length] by (simp add: lp_off_def)
    then show ?thesis
      unfolding r X using write_at_gap[of X "lp_body es2 @ [LP_EOF]" "lp_hdr ?b1 m1 @ lp_body es1" "[]"]
      by (simp add: lp_off_def)
  qed
  have pre: "write_at 0 (read_at 0 (?b1 - 1) (lp_image m1 es1 sl1))
      (memmove (?b1 - 1) 6 (?b2 - 6) (realloc ?b (lp_image m2 es2 sl2))) =
      lp_hdr ?b1 m1 @ lp_body es1 @ lp_body es2 @ [LP_EOF]"
  proof -
    obtain Y where Y: "realloc ?b (lp_image m2 es2 sl2) = lp_hdr ?b2 m2 @ (lp_body es2 @ [LP_EOF]) @ Y"
      by (simp add: realloc_def lp_image_def lp_off_def)
    have len: "length (realloc ?b (lp_image m2 es2 sl2)) = ?b" by simp
    have "read_at 6 (?b2 - 6) (realloc ?b (lp_image m2 es2 sl2)) = lp_body es2 @ [LP_EOF]"
      unfolding Y by (simp add: read_at_def lp_off_def)
    then have mv: "memmove (?b1 - 1) 6 (?b2 - 6) (realloc ?b (lp_image m2 es2 sl2)) =
        take (lp_off es1) (realloc ?b (lp_image m2 es2 sl2)) @ lp_body es2 @ [LP_EOF]"
      by (simp add: memmove_def write_at_inside)
    have r: "read_at 0 (?b1 - 1) (lp_image m1 es1 sl1) = lp_hdr ?b1 m1 @ lp_body es1"
      by (simp add: read_at_def lp_image_def lp_off_def)
    show ?thesis
      unfolding mv r
      using write_at_gap[of "take (lp_off es1) (realloc ?b (lp_image m2 es2 sl2))" "lp_hdr ?b1 m1 @ lp_body es1"
          "[]" "lp_body es2 @ [LP_EOF]"]
      by (simp add: lp_off_def)
  qed
  have img: "lpSetTotalBytes (lpSetNumElements (lp_hdr t m @ lp_body es1 @ lp_body es2 @ [LP_EOF]) n') ?b =
      lp_image n' (es1 @ es2) []" for t m
    by (simp add: lp_image_def)
  have "lpMerge (Some (lp_image n1 es1 sl1)) (Some (lp_image n2 es2 sl2)) False =
    Some (if ?b1 \<ge> ?b2
          then (Some (lp_image n' (es1 @ es2) []), None, Some (lp_image n' (es1 @ es2) []))
          else (None, Some (lp_image n' (es1 @ es2) []), Some (lp_image n' (es1 @ es2) [])))"
  proof -
    have tot: "lpBytes (lp_image n1 es1 sl1) = ?b1" "lpBytes (lp_image n2 es2 sl2) = ?b2"
      using f1 f2 by simp_all
    have sum': "(?b < UINT32_MAX) = True" using sum by simp
    note ev = lpMerge_def prod.case option.case if_False if_True Let_def tot m1 m2 Option.bind.simps LP_HDR_SIZE_def
      b sum' c_assert_simps n'_def[symmetric] simp_thms
    show ?thesis
    proof (cases "?b1 \<ge> ?b2")
      case True
      then have c: "(?b1 \<ge> ?b2) = True" by simp
      show ?thesis by (simp only: ev c app img)
    next
      case False
      then have c: "(?b1 \<ge> ?b2) = False" by simp
      show ?thesis by (simp only: ev c pre img)
    qed
  qed
  moreover have "lp_numele_ok n' (es1 @ es2)" by (auto simp: n'_def lp_numele_ok_def)
  ultimately show ?thesis by auto
qed


section \<open>Creation and validation\<close>

lemma lp_hdr_exists: "length H = 6 \<Longrightarrow> \<exists>t n. H = lp_hdr t n"
proof -
  assume H: "length H = 6"
  have "H = le_bytes 4 (le_val (take 4 H)) @ le_bytes 2 (le_val (drop 4 H))"
    using le_bytes_le_val[of "take 4 H"] le_bytes_le_val[of "drop 4 H"] H by simp
  then have "H = lp_hdr (nat (le_val (take 4 H))) (nat (le_val (drop 4 H)))" by (simp add: lp_hdr_def)
  then show ?thesis by blast
qed

lemma lpNew_image: "\<exists>sl. lpNew capacity = lp_image 0 [] sl"
proof -
  define k where "k = (if capacity > LP_HDR_SIZE + 1 then capacity else LP_HDR_SIZE + 1)"
  define m where "m = realloc k []"
  have "7 \<le> length m" by (simp add: m_def k_def)
  then have m: "m = take 6 m @ m ! 6 # drop 7 m" using id_take_nth_drop[of 6 m] by simp
  obtain t n where h: "take 6 m = lp_hdr t n" using lp_hdr_exists[of "take 6 m"] \<open>7 \<le> length m\<close> by auto
  have "lpNew capacity = (lpSetNumElements (lpSetTotalBytes m 7) 0)[6 := LP_EOF]"
    by (simp add: lpNew_def Let_def m_def k_def)
  also have "\<dots> = (lp_hdr 7 0 @ m ! 6 # drop 7 m)[6 := LP_EOF]" by (subst m) (simp add: h)
  also have "\<dots> = lp_image 0 [] (drop 7 m)" by (simp add: lp_image_def list_update_append)
  finally show ?thesis by blast
qed

text \<open>The callbacks of a deep validation accept all entries.\<close>

fun lp_cb_all :: "(nat \<Rightarrow> nat \<Rightarrow> 'u \<Rightarrow> bool \<times> 'u) option \<Rightarrow> nat \<Rightarrow> lp_value list \<Rightarrow> lp_value list \<Rightarrow> 'u \<Rightarrow> bool" where
  "lp_cb_all cb numele xs [] u = True"
| "lp_cb_all cb numele xs (y # ys) u =
     (case (case cb of Some f \<Rightarrow> f (lp_off xs) numele u | None \<Rightarrow> (True, u)) of (ok, u') \<Rightarrow>
        ok \<and> lp_cb_all cb numele (xs @ [y]) ys u')"

lemma lpValidate_loop_image:
  assumes "lp_fits (xs @ ys)" "c + length ys < 2 ^ 32"
  shows "lpValidate_loop cb (lp_image n (xs @ ys) sl) (lp_off (xs @ ys) + 1) m (Some (lp_off xs)) c u =
    (if lp_cb_all cb m xs ys u then Some (Some (lp_off (xs @ ys)), c + length ys) else None)"
  using assms
proof (induction ys arbitrary: xs c u)
  case Nil
  then show ?case using lp_image_eof[of n xs sl] by (subst lpValidate_loop.simps) simp
next
  case (Cons y ys)
  have v: "lpValidateNext (lp_image n (xs @ y # ys) sl) (Some (lp_off xs)) (lp_off (xs @ y # ys) + 1) =
      (True, Some (lp_off (xs @ [y])))"
    using lpValidateNext_image[OF Cons.prems(1), of n sl] by simp
  have c: "(c + 1) mod 2 ^ 32 = c + 1" using Cons.prems(2) by simp
  obtain ok u' where cb: "(case cb of Some f \<Rightarrow> f (lp_off xs) m u | None \<Rightarrow> (True, u)) = (ok, u')" by fastforce
  have "lpValidate_loop cb (lp_image n (xs @ y # ys) sl) (lp_off (xs @ y # ys) + 1) m (Some (lp_off xs)) c u =
      (if ok then lpValidate_loop cb (lp_image n (xs @ y # ys) sl) (lp_off (xs @ y # ys) + 1) m
         (Some (lp_off (xs @ [y]))) (c + 1) u' else None)"
    using v cb c lp_image_entry(5)[OF Cons.prems(1), of n sl] by (subst lpValidate_loop.simps) simp
  then show ?case
    using Cons.IH[of "xs @ [y]" "c + 1" u'] Cons.prems cb by simp
qed

lemma lpValidateIntegrity_image:
  assumes "lp_fits es" "lp_numele_ok n es"
  shows "lpValidateIntegrity (lp_image n es sl) (lp_off es + 1) True cb u \<longleftrightarrow> lp_cb_all cb n [] es u"
  using lpValidate_loop_image[of "[]" es 0 cb n sl n u] assms lp_fits_length[OF assms(1)] lp_image_eof[of n es sl]
  by (auto simp: lpValidateIntegrity_def Let_def lp_numele_ok_def lp_off_def)

text \<open>A buffer that passes the deep validation can be traversed: no assertion of \<open>lpNext\<close> fails.\<close>

lemma lpNext_validated:
  assumes "lpValidateNext lp (Some p) (lpBytes lp) = (True, Some q)"
    and "lp ! p \<noteq> LP_EOF" "lp ! q = LP_EOF \<or> fst (lpValidateNext lp (Some q) (lpBytes lp))"
  shows "lpNext lp p = Some (if lp ! q = LP_EOF then None else Some q)"
  using assms
  by (auto simp: lpValidateNext_def lpNext_def lpSkip_def lpAssertValidEntry_def Let_def split: if_splits)

lemma lpValidate_loop_next:
  assumes "lpValidate_loop cb lp b m (Some p) c u = Some (Some e, c')" "lp ! p \<noteq> LP_EOF"
  shows "\<exists>q u'. lpValidateNext lp (Some p) b = (True, Some q) \<and>
    lpValidate_loop cb lp b m (Some q) ((c + 1) mod 2 ^ 32) u' = Some (Some e, c')"
proof -
  obtain ok pp where v: "lpValidateNext lp (Some p) b = (ok, pp)" by fastforce
  obtain ok' u' where cb: "(case cb of Some f \<Rightarrow> f p m u | None \<Rightarrow> (True, u)) = (ok', u')" by fastforce
  have "\<exists>q. pp = Some q"
    using v assms(2) by (auto simp: lpValidateNext_def Let_def split: if_splits)
  then show ?thesis
    using assms v cb by (subst (asm) lpValidate_loop.simps) (auto split: if_splits)
qed

lemma lpValidate_loop_traverse:
  assumes "lpValidate_loop cb lp (lpBytes lp) m (Some p) c u = Some (Some e, c')"
  shows "lpLength_loop lp (if lp ! p = LP_EOF then None else Some p) c = Some c'"
  using assms
proof (induction "lpBytes lp - p" arbitrary: p c u rule: less_induct)
  case less
  show ?case
  proof (cases "lp ! p = LP_EOF")
    case True
    then show ?thesis using less.prems by (subst (asm) lpValidate_loop.simps) (simp add: lpLength_loop.simps)
  next
    case False
    obtain q u' where q: "lpValidateNext lp (Some p) (lpBytes lp) = (True, Some q)"
      "lpValidate_loop cb lp (lpBytes lp) m (Some q) ((c + 1) mod 2 ^ 32) u' = Some (Some e, c')"
      using lpValidate_loop_next[OF less.prems False] by blast
    have v: "lp ! q = LP_EOF \<or> fst (lpValidateNext lp (Some q) (lpBytes lp))"
      using lpValidate_loop_next[OF q(2)] by (cases "lp ! q = LP_EOF") auto
    have "lpBytes lp - q < lpBytes lp - p" using lpValidateNext_increases[OF q(1)] by auto
    from less.hyps[OF this q(2)]
    show ?thesis
      using False lpNext_validated[OF q(1) False v] by (subst lpLength_loop.simps) (simp split: if_splits)
  qed
qed

end
