(* ===== verification/Listpack_Props.thy ===== *)
theory Listpack_Props
  imports Listpack_Range
begin

text \<open>The properties of the listpack component, on listpacks and the lists of entries they hold.\<close>

section \<open>Properties of the component\<close>

lemma lp_rep_iff:
  "lp_rep lp es \<longleftrightarrow> lp_fits es \<and> (\<exists>n sl. lp_numele_ok n es \<and> lp = lp_image n es sl)"
  by (simp add: lp_rep_def)

lemma lp_repE:
  assumes "lp_rep lp es"
  obtains n sl where "lp_fits es" "lp_numele_ok n es" "lp = lp_image n es sl"
  using assms by (auto simp: lp_rep_def)

lemma lp_repI: "lp_fits es \<Longrightarrow> lp_numele_ok n es \<Longrightarrow> lp_rep (lp_image n es sl) es"
  by (auto simp: lp_rep_def)

lemma lpNew_rep: "lp_rep (lpNew capacity) []"
  using lpNew_image[of capacity] lp_repI[of "[]" 0] by (auto simp: lp_fits_def lp_numele_ok_def)

text \<open>The abstract insertion: before, after or in place of entry \<open>i\<close>.\<close>

definition lp_put :: "lp_where \<Rightarrow> nat \<Rightarrow> lp_value \<Rightarrow> lp_value list \<Rightarrow> lp_value list" where
  "lp_put whr i e es =
     (case whr of
        LP_BEFORE \<Rightarrow> take i es @ e # drop i es
      | LP_AFTER \<Rightarrow> take (Suc i) es @ e # drop (Suc i) es
      | LP_REPLACE \<Rightarrow> take i es @ e # drop (Suc i) es)"

lemma lpInsert_rep:
  assumes rep: "lp_rep lp es" and i: "i < length es \<or> i = length es \<and> whr = LP_BEFORE"
    and arg: "lp_arg elestr eleint [e]"
  shows "if lp_off (lp_put whr i e es) + 1 < 2 ^ 32
    then \<exists>lp'. lpInsert lp elestr eleint (lp_off (take i es)) whr =
        Some (Some (lp', Some (lp_off (take (if whr = LP_AFTER then Suc i else i) es)))) \<and>
      lp_rep lp' (lp_put whr i e es)
    else lpInsert lp elestr eleint (lp_off (take i es)) whr = Some None"
proof -
  obtain n sl where lp: "lp_fits es" "lp_numele_ok n es" "lp = lp_image n es sl" using rep by (rule lp_repE)
  define k where "k = (if whr = LP_AFTER then Suc i else i)"
  define bs where "bs = (if whr = LP_REPLACE then [es ! i] else [])"
  define ys where "ys = (if whr = LP_REPLACE then drop (Suc i) es else drop k es)"
  have es: "es = take k es @ bs @ ys"
    using i by (auto simp: k_def bs_def ys_def id_take_nth_drop)
  have put: "lp_put whr i e es = take k es @ e # ys"
    by (auto simp: lp_put_def k_def ys_def split: lp_where.splits)
  define whr' where "whr' = (if whr = LP_AFTER then LP_BEFORE else whr)"
  have eq: "lpInsert lp elestr eleint (lp_off (take i es)) whr = lpInsert lp elestr eleint (lp_off (take k es)) whr'"
  proof (cases "whr = LP_AFTER")
    case True
    then have "es = take i es @ es ! i # drop (Suc i) es" "take k es = take i es @ [es ! i]"
      using i by (auto simp: k_def take_Suc_conv_app_nth id_take_nth_drop)
    then show ?thesis
      using lpInsert_after_image[of "take i es" "es ! i" "drop (Suc i) es" elestr eleint n sl]
        lpInsert_enc_arg(1)[OF arg] lp True by (metis whr'_def)
  qed (simp add: k_def whr'_def)
  have w: "whr' = LP_BEFORE \<and> bs = [] \<or> whr' = LP_REPLACE \<and> bs = [es ! i]"
    by (cases whr) (auto simp: whr'_def bs_def)
  define xs where "xs = take k es"
  note es' = es[folded xs_def]
  have fits: "lp_fits (xs @ bs @ ys)" and n: "lp_numele_ok n (xs @ bs @ ys)"
    and im: "lp = lp_image n (xs @ bs @ ys) sl"
    using lp es' by simp_all
  obtain n' sl' where r: "lp_numele_ok n' (xs @ e # ys)"
    "lpInsert lp elestr eleint (lp_off xs) whr' =
      Some (if lp_off (xs @ e # ys) + 1 < 2 ^ 32
            then Some (lp_image n' (xs @ e # ys) sl', Some (lp_off xs)) else None)"
    using lpInsert_put_image[OF fits n arg w, of sl] unfolding im by blast
  have "lp_fits (xs @ e # ys)" if "lp_off (xs @ e # ys) + 1 < 2 ^ 32"
    using lp_fits_put[OF fits arg] that by simp
  then show ?thesis
    unfolding eq put k_def[symmetric] xs_def[symmetric] using r by (auto intro: lp_repI)
qed


text \<open>A concrete listpack, with the integer 5 and the string \<open>a\<close>.\<close>

definition lp_example :: "byte list" where
  "lp_example = [12, 0, 0, 0, 2, 0, 5, 1, 0x81, 97, 2, 0xFF]"

lemma lp_example_rep: "lp_rep lp_example [LP_INT 5, LP_STR [97]]"
proof -
  have e: "lp_entry (LP_INT 5) = [5, 1]" "lp_entry (LP_STR [97]) = [0x81, 97, 2]" by code_simp+
  then have "lp_image 2 [LP_INT 5, LP_STR [97]] [] = lp_example"
    by (simp add: lp_image_def lp_hdr_def lp_off_def le_bytes_numeral lp_example_def LP_EOF_def)
  moreover have "lp_fits [LP_INT 5, LP_STR [97]]"
    using e by (simp add: lp_fits_def lp_off_def range_simps)
  ultimately show ?thesis using lp_repI[of "[LP_INT 5, LP_STR [97]]" 2 "[]"] by (simp add: lp_numele_ok_def)
qed

lemma lp_example_off: "lp_off [] = 6" "lp_off [LP_INT 5] = 8" "lp_off [LP_INT 5, LP_STR [97]] = 11"
  by code_simp+

lemma lp_example_bytes: "length lp_example = lpBytes lp_example"
  by (simp add: lp_example_def lpBytes_def lpGetTotalBytes_def)

lemma lp_example_validates: "lpValidateIntegrity lp_example (length lp_example) True None ()"
proof -
  obtain n sl where "lp_fits [LP_INT 5, LP_STR [97]]" "lp_numele_ok n [LP_INT 5, LP_STR [97]]"
    "lp_example = lp_image n [LP_INT 5, LP_STR [97]] sl"
    using lp_example_rep by (rule lp_repE)
  moreover have "length lp_example = lp_off [LP_INT 5, LP_STR [97]] + 1"
    by (simp add: lp_example_def lp_example_off(3))
  ultimately show ?thesis
    using lpValidateIntegrity_image[of "[LP_INT 5, LP_STR [97]]" n sl None "()"] by simp
qed

lemma length_lp_body_nths: "length (lp_body (nths es A)) \<le> length (lp_body es)"
proof (induction es arbitrary: A)
  case (Cons e es)
  then show ?case by (auto simp: nths_Cons intro: trans_le_add2)
qed simp

text \<open>C2: encoding an entry (a 64 bit integer or a string shorter than \<open>2 ^ 32 - 5\<close>) and reading it back
  gives the entry and its size, from the front with \<open>lpGet\<close> and \<open>lpSkip\<close>, and from the back with
  \<open>lpDecodeBacklen\<close>, wherever the entry stands in memory.\<close>
theorem lp_entry_roundtrip:
  assumes "lp_ok e" "m = pre @ lp_enc e @ lpEncodeBacklen (length (lp_enc e)) @ rest"
  shows "lpGetWithSize (drop (length pre) m) None = (e, Some (length (lp_entry e))) \<and>
    lpSkip m (length pre) = length pre + length (lp_entry e) \<and>
    lpDecodeBacklen m (length pre + length (lp_entry e) - 1) = length (lp_enc e)"
proof -
  have "lpDecodeBacklen m (length (pre @ lp_enc e) + length (lpEncodeBacklen (length (lp_enc e))) - 1) = length (lp_enc e)"
    by (rule lpDecodeBacklen_correct) (use lp_enc_length(2)[OF assms(1)] assms(2) in simp_all)
  then show ?thesis
    using assms lp_enc_decode[OF assms(1)] lpSkip_suffix[OF assms(1), of "length pre" m rest]
    by (simp add: lp_entry_def add.assoc)
qed

theorem lp_entry_roundtrip_witness:
  "lp_ok (LP_INT (-5000)) \<and> lpGetWithSize (lp_entry (LP_INT (-5000))) None = (LP_INT (-5000), Some 4)"
  using lp_entry_roundtrip[of "LP_INT (-5000)" "lp_entry (LP_INT (-5000))" "[]" "[]"]
  by (simp add: lp_entry_def range_simps) (simp add: lp_enc_def lpEncodeIntegerGetType_eq lpEncodeBacklen_def)

text \<open>C3: on a listpack that holds the entries \<open>es\<close>, \<open>lpSeek\<close> finds the entry a positive or negative index
  denotes and \<open>NULL\<close> for an index out of range; each entry decodes to its value, and \<open>lpNext\<close>
  and \<open>lpPrev\<close> move to the neighbouring entries, giving \<open>NULL\<close> at the ends. No assertion fails.\<close>
theorem lp_navigation:
  assumes "lp_rep lp es"
  shows "lpSeek lp index = Some (map_option (\<lambda>i. lp_off (take i es)) (lp_index es index)) \<and>
    (\<forall>i < length es.
       lpGet (drop (lp_off (take i es)) lp) None = es ! i \<and>
       lpNext lp (lp_off (take i es)) = Some (if Suc i < length es then Some (lp_off (take (Suc i) es)) else None) \<and>
       lpPrev lp (lp_off (take i es)) = Some (if 0 < i then Some (lp_off (take (i - 1) es)) else None))"
proof -
  obtain n sl where lp: "lp_fits es" "lp_numele_ok n es" "lp = lp_image n es sl" using assms by (rule lp_repE)
  have "lpGet (drop (lp_off (take i es)) lp) None = es ! i \<and>
      lpNext lp (lp_off (take i es)) = Some (if Suc i < length es then Some (lp_off (take (Suc i) es)) else None) \<and>
      lpPrev lp (lp_off (take i es)) = Some (if 0 < i then Some (lp_off (take (i - 1) es)) else None)"
    if i: "i < length es" for i
  proof -
    have es: "es = take i es @ es ! i # drop (Suc i) es" by (rule id_take_nth_drop[OF i])
    define xs ys where "xs = take i es" and "ys = drop (Suc i) es"
    have f: "lp_fits (xs @ es ! i # ys)" "lp = lp_image n (xs @ es ! i # ys) sl"
      using lp es by (simp_all add: xs_def ys_def)
    have t: "take (Suc i) es = xs @ [es ! i]" "butlast xs = take (i - 1) es" "ys = [] \<longleftrightarrow> \<not> Suc i < length es"
      "xs = [] \<longleftrightarrow> i = 0"
      using i by (auto simp: xs_def ys_def take_Suc_conv_app_nth butlast_take)
    show ?thesis
      unfolding xs_def[symmetric] t(1) t(2)[symmetric] lpGet_def
      using lp_image_entry(1)[OF f(1), of n sl] lpNext_image[OF f(1), of n sl]
        lpPrev_image[of xs "es ! i # ys" n sl] f t(3,4)
      by (simp only: fst_conv) auto
  qed
  then show ?thesis using lpSeek_image[OF lp(1,2), of sl index] lp(3) by blast
qed

theorem lp_navigation_witness:
  "lpSeek lp_example (-1) = Some (Some 8) \<and> lpGet (drop 8 lp_example) None = LP_STR [97] \<and>
   lpPrev lp_example 8 = Some (Some 6) \<and> lpNext lp_example 8 = Some None"
  using lp_navigation[OF lp_example_rep, of "-1"] lp_example_off
  by (auto simp: lp_index_def dest!: spec[of _ 1])

text \<open>C4: \<open>lpFind\<close>, started at any entry of the listpack or, with \<open>NULL\<close>, at its head, returns the first
  entry from there on, among those that \<open>skip\<close> lets it look at, whose text is the searched string,
  whether the entry is stored as a string or as an integer, and \<open>NULL\<close> when there is none; entries
  before the start are never returned. The searched string is the first \<open>slen\<close> bytes at \<open>s\<close>, with
  \<open>slen\<close> taken modulo \<open>2 ^ 32\<close>. The loop ends and no assertion fails.\<close>
theorem lpFind_first_match:
  assumes "lp_rep lp es"
  shows "lpFind lp None s slen skip =
      Some (map_option (\<lambda>i. lp_off (take i es)) (lp_find (\<lambda>e. lp_text e = take (slen mod 2 ^ 32) s) skip 0 es)) \<and>
    (\<forall>k < length es. lpFind lp (Some (lp_off (take k es))) s slen skip =
      Some (map_option (\<lambda>i. lp_off (take (k + i) es))
        (lp_find (\<lambda>e. lp_text e = take (slen mod 2 ^ 32) s) skip 0 (drop k es))))"
proof -
  obtain n sl where lp: "lp_fits es" "lp = lp_image n es sl" using assms by (rule lp_repE)
  have "lpFind lp (Some (lp_off (take k es))) s slen skip =
      Some (map_option (\<lambda>i. lp_off (take (k + i) es))
        (lp_find (\<lambda>e. lp_text e = take (slen mod 2 ^ 32) s) skip 0 (drop k es)))" if "k < length es" for k
    using lpFind_from_image[of "take k es" "drop k es" n sl s slen skip] lp that
    by (simp add: take_add)
  then show ?thesis using lpFind_image[OF lp(1)] lp(2) by blast
qed

theorem lpFind_first_match_witness:
  "lpFind lp_example None [97] 1 0 = Some (Some 8) \<and> lpFind lp_example None [53] 1 1 = Some (Some 6) \<and>
   lpFind lp_example (Some 8) [97, 98] 1 0 = Some (Some 8) \<and> lpFind lp_example (Some 8) [53] 1 0 = Some None"
proof -
  have k: "1 < length [LP_INT 5, LP_STR [97]]" by simp
  show ?thesis
    using lpFind_first_match[OF lp_example_rep, of "[97]" 1 0] lpFind_first_match[OF lp_example_rep, of "[53]" 1 1]
      lpFind_first_match[OF lp_example_rep, of "[97, 98]" 1 0, THEN conjunct2, rule_format, OF k]
      lpFind_first_match[OF lp_example_rep, of "[53]" 1 0, THEN conjunct2, rule_format, OF k] lp_example_off
    by (simp add: lp_text_def sdec_def dec.simps)
qed

text \<open>C1: \<open>lpInsertString\<close> stores the string (as an integer when it is the canonical form of one) before,
  after or in place of entry \<open>i\<close>, keeps all other entries and returns the position of the new
  one; the only failure is the \<open>NULL\<close> of a listpack that would not fit the 32 bit size field.\<close>
theorem lpInsertString_list:
  assumes "lp_rep lp es" "length s < 2 ^ 32" "i < length es \<or> i = length es \<and> whr = LP_BEFORE"
  shows "if lp_off (lp_put whr i (lp_of_string s) es) + 1 < 2 ^ 32
    then \<exists>lp'. lpInsertString lp s (lp_off (take i es)) whr =
        Some (Some (lp', Some (lp_off (take (if whr = LP_AFTER then Suc i else i) es)))) \<and>
      lp_rep lp' (lp_put whr i (lp_of_string s) es)
    else lpInsertString lp s (lp_off (take i es)) whr = Some None"
  unfolding lpInsertString_def by (rule lpInsert_rep[OF assms(1,3) arg_string[OF assms(2)]])

theorem lpInsertString_list_witness:
  "\<exists>lp'. lpInsertString lp_example [49, 50] 6 LP_AFTER = Some (Some (lp', Some 8)) \<and>
     lp_rep lp' [LP_INT 5, LP_INT 12, LP_STR [97]]"
proof -
  have s: "lp_of_string [49, 50] = LP_INT 12" by code_simp
  have o: "lp_off [LP_INT 5, LP_INT 12, LP_STR [97]] = 13" by code_simp
  show ?thesis
    using lpInsertString_list[OF lp_example_rep, of "[49, 50]" 0 LP_AFTER] lp_example_off o
    by (simp add: lp_put_def s)
qed

text \<open>C5: \<open>lpDelete\<close> removes exactly the entry it points to and returns the position of the entry after it,
  or \<open>NULL\<close> when it was the last.\<close>
theorem lpDelete_list:
  assumes "lp_rep lp es" "i < length es"
  shows "\<exists>lp'. lpDelete lp (lp_off (take i es)) =
      Some (Some (lp', if Suc i = length es then None else Some (lp_off (take i es)))) \<and>
    lp_rep lp' (take i es @ drop (Suc i) es)"
proof -
  obtain n sl where lp: "lp_fits es" "lp_numele_ok n es" "lp = lp_image n es sl" using assms(1) by (rule lp_repE)
  have es: "es = take i es @ es ! i # drop (Suc i) es" by (rule id_take_nth_drop[OF assms(2)])
  define xs ys where "xs = take i es" and "ys = drop (Suc i) es"
  have f: "lp_fits (xs @ es ! i # ys)" "lp_numele_ok n (xs @ es ! i # ys)" "lp = lp_image n (xs @ es ! i # ys) sl"
    using lp es by (simp_all add: xs_def ys_def)
  have "lp_fits (xs @ ys)" by (rule lp_fits_sub[OF f(1)]) auto
  moreover have "ys = [] \<longleftrightarrow> Suc i = length es" using assms(2) by (auto simp: ys_def)
  ultimately show ?thesis
    using lpDelete_image[OF f(1,2), of sl] f(3) by (auto simp: xs_def[symmetric] ys_def[symmetric] intro: lp_repI)
qed

theorem lpDelete_list_witness:
  "\<exists>lp'. lpDelete lp_example 8 = Some (Some (lp', None)) \<and> lp_rep lp' [LP_INT 5]"
  using lpDelete_list[OF lp_example_rep, of 1] lp_example_off by simp

text \<open>C7: \<open>lpDeleteRange\<close> removes the \<open>num\<close> entries from the one the index denotes on, as many as there are,
  and changes nothing when the index is out of range.\<close>
theorem lpDeleteRange_list:
  assumes "lp_rep lp es"
  shows "\<exists>lp'. lpDeleteRange lp index num = Some lp' \<and>
    lp_rep lp' (case lp_index es index of None \<Rightarrow> es | Some i \<Rightarrow> take i es @ drop (i + num) es)"
proof -
  obtain n sl where lp: "lp_fits es" "lp_numele_ok n es" "lp = lp_image n es sl" using assms by (rule lp_repE)
  show ?thesis
    using lpDeleteRange_image[OF lp(1,2), where index = index and num = num and sl = sl] unfolding lp(3) Let_def by (auto intro: lp_repI)
qed

theorem lpDeleteRange_list_witness:
  "\<exists>lp'. lpDeleteRange lp_example (-2) 1 = Some lp' \<and> lp_rep lp' [LP_STR [97]]"
  using lpDeleteRange_list[OF lp_example_rep, of "-2" 1] by (simp add: lp_index_def)

text \<open>C6: \<open>lpBatchDelete\<close>, given the positions of entries in increasing order, removes exactly these entries
  and keeps the others in order; none of its assertions fails.\<close>
theorem lpBatchDelete_list:
  assumes "lp_rep lp es" "sorted_wrt (<) is" "\<forall>i \<in> set is. i < length es"
  shows "\<exists>lp'. lpBatchDelete lp (map (\<lambda>i. lp_off (take i es)) is) = Some lp' \<and>
    lp_rep lp' (nths es (- set is))"
proof -
  obtain n sl where lp: "lp_fits es" "lp_numele_ok n es" "lp = lp_image n es sl" using assms(1) by (rule lp_repE)
  have "lp_fits (nths es (- set is))"
    by (rule lp_fits_sub[OF lp(1)]) (auto simp: set_nths length_lp_body_nths)
  then show ?thesis
    using lpBatchDelete_image[OF lp(1,2) assms(2,3), of sl] unfolding lp(3) by (auto intro: lp_repI)
qed

theorem lpBatchDelete_list_witness:
  "\<exists>lp'. lpBatchDelete lp_example [6, 8] = Some lp' \<and> lp_rep lp' []"
  using lpBatchDelete_list[OF lp_example_rep, of "[0, 1]"] lp_example_off by (simp add: nths_Cons)






text \<open>C9: \<open>lpMerge\<close> concatenates two listpacks: the result, stored in the argument that was larger while the
  other becomes \<open>NULL\<close>, holds the entries of the first followed by those of the second.\<close>
theorem lpMerge_concat:
  assumes "lp_rep lp1 es1" "lp_rep lp2 es2" "lp_off (es1 @ es2) + 1 < UINT32_MAX"
  shows "\<exists>lp. lp_rep lp (es1 @ es2) \<and>
    lpMerge (Some lp1) (Some lp2) False =
    Some (if lpBytes lp1 \<ge> lpBytes lp2 then (Some lp, None, Some lp) else (None, Some lp, Some lp))"
proof -
  obtain n1 sl1 where l1: "lp_fits es1" "lp_numele_ok n1 es1" "lp1 = lp_image n1 es1 sl1" using assms(1) by (rule lp_repE)
  obtain n2 sl2 where l2: "lp_fits es2" "lp_numele_ok n2 es2" "lp2 = lp_image n2 es2 sl2" using assms(2) by (rule lp_repE)
  have "lp_fits (es1 @ es2)" using l1(1) l2(1) assms(3) by (auto simp: lp_fits_def UINT32_MAX_def)
  then show ?thesis
    using lpMerge_image[OF l1(1,2) l2(1,2) assms(3), of sl1 sl2] l1 l2 by (auto intro: lp_repI)
qed

theorem lpMerge_concat_witness:
  "\<exists>lp. lp_rep lp [LP_INT 5, LP_STR [97], LP_INT 5, LP_STR [97]] \<and>
    lpMerge (Some lp_example) (Some lp_example) False = Some (Some lp, None, Some lp)"
proof -
  have o: "lp_off [LP_INT 5, LP_STR [97], LP_INT 5, LP_STR [97]] = 16" by code_simp
  show ?thesis using lpMerge_concat[OF lp_example_rep lp_example_rep] o by (simp add: UINT32_MAX_def)
qed

text \<open>C10: \<open>lpLength\<close> returns the number of entries, also when the header says that it is not known, and at most
  updates the header.\<close>
theorem lpLength_count:
  assumes "lp_rep lp es"
  shows "\<exists>lp'. lpLength lp = Some (lp', length es) \<and> lp_rep lp' es"
proof -
  obtain n sl where lp: "lp_fits es" "lp_numele_ok n es" "lp = lp_image n es sl" using assms by (rule lp_repE)
  show ?thesis using lpLength_image[OF lp(1,2), of sl] lp(1) unfolding lp(3) by (auto intro: lp_repI)
qed

theorem lpLength_count_witness: "\<exists>lp'. lpLength lp_example = Some (lp', 2)"
  using lpLength_count[OF lp_example_rep] by auto

text \<open>C11: an arbitrary buffer that passes the deep validation of \<open>lpValidateIntegrity\<close> can be traversed from
  the first entry to the end without a failing assertion, and the number of entries met is the
  one of the header, when the header has one.\<close>
theorem lpValidateIntegrity_safe:
  assumes "lpValidateIntegrity lp (length lp) True cb u"
  shows "\<exists>count. lpLength_loop lp (lpValidateFirst lp) 0 = Some count \<and>
    lpFirst lp = Some (lpValidateFirst lp) \<and>
    (lpGetNumElements lp = LP_HDR_NUMELE_UNKNOWN \<or> lpGetNumElements lp = count)"
proof -
  have b: "lpBytes lp = length lp" using assms by (simp add: lpValidateIntegrity_def lpBytes_def Let_def split: if_splits)
  obtain count where c: "lpValidate_loop cb lp (lpBytes lp) (lpGetNumElements lp) (Some 6) 0 u =
      Some (Some (length lp - 1), count)"
    "lpGetNumElements lp = LP_HDR_NUMELE_UNKNOWN \<or> lpGetNumElements lp = count"
    using assms b by (auto simp: lpValidateIntegrity_def lpBytes_def Let_def split: if_splits option.splits)
  have "lp ! 6 = LP_EOF \<or> fst (lpValidateNext lp (Some 6) (lpBytes lp))"
    using lpValidate_loop_next[OF c(1)] by (cases "lp ! 6 = LP_EOF") auto
  then have "lpFirst lp = Some (lpValidateFirst lp)"
    by (auto simp: lpFirst_def lpValidateFirst_def lpAssertValidEntry_def)
  moreover have "lpLength_loop lp (lpValidateFirst lp) 0 = Some count"
    using lpValidate_loop_traverse[OF c(1)] by (simp add: lpValidateFirst_def)
  ultimately show ?thesis using c(2) by blast
qed

theorem lpValidateIntegrity_safe_witness:
  "\<exists>count. lpLength_loop lp_example (lpValidateFirst lp_example) 0 = Some count"
  using lpValidateIntegrity_safe[OF lp_example_validates] by blast

text \<open>C12: every listpack without unused bytes passes the deep validation, provided the callback accepts its
  entries: what the operations build is accepted when it is loaded again.\<close>
theorem lpValidateIntegrity_accepts:
  assumes "lp_rep lp es" "length lp = lpBytes lp"
  shows "lpValidateIntegrity lp (length lp) True cb u \<longleftrightarrow> lp_cb_all cb (lpGetNumElements lp) [] es u"
proof -
  obtain n sl where lp: "lp_fits es" "lp_numele_ok n es" "lp = lp_image n es sl" using assms(1) by (rule lp_repE)
  show ?thesis using lpValidateIntegrity_image[OF lp(1,2), of sl cb u] assms(2) lp by simp
qed

theorem lpValidateIntegrity_accepts_witness: "lpValidateIntegrity lp_example (length lp_example) True None ()"
  using lpValidateIntegrity_accepts[OF lp_example_rep, of None "()"] lp_example_bytes by simp

end
