(* ===== verification/Dict.thy ===== *)
theory Dict
  imports Set_Interface
begin

text \<open>
  The hash table of \<open>dict.c\<close>: two tables of chained buckets, incremental rehashing from the first
  to the second, resizing by load, lookup, insertion, removal, the stateless scan with a
  reversed-bit cursor and the iterator. Keys and values are type parameters; the callbacks of
  \<open>dictType\<close> that decide something (hash, comparison, duplication, permission to resize) are
  fields of the type record, which every operation takes as its argument \<open>ty\<close>. The callbacks that
  only release memory or notify another component (destructors, \<open>rehashingStarted\<close>,
  \<open>rehashingCompleted\<close>, \<open>onDictRelease\<close>) have no effect on the dictionary.

  A chain of entries linked by \<open>next\<close> is a list, \<open>NULL\<close> the empty one. The static variable
  \<open>dict_can_resize\<close> is the argument \<open>cr\<close>. A pointer to an entry is its table, its bucket and
  its place in the chain. The result \<open>None\<close> of an operation stands for a failed assertion or an
  access outside a table.
\<close>

section \<open>Types\<close>

datatype ('k, 'v) dictEntry =
    KeyPtr 'k                     \<comment> \<open>an odd pointer: the key itself stands in the bucket\<close>
  | NoValue 'k                    \<comment> \<open>\<open>ENTRY_PTR_NO_VALUE\<close>\<close>
  | Normal 'k "'v option"         \<comment> \<open>\<open>ENTRY_PTR_NORMAL\<close>; \<open>None\<close> before the value is set\<close>

type_synonym ('k, 'v) chain = "('k, 'v) dictEntry list"

type_synonym entry_ref = "nat \<times> nat \<times> nat"

record ('k, 'v) dictType =
  hashFunction :: "'k \<Rightarrow> 64 word"
  keyDup :: "('k \<Rightarrow> 'k) option"
  valDup :: "('v \<Rightarrow> 'v) option"
  keyCompare :: "('k \<Rightarrow> 'k \<Rightarrow> bool) option"
  resizeAllowed :: "(nat \<Rightarrow> nat \<times> nat \<Rightarrow> bool) option"  \<comment> \<open>the used ratio as dividend and divisor\<close>
  no_value :: bool
  keys_are_odd :: bool
  storedHashFunction :: "('k \<Rightarrow> 64 word) option"
  storedKeyCompare :: "('k \<Rightarrow> 'k \<Rightarrow> bool) option"
  odd_key :: "'k \<Rightarrow> bool"         \<comment> \<open>the least bit of the pointer to the key\<close>

record ('k, 'v) dictht =
  ht_table :: "('k, 'v) chain list"
  ht_used :: nat
  ht_size_exp :: int

record ('k, 'v) dict =
  ht0 :: "('k, 'v) dictht"
  ht1 :: "('k, 'v) dictht"
  rehashidx :: int
  pauserehash :: nat
  useStoredKeyApi :: bool
  pauseAutoResize :: int

datatype dictResizeEnable = DICT_RESIZE_ENABLE | DICT_RESIZE_AVOID | DICT_RESIZE_FORBID

definition ulong :: "nat \<Rightarrow> nat" where
  "ulong n = n mod 2 ^ 64"

definition HASHTABLE_MIN_FILL :: nat where [simp]: "HASHTABLE_MIN_FILL = 8"
definition dict_force_resize_ratio :: nat where [simp]: "dict_force_resize_ratio = 4"
definition DICT_HT_INITIAL_EXP :: int where [simp]: "DICT_HT_INITIAL_EXP = 2"
definition DICT_HT_INITIAL_SIZE :: nat where [simp]: "DICT_HT_INITIAL_SIZE = 4"

definition DICTHT_SIZE :: "int \<Rightarrow> nat" where
  "DICTHT_SIZE exp = (if exp = -1 then 0 else 2 ^ nat exp)"

definition DICTHT_SIZE_MASK :: "int \<Rightarrow> nat" where
  "DICTHT_SIZE_MASK exp = (if exp = -1 then 0 else DICTHT_SIZE exp - 1)"

definition dict_ht :: "('k, 'v) dict \<Rightarrow> nat \<Rightarrow> ('k, 'v) dictht" where
  "dict_ht d i = (if i = 0 then ht0 d else ht1 d)"

definition dict_ht_update :: "nat \<Rightarrow> (('k, 'v) dictht \<Rightarrow> ('k, 'v) dictht) \<Rightarrow> ('k, 'v) dict \<Rightarrow> ('k, 'v) dict" where
  "dict_ht_update i f d = (if i = 0 then d\<lparr>ht0 := f (ht0 d)\<rparr> else d\<lparr>ht1 := f (ht1 d)\<rparr>)"

definition dictSize :: "('k, 'v) dict \<Rightarrow> nat" where
  "dictSize d = ulong (ht_used (ht0 d) + ht_used (ht1 d))"

definition dictIsEmpty :: "('k, 'v) dict \<Rightarrow> bool" where
  "dictIsEmpty d \<longleftrightarrow> ht_used (ht0 d) = 0 \<and> ht_used (ht1 d) = 0"

definition dictBuckets :: "('k, 'v) dict \<Rightarrow> nat" where
  "dictBuckets d = ulong (DICTHT_SIZE (ht_size_exp (ht0 d)) + DICTHT_SIZE (ht_size_exp (ht1 d)))"

definition dictIsRehashing :: "('k, 'v) dict \<Rightarrow> bool" where
  "dictIsRehashing d \<longleftrightarrow> rehashidx d \<noteq> -1"

definition dictPauseRehashing :: "('k, 'v) dict \<Rightarrow> ('k, 'v) dict" where
  "dictPauseRehashing d = d\<lparr>pauserehash := (pauserehash d + 1) mod 2 ^ 15\<rparr>"

definition dictResumeRehashing :: "('k, 'v) dict \<Rightarrow> ('k, 'v) dict" where
  "dictResumeRehashing d = d\<lparr>pauserehash := (pauserehash d + (2 ^ 15 - 1)) mod 2 ^ 15\<rparr>"

definition dictPauseAutoResize :: "('k, 'v) dict \<Rightarrow> ('k, 'v) dict" where
  "dictPauseAutoResize d = d\<lparr>pauseAutoResize := pauseAutoResize d + 1\<rparr>"

definition dictResumeAutoResize :: "('k, 'v) dict \<Rightarrow> ('k, 'v) dict" where
  "dictResumeAutoResize d = d\<lparr>pauseAutoResize := pauseAutoResize d - 1\<rparr>"

section \<open>Keys and entries\<close>

definition dictGetKeyCmpFunc :: "('k, 'v) dictType \<Rightarrow> bool \<Rightarrow> 'k \<Rightarrow> 'k \<Rightarrow> bool" where
  "dictGetKeyCmpFunc ty stored =
     (case (if stored then storedKeyCompare ty else None) of
        Some f \<Rightarrow> f
      | None \<Rightarrow> (case keyCompare ty of Some f \<Rightarrow> f | None \<Rightarrow> (=)))"

definition dictHashKey :: "('k, 'v) dictType \<Rightarrow> 'k \<Rightarrow> bool \<Rightarrow> 64 word" where
  "dictHashKey ty key isStoredKey =
     (case (if isStoredKey then storedHashFunction ty else None) of
        Some f \<Rightarrow> f key
      | None \<Rightarrow> hashFunction ty key)"

text \<open>\<open>hash & DICTHT_SIZE_MASK(exp)\<close>, used as an index.\<close>

definition hash_idx :: "64 word \<Rightarrow> int \<Rightarrow> nat" where
  "hash_idx h exp = unat (h AND word_of_nat (DICTHT_SIZE_MASK exp))"

fun entryIsKey :: "('k, 'v) dictEntry \<Rightarrow> bool" where
  "entryIsKey (KeyPtr _) = True"
| "entryIsKey _ = False"

fun entryIsNoValue :: "('k, 'v) dictEntry \<Rightarrow> bool" where
  "entryIsNoValue (NoValue _) = True"
| "entryIsNoValue _ = False"

fun entryHasValue :: "('k, 'v) dictEntry \<Rightarrow> bool" where
  "entryHasValue (Normal _ _) = True"
| "entryHasValue _ = False"

fun dictGetKey :: "('k, 'v) dictEntry \<Rightarrow> 'k" where
  "dictGetKey (KeyPtr k) = k"
| "dictGetKey (NoValue k) = k"
| "dictGetKey (Normal k _) = k"

fun dictGetVal :: "('k, 'v) dictEntry \<Rightarrow> 'v option option" where
  "dictGetVal (Normal _ v) = Some v"
| "dictGetVal _ = None"

fun dictSetVal :: "('k, 'v) dictType \<Rightarrow> 'v \<Rightarrow> ('k, 'v) dictEntry \<Rightarrow> ('k, 'v) dictEntry option" where
  "dictSetVal ty val (Normal k _) = Some (Normal k (Some (case valDup ty of Some f \<Rightarrow> f val | None \<Rightarrow> val)))"
| "dictSetVal ty val _ = None"

text \<open>The chain after the entry \<open>de\<close>, when \<open>rest\<close> is what its \<open>next\<close> field holds.\<close>

definition dictGetNext :: "('k, 'v) dictEntry \<Rightarrow> ('k, 'v) chain \<Rightarrow> ('k, 'v) chain" where
  "dictGetNext de rest = (if entryIsKey de then [] else rest)"

lemma length_dictGetNext [termination_simp]: "length (dictGetNext de rest) < Suc (length rest)"
  by (simp add: dictGetNext_def)

text \<open>The chain that starts at \<open>de\<close> after its \<open>next\<close> field was set.\<close>

definition dictSetNext :: "('k, 'v) dictEntry \<Rightarrow> ('k, 'v) chain \<Rightarrow> ('k, 'v) chain option" where
  "dictSetNext de next = do { c_assert (\<not> entryIsKey de); Some (de # next) }"

text \<open>The entries a \<open>while (he)\<close> loop over a chain visits.\<close>

fun chain_walk :: "('k, 'v) chain \<Rightarrow> ('k, 'v) dictEntry list" where
  "chain_walk [] = []"
| "chain_walk (de # rest) = de # chain_walk (dictGetNext de rest)"

section \<open>Creation and resizing\<close>

definition dictReset :: "('k, 'v) dictht" where
  "dictReset = \<lparr>ht_table = [], ht_used = 0, ht_size_exp = -1\<rparr>"

definition dictCreate :: "('k, 'v) dict" where
  "dictCreate = \<lparr>ht0 = dictReset, ht1 = dictReset, rehashidx = -1, pauserehash = 0,
     useStoredKeyApi = False, pauseAutoResize = 0\<rparr>"

fun bitlen :: "nat \<Rightarrow> nat" where
  "bitlen n = (if n = 0 then 0 else Suc (bitlen (n div 2)))"

declare bitlen.simps [simp del]

definition clzl :: "nat \<Rightarrow> nat" where
  "clzl n = 64 - bitlen n"

definition dictNextExp :: "nat \<Rightarrow> int" where
  "dictNextExp size' =
     (if size' \<le> DICT_HT_INITIAL_SIZE then DICT_HT_INITIAL_EXP
      else if size' \<ge> 2 ^ 63 - 1 then 63
      else 64 - int (clzl (size' - 1)))"

text \<open>
  \<open>_dictResize\<close>. The argument \<open>try_alloc\<close> is \<open>None\<close> for a \<open>malloc_failed\<close> of \<open>NULL\<close> (the allocator
  then never returns \<open>NULL\<close>) and otherwise says whether \<open>ztrycalloc\<close> succeeds. The result holds
  the dictionary, whether a resize took place (\<open>DICT_OK\<close>) and \<open>*malloc_failed\<close>.
\<close>

definition dictResize :: "bool option \<Rightarrow> ('k, 'v) dict \<Rightarrow> nat \<Rightarrow> (('k, 'v) dict \<times> bool \<times> bool) option" where
  "dictResize try_alloc d size' = do {
     c_assert (\<not> dictIsRehashing d);
     let new_ht_size_exp = dictNextExp size';
     let newsize = DICTHT_SIZE new_ht_size_exp;
     if newsize < size' \<or> ulong (newsize * 8) < newsize then Some (d, False, False)
     else if new_ht_size_exp = ht_size_exp (ht0 d) then Some (d, False, False)
     else if try_alloc = Some False then Some (d, False, True)
     else do {
       let new_ht = \<lparr>ht_table = replicate newsize [], ht_used = 0, ht_size_exp = new_ht_size_exp\<rparr>;
       let d = d\<lparr>ht1 := new_ht, rehashidx := 0\<rparr>;
       if ht_table (ht0 d) = [] \<or> ht_used (ht0 d) = 0
       then Some (d\<lparr>ht0 := new_ht, ht1 := dictReset, rehashidx := -1\<rparr>, True, False)
       else Some (d, True, False)
     }
   }"

definition dictExpand_malloc :: "bool option \<Rightarrow> ('k, 'v) dict \<Rightarrow> nat \<Rightarrow> (('k, 'v) dict \<times> bool \<times> bool) option" where
  "dictExpand_malloc try_alloc d size' =
     (if dictIsRehashing d \<or> ht_used (ht0 d) > size' \<or> DICTHT_SIZE (ht_size_exp (ht0 d)) \<ge> size'
      then Some (d, False, False)
      else dictResize try_alloc d size')"

definition dictExpand :: "('k, 'v) dict \<Rightarrow> nat \<Rightarrow> (('k, 'v) dict \<times> bool) option" where
  "dictExpand d size' = do { (d, ok, _) \<leftarrow> dictExpand_malloc None d size'; Some (d, ok) }"

definition dictTryExpand :: "bool \<Rightarrow> ('k, 'v) dict \<Rightarrow> nat \<Rightarrow> (('k, 'v) dict \<times> bool) option" where
  "dictTryExpand alloc_ok d size' =
     do { (d, _, malloc_failed) \<leftarrow> dictExpand_malloc (Some alloc_ok) d size'; Some (d, \<not> malloc_failed) }"

definition dictShrink :: "('k, 'v) dict \<Rightarrow> nat \<Rightarrow> (('k, 'v) dict \<times> bool) option" where
  "dictShrink d size' =
     (if dictIsRehashing d \<or> ht_used (ht0 d) > size' \<or> DICTHT_SIZE (ht_size_exp (ht0 d)) \<le> size'
      then Some (d, False)
      else do { (d, ok, _) \<leftarrow> dictResize None d size'; Some (d, ok) })"

section \<open>Incremental rehashing\<close>

text \<open>The body of the loop of \<open>rehashEntriesInBucketAtIndex\<close>: what the destination bucket becomes.\<close>

definition rehash_entry ::
  "('k, 'v) dictType \<Rightarrow> ('k, 'v) dictEntry \<Rightarrow> ('k, 'v) chain \<Rightarrow> ('k, 'v) chain option" where
  "rehash_entry ty de bucket = do {
     let key = dictGetKey de;
     if no_value ty then
       if keys_are_odd ty \<and> bucket = [] then do { c_assert (odd_key ty key); Some [KeyPtr key] }
       else if entryIsKey de then Some (NoValue key # bucket)
       else do { c_assert (entryIsNoValue de); dictSetNext de bucket }
     else dictSetNext de bucket
   }"

fun rehash_chain ::
  "('k, 'v) dictType \<Rightarrow> nat \<Rightarrow> ('k, 'v) chain \<Rightarrow> ('k, 'v) dict \<Rightarrow> ('k, 'v) dict option" where
  "rehash_chain ty idx [] d = Some d"
| "rehash_chain ty idx (de # rest) d = do {
     let nextde = dictGetNext de rest;
     let key = dictGetKey de;
     let h = (if ht_size_exp (ht1 d) > ht_size_exp (ht0 d)
              then hash_idx (dictHashKey ty key True) (ht_size_exp (ht1 d))
              else hash_idx (word_of_nat idx) (ht_size_exp (ht1 d)));
     bucket \<leftarrow> aref (ht_table (ht1 d)) h;
     bucket' \<leftarrow> rehash_entry ty de bucket;
     let d = d\<lparr>ht0 := (ht0 d)\<lparr>ht_used := ht_used (ht0 d) - 1\<rparr>,
               ht1 := (ht1 d)\<lparr>ht_table := (ht_table (ht1 d))[h := bucket'], ht_used := ht_used (ht1 d) + 1\<rparr>\<rparr>;
     rehash_chain ty idx nextde d
   }"

definition rehashEntriesInBucketAtIndex ::
  "('k, 'v) dictType \<Rightarrow> ('k, 'v) dict \<Rightarrow> nat \<Rightarrow> ('k, 'v) dict option" where
  "rehashEntriesInBucketAtIndex ty d idx = do {
     de \<leftarrow> aref (ht_table (ht0 d)) idx;
     d \<leftarrow> rehash_chain ty idx de d;
     Some (d\<lparr>ht0 := (ht0 d)\<lparr>ht_table := (ht_table (ht0 d))[idx := []]\<rparr>\<rparr>)
   }"

definition dictCheckRehashingCompleted :: "('k, 'v) dict \<Rightarrow> ('k, 'v) dict \<times> bool" where
  "dictCheckRehashingCompleted d =
     (if ht_used (ht0 d) \<noteq> 0 then (d, False)
      else (d\<lparr>ht0 := ht1 d, ht1 := dictReset, rehashidx := -1\<rparr>, True))"

text \<open>
  The inner loop of \<open>dictRehash\<close>, over the empty buckets from \<open>i\<close> on: \<open>Inl\<close> when the visits are used
  up and the function returns, \<open>Inr\<close> when a bucket with entries is found.
\<close>

function rehash_skip :: "('k, 'v) chain list \<Rightarrow> nat \<Rightarrow> int \<Rightarrow> (nat + nat \<times> int) option" where
  "rehash_skip tbl i empty_visits = (
     if i < length tbl then
       if tbl ! i = [] then
         if empty_visits - 1 = 0 then Some (Inl (i + 1))
         else rehash_skip tbl (i + 1) (empty_visits - 1)
       else Some (Inr (i, empty_visits))
     else None)"
  by auto
termination by (relation "measure (\<lambda>(tbl, i, _). length tbl - i)") auto

declare rehash_skip.simps [simp del]

fun rehash_loop ::
  "('k, 'v) dictType \<Rightarrow> nat \<Rightarrow> int \<Rightarrow> ('k, 'v) dict \<Rightarrow> (('k, 'v) dict \<times> bool) option" where
  "rehash_loop ty 0 empty_visits d = (let (d, c) = dictCheckRehashingCompleted d in Some (d, \<not> c))"
| "rehash_loop ty (Suc n) empty_visits d = (
     if ht_used (ht0 d) \<noteq> 0 then do {
       c_assert (int (DICTHT_SIZE (ht_size_exp (ht0 d))) > rehashidx d mod 2 ^ 64);
       r \<leftarrow> rehash_skip (ht_table (ht0 d)) (nat (rehashidx d)) empty_visits;
       case r of
         Inl i \<Rightarrow> Some (d\<lparr>rehashidx := int i\<rparr>, True)
       | Inr (i, empty_visits) \<Rightarrow> do {
           d \<leftarrow> rehashEntriesInBucketAtIndex ty d i;
           rehash_loop ty n empty_visits (d\<lparr>rehashidx := int i + 1\<rparr>)
         }
     }
     else (let (d, c) = dictCheckRehashingCompleted d in Some (d, \<not> c)))"

text \<open>The guards that \<open>dictRehash\<close> and \<open>_dictBucketRehash\<close> share.\<close>

definition rehash_refused :: "dictResizeEnable \<Rightarrow> ('k, 'v) dict \<Rightarrow> bool" where
  "rehash_refused cr d = (
     let s0 = DICTHT_SIZE (ht_size_exp (ht0 d)); s1 = DICTHT_SIZE (ht_size_exp (ht1 d)) in
     cr = DICT_RESIZE_FORBID \<or> \<not> dictIsRehashing d \<or>
     cr = DICT_RESIZE_AVOID \<and>
       (s1 > s0 \<and> s1 < ulong (dict_force_resize_ratio * s0) \<or>
        s1 < s0 \<and> s0 < ulong (HASHTABLE_MIN_FILL * dict_force_resize_ratio * s1)))"

text \<open>
  \<open>dictRehash\<close>. The visits are counted in an \<open>int\<close>, so \<open>n * 10\<close> is reduced to 32 bits. The callers
  pass 1 and 100; for \<open>n\<close> above \<open>(2 ^ 31 - 1) div 10\<close>, where C does not define the product, the model
  takes the one of two's complement.
\<close>

definition dictRehash ::
  "dictResizeEnable \<Rightarrow> ('k, 'v) dictType \<Rightarrow> ('k, 'v) dict \<Rightarrow> nat \<Rightarrow> (('k, 'v) dict \<times> bool) option" where
  "dictRehash cr ty d n =
     (if rehash_refused cr d then Some (d, False)
      else rehash_loop ty n (signed_take_bit 31 (int n * 10)) d)"

text \<open>
  \<open>dictRehashMicroseconds\<close>: the clock is the argument \<open>elapsed\<close>, whose \<open>i\<close>-th value says whether the
  time was up after the \<open>i\<close>-th round. The loop has no bound of its own.
\<close>

partial_function (option) rehash_us_loop ::
  "dictResizeEnable \<Rightarrow> ('k, 'v) dictType \<Rightarrow> (nat \<Rightarrow> bool) \<Rightarrow> nat \<Rightarrow> ('k, 'v) dict \<Rightarrow>
   (('k, 'v) dict \<times> nat) option" where
  "rehash_us_loop cr ty elapsed i d =
     Option.bind (dictRehash cr ty d 100) (\<lambda>r. case r of
       (d, again) \<Rightarrow>
         if \<not> again then Some (d, 100 * i)
         else if elapsed i then Some (d, 100 * (i + 1))
         else rehash_us_loop cr ty elapsed (i + 1) d)"

definition dictRehashMicroseconds ::
  "dictResizeEnable \<Rightarrow> ('k, 'v) dictType \<Rightarrow> (nat \<Rightarrow> bool) \<Rightarrow> ('k, 'v) dict \<Rightarrow>
   (('k, 'v) dict \<times> nat) option" where
  "dictRehashMicroseconds cr ty elapsed d =
     (if pauserehash d > 0 then Some (d, 0) else rehash_us_loop cr ty elapsed 0 d)"

definition dictRehashStep ::
  "dictResizeEnable \<Rightarrow> ('k, 'v) dictType \<Rightarrow> ('k, 'v) dict \<Rightarrow> ('k, 'v) dict option" where
  "dictRehashStep cr ty d =
     (if pauserehash d = 0 then do { (d, _) \<leftarrow> dictRehash cr ty d 1; Some d } else Some d)"

definition dictBucketRehash ::
  "dictResizeEnable \<Rightarrow> ('k, 'v) dictType \<Rightarrow> ('k, 'v) dict \<Rightarrow> nat \<Rightarrow> (('k, 'v) dict \<times> bool) option" where
  "dictBucketRehash cr ty d idx =
     (if pauserehash d \<noteq> 0 then Some (d, False)
      else if rehash_refused cr d then Some (d, False)
      else do {
        d \<leftarrow> rehashEntriesInBucketAtIndex ty d idx;
        Some (fst (dictCheckRehashingCompleted d), True)
      })"

section \<open>Resizing by load\<close>

definition dictTypeResizeAllowed :: "('k, 'v) dictType \<Rightarrow> ('k, 'v) dict \<Rightarrow> nat \<Rightarrow> bool" where
  "dictTypeResizeAllowed ty d size' =
     (case resizeAllowed ty of
        None \<Rightarrow> True
      | Some f \<Rightarrow> f (ulong (DICTHT_SIZE (dictNextExp size') * 8))
                    (ht_used (ht0 d), DICTHT_SIZE (ht_size_exp (ht0 d))))"

definition dictExpandIfNeeded ::
  "dictResizeEnable \<Rightarrow> ('k, 'v) dictType \<Rightarrow> ('k, 'v) dict \<Rightarrow> (('k, 'v) dict \<times> bool) option" where
  "dictExpandIfNeeded cr ty d = (
     let used = ht_used (ht0 d); size0 = DICTHT_SIZE (ht_size_exp (ht0 d)) in
     if dictIsRehashing d then Some (d, True)
     else if size0 = 0 then do { (d, _) \<leftarrow> dictExpand d DICT_HT_INITIAL_SIZE; Some (d, True) }
     else if cr = DICT_RESIZE_ENABLE \<and> used \<ge> size0 \<or>
             cr \<noteq> DICT_RESIZE_FORBID \<and> used \<ge> ulong (dict_force_resize_ratio * size0)
     then
       if dictTypeResizeAllowed ty d (ulong (used + 1))
       then do { (d, _) \<leftarrow> dictExpand d (ulong (used + 1)); Some (d, True) }
       else Some (d, True)
     else Some (d, False))"

definition dictExpandIfNeeded_auto ::
  "dictResizeEnable \<Rightarrow> ('k, 'v) dictType \<Rightarrow> ('k, 'v) dict \<Rightarrow> ('k, 'v) dict option" where
  "dictExpandIfNeeded_auto cr ty d =
     (if pauseAutoResize d > 0 then Some d
      else do { (d, _) \<leftarrow> dictExpandIfNeeded cr ty d; Some d })"

definition dictShrinkIfNeeded ::
  "dictResizeEnable \<Rightarrow> ('k, 'v) dictType \<Rightarrow> ('k, 'v) dict \<Rightarrow> (('k, 'v) dict \<times> bool) option" where
  "dictShrinkIfNeeded cr ty d = (
     let used = ht_used (ht0 d); size0 = DICTHT_SIZE (ht_size_exp (ht0 d)) in
     if dictIsRehashing d then Some (d, True)
     else if size0 \<le> DICT_HT_INITIAL_SIZE then Some (d, True)
     else if cr = DICT_RESIZE_ENABLE \<and> ulong (used * HASHTABLE_MIN_FILL) \<le> size0 \<or>
             cr \<noteq> DICT_RESIZE_FORBID \<and>
               ulong (used * HASHTABLE_MIN_FILL * dict_force_resize_ratio) \<le> size0
     then
       if dictTypeResizeAllowed ty d used
       then do { (d, _) \<leftarrow> dictShrink d used; Some (d, True) }
       else Some (d, True)
     else Some (d, False))"

definition dictShrinkIfNeeded_auto ::
  "dictResizeEnable \<Rightarrow> ('k, 'v) dictType \<Rightarrow> ('k, 'v) dict \<Rightarrow> ('k, 'v) dict option" where
  "dictShrinkIfNeeded_auto cr ty d =
     (if pauseAutoResize d > 0 then Some d
      else do { (d, _) \<leftarrow> dictShrinkIfNeeded cr ty d; Some d })"

section \<open>Lookup, insertion and removal\<close>

text \<open>
  The step of rehashing that \<open>dictFind\<close>, \<open>dictGenericDelete\<close> and \<open>dictFindPositionForInsert\<close> make
  before they look at the tables; \<open>idx\<close> is the bucket of the key in the first table.
\<close>

definition rehash_for_access ::
  "dictResizeEnable \<Rightarrow> ('k, 'v) dictType \<Rightarrow> ('k, 'v) dict \<Rightarrow> nat \<Rightarrow> ('k, 'v) dict option" where
  "rehash_for_access cr ty d idx =
     (if dictIsRehashing d then
        if int idx \<ge> rehashidx d then do {
          b \<leftarrow> aref (ht_table (ht0 d)) idx;
          if b \<noteq> [] then do { (d, _) \<leftarrow> dictBucketRehash cr ty d idx; Some d }
          else dictRehashStep cr ty d
        }
        else dictRehashStep cr ty d
      else Some d)"

text \<open>The place of the key in a chain; \<open>key == he_key || cmpFunc(d, key, he_key)\<close>.\<close>

fun chain_find :: "('k \<Rightarrow> 'k \<Rightarrow> bool) \<Rightarrow> 'k \<Rightarrow> nat \<Rightarrow> ('k, 'v) chain \<Rightarrow> nat option" where
  "chain_find cmp key pos [] = None"
| "chain_find cmp key pos (he # rest) =
     (if key = dictGetKey he \<or> cmp key (dictGetKey he) then Some pos
      else chain_find cmp key (pos + 1) (dictGetNext he rest))"

text \<open>
  The loop \<open>for (table = 0; table <= 1; table++)\<close> of the three functions: the entry, or its absence
  together with the last bucket index that was computed.
\<close>

definition table_search ::
  "('k, 'v) dictType \<Rightarrow> ('k, 'v) dict \<Rightarrow> 64 word \<Rightarrow> nat \<Rightarrow> 'k \<Rightarrow> (entry_ref + nat) option" where
  "table_search ty d h table' key = do {
     let idx = hash_idx h (ht_size_exp (dict_ht d table'));
     chain \<leftarrow> aref (ht_table (dict_ht d table')) idx;
     case chain_find (dictGetKeyCmpFunc ty (useStoredKeyApi d)) key 0 chain of
       Some pos \<Rightarrow> Some (Inl (table', idx, pos))
     | None \<Rightarrow> Some (Inr idx)
   }"

definition tables_search ::
  "('k, 'v) dictType \<Rightarrow> ('k, 'v) dict \<Rightarrow> 64 word \<Rightarrow> nat \<Rightarrow> 'k \<Rightarrow> (entry_ref + nat) option" where
  "tables_search ty d h idx key =
     (if int idx < rehashidx d then table_search ty d h 1 key
      else do {
        r \<leftarrow> table_search ty d h 0 key;
        case r of
          Inl ref \<Rightarrow> Some (Inl ref)
        | Inr idx \<Rightarrow> if \<not> dictIsRehashing d then Some (Inr idx) else table_search ty d h 1 key
      })"

definition dictFind ::
  "dictResizeEnable \<Rightarrow> ('k, 'v) dictType \<Rightarrow> ('k, 'v) dict \<Rightarrow> 'k \<Rightarrow> (('k, 'v) dict \<times> entry_ref option) option" where
  "dictFind cr ty d key =
     (if dictSize d = 0 then Some (d, None)
      else do {
        let h = dictHashKey ty key (useStoredKeyApi d);
        let idx = hash_idx h (ht_size_exp (ht0 d));
        d \<leftarrow> rehash_for_access cr ty d idx;
        r \<leftarrow> tables_search ty d h idx key;
        case r of Inl ref \<Rightarrow> Some (d, Some ref) | Inr _ \<Rightarrow> Some (d, None)
      })"

text \<open>What a pointer to an entry points to, and the update of the entry in place.\<close>

definition entry_at :: "('k, 'v) dict \<Rightarrow> entry_ref \<Rightarrow> ('k, 'v) dictEntry option" where
  "entry_at d ref = (case ref of (t, i, p) \<Rightarrow> do { c \<leftarrow> aref (ht_table (dict_ht d t)) i; aref c p })"

definition set_chain :: "nat \<Rightarrow> nat \<Rightarrow> ('k, 'v) chain \<Rightarrow> ('k, 'v) dict \<Rightarrow> ('k, 'v) dict" where
  "set_chain t i c = dict_ht_update t (\<lambda>ht. ht\<lparr>ht_table := (ht_table ht)[i := c]\<rparr>)"

definition set_entry :: "('k, 'v) dict \<Rightarrow> entry_ref \<Rightarrow> ('k, 'v) dictEntry \<Rightarrow> ('k, 'v) dict option" where
  "set_entry d ref e = (case ref of (t, i, p) \<Rightarrow> do {
     c \<leftarrow> aref (ht_table (dict_ht d t)) i;
     Some (set_chain t i (c[p := e]) d) })"

definition dictFetchValue ::
  "dictResizeEnable \<Rightarrow> ('k, 'v) dictType \<Rightarrow> ('k, 'v) dict \<Rightarrow> 'k \<Rightarrow> (('k, 'v) dict \<times> 'v option) option" where
  "dictFetchValue cr ty d key = do {
     (d, he) \<leftarrow> dictFind cr ty d key;
     case he of
       None \<Rightarrow> Some (d, None)
     | Some ref \<Rightarrow> do { e \<leftarrow> entry_at d ref; v \<leftarrow> dictGetVal e; Some (d, v) }
   }"

text \<open>\<open>dictFindPositionForInsert\<close>: \<open>Inl\<close> the existing entry, \<open>Inr\<close> the table and bucket to insert at.\<close>

definition dictFindPositionForInsert ::
  "dictResizeEnable \<Rightarrow> ('k, 'v) dictType \<Rightarrow> ('k, 'v) dict \<Rightarrow> 'k \<Rightarrow>
   (('k, 'v) dict \<times> (entry_ref + nat \<times> nat)) option" where
  "dictFindPositionForInsert cr ty d key = do {
     let hash = dictHashKey ty key (useStoredKeyApi d);
     let idx = hash_idx hash (ht_size_exp (ht0 d));
     d \<leftarrow> rehash_for_access cr ty d idx;
     d \<leftarrow> dictExpandIfNeeded_auto cr ty d;
     r \<leftarrow> tables_search ty d hash idx key;
     case r of
       Inl ref \<Rightarrow> Some (d, Inl ref)
     | Inr idx \<Rightarrow> Some (d, Inr (if dictIsRehashing d then 1 else 0, idx))
   }"

definition dictInsertAtPosition ::
  "('k, 'v) dictType \<Rightarrow> ('k, 'v) dict \<Rightarrow> 'k \<Rightarrow> nat \<times> nat \<Rightarrow> (('k, 'v) dict \<times> entry_ref) option" where
  "dictInsertAtPosition ty d key position = (case position of (t, i) \<Rightarrow> do {
     let htidx = (if dictIsRehashing d then 1 else 0);
     c_assert (t = htidx \<and> i \<le> DICTHT_SIZE_MASK (ht_size_exp (dict_ht d htidx)));
     bucket \<leftarrow> aref (ht_table (dict_ht d htidx)) i;
     bucket' \<leftarrow>
       (if no_value ty then
          if keys_are_odd ty \<and> bucket = []
          then do { c_assert (odd_key ty key); Some [KeyPtr key] }
          else Some (NoValue key # bucket)
        else Some (Normal key None # bucket));
     let d = set_chain htidx i bucket' d;
     let d = dict_ht_update htidx (\<lambda>ht. ht\<lparr>ht_used := ht_used ht + 1\<rparr>) d;
     Some (d, (htidx, i, 0))
   })"

definition dictAddRaw ::
  "dictResizeEnable \<Rightarrow> ('k, 'v) dictType \<Rightarrow> ('k, 'v) dict \<Rightarrow> 'k \<Rightarrow>
   (('k, 'v) dict \<times> (entry_ref + entry_ref)) option" where
  "dictAddRaw cr ty d key = do {
     (d, position) \<leftarrow> dictFindPositionForInsert cr ty d key;
     case position of
       Inl existing \<Rightarrow> Some (d, Inl existing)
     | Inr pos \<Rightarrow> do {
         let key = (case keyDup ty of Some f \<Rightarrow> f key | None \<Rightarrow> key);
         (d, entry) \<leftarrow> dictInsertAtPosition ty d key pos;
         Some (d, Inr entry)
       }
   }"

definition set_val_at ::
  "('k, 'v) dictType \<Rightarrow> ('k, 'v) dict \<Rightarrow> entry_ref \<Rightarrow> 'v \<Rightarrow> ('k, 'v) dict option" where
  "set_val_at ty d ref val = do { e \<leftarrow> entry_at d ref; e \<leftarrow> dictSetVal ty val e; set_entry d ref e }"

definition dictAdd ::
  "dictResizeEnable \<Rightarrow> ('k, 'v) dictType \<Rightarrow> ('k, 'v) dict \<Rightarrow> 'k \<Rightarrow> 'v \<Rightarrow> (('k, 'v) dict \<times> bool) option" where
  "dictAdd cr ty d key val = do {
     (d, r) \<leftarrow> dictAddRaw cr ty d key;
     case r of
       Inl _ \<Rightarrow> Some (d, False)
     | Inr entry \<Rightarrow>
         if \<not> no_value ty then do { d \<leftarrow> set_val_at ty d entry val; Some (d, True) }
         else Some (d, True)
   }"

definition dictReplace ::
  "dictResizeEnable \<Rightarrow> ('k, 'v) dictType \<Rightarrow> ('k, 'v) dict \<Rightarrow> 'k \<Rightarrow> 'v \<Rightarrow> (('k, 'v) dict \<times> bool) option" where
  "dictReplace cr ty d key val = do {
     (d, r) \<leftarrow> dictAddRaw cr ty d key;
     case r of
       Inr entry \<Rightarrow> do { d \<leftarrow> set_val_at ty d entry val; Some (d, True) }
     | Inl existing \<Rightarrow> do {
         e \<leftarrow> entry_at d existing;
         oldval \<leftarrow> dictGetVal e;
         d \<leftarrow> set_val_at ty d existing val;
         Some (d, False)
       }
   }"

definition dictAddOrFind ::
  "dictResizeEnable \<Rightarrow> ('k, 'v) dictType \<Rightarrow> ('k, 'v) dict \<Rightarrow> 'k \<Rightarrow> (('k, 'v) dict \<times> entry_ref) option" where
  "dictAddOrFind cr ty d key = do {
     (d, r) \<leftarrow> dictAddRaw cr ty d key;
     case r of Inr entry \<Rightarrow> Some (d, entry) | Inl existing \<Rightarrow> Some (d, existing)
   }"

text \<open>
  Unlinking the entry at place \<open>pos\<close> of a chain: the predecessor's \<open>next\<close>, or the bucket, gets the
  entry's \<open>next\<close>.
\<close>

fun chain_unlink :: "nat \<Rightarrow> ('k, 'v) chain \<Rightarrow> ('k, 'v) chain option" where
  "chain_unlink pos [] = None"
| "chain_unlink 0 (he # rest) = Some (dictGetNext he rest)"
| "chain_unlink (Suc 0) (prevHe # he # rest) = dictSetNext prevHe (dictGetNext he rest)"
| "chain_unlink (Suc 0) [prevHe] = None"
| "chain_unlink (Suc (Suc n)) (e # rest) = do { r \<leftarrow> chain_unlink (Suc n) rest; Some (e # r) }"

definition unlink_ref ::
  "('k, 'v) dict \<Rightarrow> entry_ref \<Rightarrow> (('k, 'v) dict \<times> ('k, 'v) dictEntry) option" where
  "unlink_ref d ref = (case ref of (t, i, p) \<Rightarrow> do {
     he \<leftarrow> entry_at d ref;
     chain \<leftarrow> aref (ht_table (dict_ht d t)) i;
     chain' \<leftarrow> chain_unlink p chain;
     let d = set_chain t i chain' d;
     Some (dict_ht_update t (\<lambda>ht. ht\<lparr>ht_used := ht_used ht - 1\<rparr>) d, he)
   })"

definition dictGenericDelete ::
  "dictResizeEnable \<Rightarrow> ('k, 'v) dictType \<Rightarrow> ('k, 'v) dict \<Rightarrow> 'k \<Rightarrow>
   (('k, 'v) dict \<times> ('k, 'v) dictEntry option) option" where
  "dictGenericDelete cr ty d key =
     (if dictSize d = 0 then Some (d, None)
      else do {
        let h = dictHashKey ty key (useStoredKeyApi d);
        let idx = hash_idx h (ht_size_exp (ht0 d));
        d \<leftarrow> rehash_for_access cr ty d idx;
        r \<leftarrow> tables_search ty d h idx key;
        case r of
          Inl ref \<Rightarrow> do {
            (d, he) \<leftarrow> unlink_ref d ref;
            d \<leftarrow> dictShrinkIfNeeded_auto cr ty d;
            Some (d, Some he)
          }
        | Inr _ \<Rightarrow> Some (d, None)
      })"

definition dictDelete ::
  "dictResizeEnable \<Rightarrow> ('k, 'v) dictType \<Rightarrow> ('k, 'v) dict \<Rightarrow> 'k \<Rightarrow> (('k, 'v) dict \<times> bool) option" where
  "dictDelete cr ty d key =
     do { (d, he) \<leftarrow> dictGenericDelete cr ty d key; Some (d, he \<noteq> None) }"

definition dictUnlink ::
  "dictResizeEnable \<Rightarrow> ('k, 'v) dictType \<Rightarrow> ('k, 'v) dict \<Rightarrow> 'k \<Rightarrow>
   (('k, 'v) dict \<times> ('k, 'v) dictEntry option) option" where
  "dictUnlink cr ty d key = dictGenericDelete cr ty d key"

text \<open>The two-phase removal: the found entry's link, with rehashing paused until it is used.\<close>

definition dictTwoPhaseUnlinkFind ::
  "dictResizeEnable \<Rightarrow> ('k, 'v) dictType \<Rightarrow> ('k, 'v) dict \<Rightarrow> 'k \<Rightarrow> (('k, 'v) dict \<times> entry_ref option) option" where
  "dictTwoPhaseUnlinkFind cr ty d key =
     (if dictSize d = 0 then Some (d, None)
      else do {
        d \<leftarrow> (if dictIsRehashing d then dictRehashStep cr ty d else Some d);
        let h = dictHashKey ty key (useStoredKeyApi d);
        r \<leftarrow> tables_search ty d h (hash_idx h (ht_size_exp (ht0 d))) key;
        case r of
          Inl ref \<Rightarrow> Some (dictPauseRehashing d, Some ref)
        | Inr _ \<Rightarrow> Some (d, None)
      })"

definition dictTwoPhaseUnlinkFree ::
  "dictResizeEnable \<Rightarrow> ('k, 'v) dictType \<Rightarrow> ('k, 'v) dict \<Rightarrow> entry_ref option \<Rightarrow> ('k, 'v) dict option" where
  "dictTwoPhaseUnlinkFree cr ty d he =
     (case he of
        None \<Rightarrow> Some d
      | Some ref \<Rightarrow> do {
          (d, _) \<leftarrow> unlink_ref d ref;
          d \<leftarrow> dictShrinkIfNeeded_auto cr ty d;
          Some (dictResumeRehashing d)
        })"

text \<open>
  \<open>_dictClear\<close>: the entries released, in the order of the loop, which stops when the count of
  entries is used up.
\<close>

fun clear_chain :: "('k, 'v) chain \<Rightarrow> nat \<Rightarrow> ('k, 'v) dictEntry list \<times> nat" where
  "clear_chain [] used = ([], used)"
| "clear_chain (he # rest) used =
     (let (f, used) = clear_chain (dictGetNext he rest) (used - 1) in (he # f, used))"

fun clear_loop :: "('k, 'v) chain list \<Rightarrow> nat \<Rightarrow> ('k, 'v) dictEntry list" where
  "clear_loop [] used = []"
| "clear_loop (c # cs) used =
     (if used > 0 then (let (f, used) = clear_chain c used in f @ clear_loop cs used) else [])"

definition dictClear :: "('k, 'v) dict \<Rightarrow> nat \<Rightarrow> ('k, 'v) dict \<times> ('k, 'v) dictEntry list" where
  "dictClear d htidx =
     (dict_ht_update htidx (\<lambda>_. dictReset) d,
      clear_loop (ht_table (dict_ht d htidx)) (ht_used (dict_ht d htidx)))"

definition dictEmpty :: "('k, 'v) dict \<Rightarrow> ('k, 'v) dict \<times> ('k, 'v) dictEntry list" where
  "dictEmpty d = (
     let (d, freed0) = dictClear d 0; (d, freed1) = dictClear d 1 in
     (d\<lparr>rehashidx := -1, pauserehash := 0, pauseAutoResize := 0\<rparr>, freed0 @ freed1))"

definition dictRelease :: "('k, 'v) dict \<Rightarrow> ('k, 'v) dictEntry list" where
  "dictRelease d = (let (d, freed0) = dictClear d 0; (d, freed1) = dictClear d 1 in freed0 @ freed1)"

definition dictFindEntryByPtrAndHash ::
  "('k, 'v) dictType \<Rightarrow> ('k, 'v) dict \<Rightarrow> 'k \<Rightarrow> 64 word \<Rightarrow> entry_ref option option" where
  "dictFindEntryByPtrAndHash ty d oldptr hash =
     (if dictSize d = 0 then Some None
      else do {
        r \<leftarrow> tables_search (ty\<lparr>keyCompare := None, storedKeyCompare := None\<rparr>) d hash
               (hash_idx hash (ht_size_exp (ht0 d))) oldptr;
        case r of Inl ref \<Rightarrow> Some (Some ref) | Inr _ \<Rightarrow> Some None
      })"

end
