(* ===== verification/Dict_Correct.thy ===== *)
theory Dict_Correct
  imports Dict "HOL-Library.Multiset"
begin

text \<open>
  The invariant of the hash table and the map it stands for. A dictionary is described by the
  bag of its bindings: rehashing and resizing keep the bag, an insertion adds one binding, a
  removal takes one away.
\<close>

section \<open>Indices\<close>

lemma word_of_nat_mask: "(word_of_nat (2 ^ n - 1) :: 64 word) = mask n"
  by (simp add: mask_eq_exp_minus_1 of_nat_diff)

lemma hash_idx_mod:
  assumes "0 \<le> e"
  shows "hash_idx h e = unat h mod 2 ^ nat e"
proof -
  have "h AND word_of_nat (DICTHT_SIZE_MASK e) = take_bit (nat e) h"
    using assms word_of_nat_mask[of "nat e"]
    by (simp add: DICTHT_SIZE_MASK_def DICTHT_SIZE_def take_bit_eq_mask)
  then have "hash_idx h e = take_bit (nat e) (unat h)"
    by (simp add: hash_idx_def unsigned_take_bit_eq)
  then show ?thesis by (simp add: take_bit_eq_mod)
qed

lemma hash_idx_less: "0 \<le> e \<Longrightarrow> hash_idx h e < 2 ^ nat e"
  by (simp add: hash_idx_mod)

lemma hash_idx_shrink:
  assumes "0 \<le> e'" "e' \<le> e" "e \<le> 63"
  shows "hash_idx (word_of_nat (hash_idx h e)) e' = hash_idx h e'"
proof -
  have "hash_idx h e < 2 ^ 64"
  proof -
    have "nat e < 64" using assms by linarith
    from power_strict_increasing[OF this, of "2::nat"] show ?thesis
      using hash_idx_less[of e h] assms by linarith
  qed
  then have "unat (word_of_nat (hash_idx h e) :: 64 word) = hash_idx h e"
    by (simp add: unat_of_nat)
  moreover have "(2::nat) ^ nat e' dvd 2 ^ nat e"
    using assms by (intro le_imp_power_dvd) simp
  ultimately show ?thesis
    using assms by (simp add: hash_idx_mod mod_mod_cancel)
qed

lemma DICTHT_SIZE_pow: "0 \<le> e \<Longrightarrow> DICTHT_SIZE e = 2 ^ nat e"
  by (simp add: DICTHT_SIZE_def)

lemma bitlen_least: "(n < 2 ^ k) \<longleftrightarrow> bitlen n \<le> k"
proof (induction n arbitrary: k rule: bitlen.induct)
  case (1 n)
  show ?case
  proof (cases "n = 0")
    case True
    then show ?thesis by (simp add: bitlen.simps)
  next
    case False
    show ?thesis
    proof (cases k)
      case 0
      then show ?thesis using False by (simp add: bitlen.simps)
    next
      case (Suc k')
      then show ?thesis using 1[OF False, of k'] False
        by (simp add: bitlen.simps[of n]) linarith
    qed
  qed
qed

section \<open>Bags of lists of chains\<close>

lemma concat_update_split:
  "i < length xs \<Longrightarrow> concat (xs[i := c]) = concat (take i xs) @ c @ concat (drop (Suc i) xs)"
  by (simp add: upd_conv_take_nth_drop)

lemma concat_split:
  "i < length xs \<Longrightarrow> concat xs = concat (take i xs) @ xs ! i @ concat (drop (Suc i) xs)"
  using concat_update_split[of i xs "xs ! i"] by simp

lemma mset_concat_update:
  assumes "i < length xs"
  shows "mset (map f (concat (xs[i := c]))) + mset (map f (xs ! i)) = mset (map f (concat xs)) + mset (map f c)"
  unfolding concat_update_split[OF assms] using concat_split[OF assms] by simp

lemma length_concat_update:
  "i < length xs \<Longrightarrow> length (concat (xs[i := c])) + length (xs ! i) = length (concat xs) + length c"
  using mset_concat_update[of i xs id c] by (metis length_map size_mset size_union)

lemma set_concat_nth: "x \<in> set (concat xs) \<longleftrightarrow> (\<exists>i < length xs. x \<in> set (xs ! i))"
  unfolding set_concat by (auto, metis in_set_conv_nth)

section \<open>The invariant\<close>

fun entry_val :: "('k, 'v) dictEntry \<Rightarrow> 'v option" where
  "entry_val (Normal _ v) = v"
| "entry_val _ = None"

definition kv :: "('k, 'v) dictEntry \<Rightarrow> 'k \<times> 'v option" where
  "kv e = (dictGetKey e, entry_val e)"

definition dict_entries :: "('k, 'v) dict \<Rightarrow> ('k, 'v) dictEntry list" where
  "dict_entries d = concat (ht_table (ht0 d)) @ concat (ht_table (ht1 d))"

definition dict_bag :: "('k, 'v) dict \<Rightarrow> ('k \<times> 'v option) multiset" where
  "dict_bag d = mset (map kv (dict_entries d))"

definition dict_map :: "('k, 'v) dict \<Rightarrow> 'k \<rightharpoonup> 'v option" where
  "dict_map d = map_of (map kv (dict_entries d))"

text \<open>What the callbacks of a type promise: comparisons decide equality of keys, the functions for
  stored keys agree with the ones for lookup keys, duplicates equal the original, and keys that are
  declared odd are.\<close>

definition type_ok :: "('k, 'v) dictType \<Rightarrow> bool" where
  "type_ok ty \<longleftrightarrow>
     (\<forall>f. keyCompare ty = Some f \<longrightarrow> f = (=)) \<and>
     (\<forall>f. storedKeyCompare ty = Some f \<longrightarrow> f = (=)) \<and>
     (\<forall>f. storedHashFunction ty = Some f \<longrightarrow> f = hashFunction ty) \<and>
     (\<forall>f. keyDup ty = Some f \<longrightarrow> f = id) \<and>
     (\<forall>f. valDup ty = Some f \<longrightarrow> f = id) \<and>
     (no_value ty \<and> keys_are_odd ty \<longrightarrow> (\<forall>k. odd_key ty k))"

definition entry_ok :: "('k, 'v) dictType \<Rightarrow> ('k, 'v) dictEntry \<Rightarrow> bool" where
  "entry_ok ty e \<longleftrightarrow>
     (if no_value ty then entryIsNoValue e \<or> entryIsKey e \<and> keys_are_odd ty else entryHasValue e)"

definition chain_ok :: "('k, 'v) dictType \<Rightarrow> ('k, 'v) chain \<Rightarrow> bool" where
  "chain_ok ty c \<longleftrightarrow> (\<forall>e \<in> set c. entry_ok ty e) \<and> (\<forall>e \<in> set (butlast c). \<not> entryIsKey e)"

definition bucket_ok :: "('k, 'v) dictType \<Rightarrow> int \<Rightarrow> nat \<Rightarrow> ('k, 'v) chain \<Rightarrow> bool" where
  "bucket_ok ty e i c \<longleftrightarrow> chain_ok ty c \<and> (\<forall>x \<in> set c. hash_idx (hashFunction ty (dictGetKey x)) e = i)"

definition ht_ok :: "('k, 'v) dictType \<Rightarrow> ('k, 'v) dictht \<Rightarrow> bool" where
  "ht_ok ty ht \<longleftrightarrow>
     ht = dictReset \<or>
     2 \<le> ht_size_exp ht \<and> ht_size_exp ht \<le> 60 \<and>
     length (ht_table ht) = 2 ^ nat (ht_size_exp ht) \<and>
     ht_used ht = length (concat (ht_table ht)) \<and>
     (\<forall>i < length (ht_table ht). bucket_ok ty (ht_size_exp ht) i (ht_table ht ! i))"

definition dict_wf :: "('k, 'v) dictType \<Rightarrow> ('k, 'v) dict \<Rightarrow> bool" where
  "dict_wf ty d \<longleftrightarrow>
     ht_ok ty (ht0 d) \<and> ht_ok ty (ht1 d) \<and>
     distinct (map dictGetKey (dict_entries d)) \<and>
     ht_used (ht0 d) + ht_used (ht1 d) < 2 ^ 64 \<and>
     pauserehash d < 2 ^ 15 \<and>
     (if rehashidx d = -1 then ht1 d = dictReset
      else ht_size_exp (ht0 d) \<noteq> -1 \<and> ht_size_exp (ht1 d) \<noteq> -1 \<and>
        ht_size_exp (ht0 d) \<noteq> ht_size_exp (ht1 d) \<and>
        0 \<le> rehashidx d \<and> rehashidx d \<le> int (length (ht_table (ht0 d))) \<and>
        (\<forall>i < nat (rehashidx d). ht_table (ht0 d) ! i = []))"

definition dict_frame :: "('k, 'v) dict \<Rightarrow> ('k, 'v) dict \<Rightarrow> bool" where
  "dict_frame d d' \<longleftrightarrow> pauserehash d' = pauserehash d \<and> useStoredKeyApi d' = useStoredKeyApi d \<and>
     pauseAutoResize d' = pauseAutoResize d"

definition dict_keeps :: "('k, 'v) dictType \<Rightarrow> ('k, 'v) dict \<Rightarrow> ('k, 'v) dict \<Rightarrow> bool" where
  "dict_keeps ty d d' \<longleftrightarrow> dict_wf ty d' \<and> dict_bag d' = dict_bag d \<and> dict_frame d d'"

lemma dict_keeps_refl: "dict_wf ty d \<Longrightarrow> dict_keeps ty d d"
  by (simp add: dict_keeps_def dict_frame_def)

lemma dict_keeps_trans: "dict_keeps ty d d' \<Longrightarrow> dict_keeps ty d' d'' \<Longrightarrow> dict_keeps ty d d''"
  by (simp add: dict_keeps_def dict_frame_def)

lemma dictReset_simps [simp]: "ht_table dictReset = []" "ht_used dictReset = 0" "ht_size_exp dictReset = -1"
  by (simp_all add: dictReset_def)

lemma ht_ok_Reset [simp]: "ht_ok ty dictReset"
  by (simp add: ht_ok_def)

lemma ht_ok_used: "ht_ok ty ht \<Longrightarrow> ht_used ht = length (concat (ht_table ht))"
  by (auto simp: ht_ok_def)

lemma ht_ok_exp: "ht_ok ty ht \<Longrightarrow> ht_size_exp ht = -1 \<longleftrightarrow> ht = dictReset"
  by (auto simp: ht_ok_def)

lemma ht_ok_table: "ht_ok ty ht \<Longrightarrow> ht_table ht = [] \<longleftrightarrow> ht = dictReset"
  by (auto simp: ht_ok_def)

lemma ht_okD:
  assumes "ht_ok ty ht" "ht_size_exp ht \<noteq> -1"
  shows "2 \<le> ht_size_exp ht" "ht_size_exp ht \<le> 60" "length (ht_table ht) = 2 ^ nat (ht_size_exp ht)"
    "\<And>i. i < length (ht_table ht) \<Longrightarrow> bucket_ok ty (ht_size_exp ht) i (ht_table ht ! i)"
  using assms by (auto simp: ht_ok_def)

lemma ht_ok_size: "ht_ok ty ht \<Longrightarrow> DICTHT_SIZE (ht_size_exp ht) = length (ht_table ht)"
  by (auto simp: ht_ok_def DICTHT_SIZE_def)

lemma ht_ok_small:
  assumes "ht_ok ty ht"
  shows "length (ht_table ht) \<le> 2 ^ 60"
proof (cases "ht = dictReset")
  case False
  then have e: "ht_size_exp ht \<noteq> -1" using ht_ok_exp[OF assms] by simp
  have "nat (ht_size_exp ht) \<le> 60" using ht_okD(2)[OF assms e] by linarith
  from power_increasing[OF this, of "2::nat"] show ?thesis by (simp only: ht_okD(3)[OF assms e])
qed simp

lemma hash_idx_in: "ht_ok ty ht \<Longrightarrow> ht_size_exp ht \<noteq> -1 \<Longrightarrow> hash_idx h (ht_size_exp ht) < length (ht_table ht)"
  using ht_okD(1,3)[of ty ht] hash_idx_less[of "ht_size_exp ht" h] by simp

lemma dict_wfD:
  assumes "dict_wf ty d"
  shows "ht_ok ty (ht0 d)" "ht_ok ty (ht1 d)" "distinct (map dictGetKey (dict_entries d))"
    "ht_used (ht0 d) + ht_used (ht1 d) < 2 ^ 64" "pauserehash d < 2 ^ 15"
  using assms by (simp_all add: dict_wf_def)

lemma dict_wf_rehashing:
  assumes "dict_wf ty d" "dictIsRehashing d"
  shows "ht_size_exp (ht0 d) \<noteq> -1" "ht_size_exp (ht1 d) \<noteq> -1"
    "ht_size_exp (ht0 d) \<noteq> ht_size_exp (ht1 d)" "0 \<le> rehashidx d"
    "rehashidx d \<le> int (length (ht_table (ht0 d)))"
    "\<And>i. i < nat (rehashidx d) \<Longrightarrow> ht_table (ht0 d) ! i = []"
  using assms by (simp_all add: dict_wf_def dictIsRehashing_def)

lemma dict_wf_idle: "dict_wf ty d \<Longrightarrow> \<not> dictIsRehashing d \<Longrightarrow> ht1 d = dictReset \<and> rehashidx d = -1"
  by (simp add: dict_wf_def dictIsRehashing_def)

lemma dictSize_entries:
  assumes "dict_wf ty d"
  shows "dictSize d = length (dict_entries d)"
  using dict_wfD[OF assms] by (simp add: dictSize_def ulong_def dict_entries_def ht_ok_used)

lemma dict_bag_keys: "image_mset fst (dict_bag d) = mset (map dictGetKey (dict_entries d))"
  by (simp add: dict_bag_def kv_def comp_def flip: mset_map)


section \<open>Chains\<close>

lemma chain_ok_Nil [simp]: "chain_ok ty []"
  by (simp add: chain_ok_def)

lemma chain_ok_Cons:
  "chain_ok ty (e # c) \<longleftrightarrow> entry_ok ty e \<and> (c = [] \<or> \<not> entryIsKey e) \<and> chain_ok ty c"
  by (auto simp: chain_ok_def)

lemma chain_ok_next: "chain_ok ty (e # c) \<Longrightarrow> dictGetNext e c = c"
  by (auto simp: chain_ok_Cons dictGetNext_def)

lemma chain_walk_ok: "chain_ok ty c \<Longrightarrow> chain_walk c = c"
  by (induction c) (auto simp: chain_ok_next chain_ok_Cons)

lemma chain_ok_update:
  "chain_ok ty c \<Longrightarrow> p < length c \<Longrightarrow> entry_ok ty e \<Longrightarrow> entryIsKey e = entryIsKey (c ! p) \<Longrightarrow> chain_ok ty (c[p := e])"
proof (induction c arbitrary: p)
  case (Cons x c)
  then show ?case by (cases p) (auto simp: chain_ok_Cons)
qed simp

lemma chain_ok_remove:
  "chain_ok ty c \<Longrightarrow> p < length c \<Longrightarrow> chain_ok ty (take p c @ drop (Suc p) c)"
proof (induction c arbitrary: p)
  case (Cons x c)
  then show ?case
    by (cases p) (auto simp: chain_ok_Cons)
qed simp

lemma chain_unlink_ok:
  "chain_ok ty c \<Longrightarrow> p < length c \<Longrightarrow> chain_unlink p c = Some (take p c @ drop (Suc p) c)"
proof (induction p c rule: chain_unlink.induct)
  case (3 prevHe he rest)
  then show ?case by (auto simp: dictSetNext_def chain_ok_Cons chain_ok_next)
next
  case (5 n e rest)
  then show ?case by (auto simp: chain_ok_Cons)
qed (auto simp: chain_ok_next)

lemma rehash_entry_ok:
  assumes "type_ok ty" "entry_ok ty e" "chain_ok ty c"
  shows "\<exists>e'. rehash_entry ty e c = Some (e' # c) \<and> kv e' = kv e \<and> chain_ok ty (e' # c)"
  using assms
  by (cases e) (auto simp: rehash_entry_def Let_def entry_ok_def chain_ok_Cons type_ok_def kv_def
      dictSetNext_def split: if_splits)

section \<open>Moving a bucket\<close>

lemma bucket_ok_Cons:
  "bucket_ok ty e i (x # c) \<longleftrightarrow>
     chain_ok ty (x # c) \<and> hash_idx (hashFunction ty (dictGetKey x)) e = i \<and> bucket_ok ty e i c"
  by (auto simp: bucket_ok_def chain_ok_Cons)

lemma bucket_ok_Nil [simp]: "bucket_ok ty e i []"
  by (simp add: bucket_ok_def)

lemma bucket_ok_chain: "bucket_ok ty e i c \<Longrightarrow> chain_ok ty c"
  by (simp add: bucket_ok_def)

lemma ht_ok_update:
  assumes "ht_ok ty ht" "i < length (ht_table ht)" "bucket_ok ty (ht_size_exp ht) i c"
    "u + length (ht_table ht ! i) = ht_used ht + length c"
  shows "ht_ok ty (ht\<lparr>ht_table := (ht_table ht)[i := c], ht_used := u\<rparr>)"
proof -
  have "ht \<noteq> dictReset" using assms(2) by auto
  then have ok: "2 \<le> ht_size_exp ht" "ht_size_exp ht \<le> 60" "length (ht_table ht) = 2 ^ nat (ht_size_exp ht)"
    "ht_used ht = length (concat (ht_table ht))"
    "\<forall>i < length (ht_table ht). bucket_ok ty (ht_size_exp ht) i (ht_table ht ! i)"
    using assms(1) by (auto simp: ht_ok_def)
  have "u = length (concat ((ht_table ht)[i := c]))"
    using length_concat_update[OF assms(2), of c] assms(4) ok(4) by linarith
  moreover have "\<forall>j < length (ht_table ht). bucket_ok ty (ht_size_exp ht) j ((ht_table ht)[i := c] ! j)"
    using ok(5) assms(2,3) by (auto simp: nth_list_update)
  ultimately show ?thesis using ok(1,2,3) by (simp add: ht_ok_def)
qed

lemma dictHashKey_ok: "type_ok ty \<Longrightarrow> dictHashKey ty key b = hashFunction ty key"
  by (auto simp: dictHashKey_def type_ok_def split: option.splits)

lemma dictGetKeyCmpFunc_ok: "type_ok ty \<Longrightarrow> dictGetKeyCmpFunc ty b = (=)"
  by (auto simp: dictGetKeyCmpFunc_def type_ok_def split: option.splits if_splits)

definition moved :: "('k, 'v) dict \<Rightarrow> ('k, 'v) chain list \<Rightarrow> nat \<Rightarrow> ('k, 'v) dict" where
  "moved d t n = d\<lparr>ht0 := (ht0 d)\<lparr>ht_used := ht_used (ht0 d) - n\<rparr>,
     ht1 := (ht1 d)\<lparr>ht_table := t, ht_used := ht_used (ht1 d) + n\<rparr>\<rparr>"

lemma moved_simps [simp]:
  "ht_table (ht0 (moved d t n)) = ht_table (ht0 d)" "ht_size_exp (ht0 (moved d t n)) = ht_size_exp (ht0 d)"
  "ht_used (ht0 (moved d t n)) = ht_used (ht0 d) - n"
  "ht_table (ht1 (moved d t n)) = t" "ht_size_exp (ht1 (moved d t n)) = ht_size_exp (ht1 d)"
  "ht_used (ht1 (moved d t n)) = ht_used (ht1 d) + n" "rehashidx (moved d t n) = rehashidx d"
  "moved (moved d t n) t' n' = moved d t' (n + n')"
  by (simp_all add: moved_def ac_simps)

lemma rehash_chain_ok:
  assumes "type_ok ty" "ht_ok ty (ht1 d)" "ht_size_exp (ht1 d) \<noteq> -1"
    "2 \<le> ht_size_exp (ht0 d)" "ht_size_exp (ht0 d) \<le> 60" "bucket_ok ty (ht_size_exp (ht0 d)) idx c"
  shows "\<exists>t. rehash_chain ty idx c d = Some (moved d t (length c)) \<and> ht_ok ty (ht1 (moved d t (length c))) \<and>
    mset (map kv (concat t)) = mset (map kv c) + mset (map kv (concat (ht_table (ht1 d))))"
  using assms(2-)
proof (induction c arbitrary: d)
  case Nil
  then show ?case by (auto simp: moved_def intro!: exI[of _ "ht_table (ht1 d)"])
next
  case (Cons de rest)
  let ?e0 = "ht_size_exp (ht0 d)" and ?e1 = "ht_size_exp (ht1 d)"
  let ?hk = "hashFunction ty (dictGetKey de)"
  note t1 = ht_okD[OF Cons.prems(1,2)]
  have de: "entry_ok ty de" "hash_idx ?hk ?e0 = idx" "bucket_ok ty ?e0 idx rest" "dictGetNext de rest = rest"
    using Cons.prems(5) by (auto simp: bucket_ok_Cons chain_ok_Cons chain_ok_next)
  define h where "h = hash_idx ?hk ?e1"
  have h: "(if ?e1 > ?e0 then hash_idx (dictHashKey ty (dictGetKey de) True) ?e1
      else hash_idx (word_of_nat idx) ?e1) = h"
    using hash_idx_shrink[of ?e1 ?e0 ?hk] Cons.prems(3,4) t1(1) de(2)
    by (auto simp: h_def dictHashKey_ok[OF assms(1)])
  have hin: "h < length (ht_table (ht1 d))"
    unfolding h_def by (rule hash_idx_in[OF Cons.prems(1,2)])
  obtain e' where e': "rehash_entry ty de (ht_table (ht1 d) ! h) = Some (e' # ht_table (ht1 d) ! h)"
    "kv e' = kv de" "chain_ok ty (e' # ht_table (ht1 d) ! h)"
    using rehash_entry_ok[OF assms(1) de(1) bucket_ok_chain[OF t1(4)[OF hin]]] by auto
  let ?t = "(ht_table (ht1 d))[h := e' # ht_table (ht1 d) ! h]"
  let ?d = "moved d ?t 1"
  have step: "rehash_chain ty idx (de # rest) d = rehash_chain ty idx rest ?d"
    using hin e'(1) by (simp only: rehash_chain.simps h Let_def aref_in Option.bind.simps de(4) moved_def)
  have "bucket_ok ty ?e1 h (e' # ht_table (ht1 d) ! h)"
    using t1(4)[OF hin] e'(2,3) by (simp add: bucket_ok_Cons h_def kv_def)
  from ht_ok_update[OF Cons.prems(1) hin this, of "ht_used (ht1 d) + 1"]
  have ok1: "ht_ok ty (ht1 ?d)" by (simp add: moved_def)
  from Cons.IH[of ?d] ok1 Cons.prems de(3)
  obtain t where t: "rehash_chain ty idx rest ?d = Some (moved ?d t (length rest))"
    "ht_ok ty (ht1 (moved ?d t (length rest)))"
    "mset (map kv (concat t)) = mset (map kv rest) + mset (map kv (concat ?t))"
    by auto
  have "mset (map kv (concat ?t)) = add_mset (kv de) (mset (map kv (concat (ht_table (ht1 d)))))"
    using mset_concat_update[OF hin, of kv "e' # ht_table (ht1 d) ! h"] e'(2) by simp
  then show ?case using step t by (intro exI[of _ t]) simp
qed

lemma dict_bag_distinct:
  assumes "dict_bag d' = dict_bag d"
  shows "distinct (map dictGetKey (dict_entries d')) \<longleftrightarrow> distinct (map dictGetKey (dict_entries d))"
proof (rule mset_eq_imp_distinct_iff)
  show "mset (map dictGetKey (dict_entries d')) = mset (map dictGetKey (dict_entries d))"
    unfolding dict_bag_keys[symmetric] by (simp add: assms)
qed

lemma dict_bag_tables:
  "dict_bag d = mset (map kv (concat (ht_table (ht0 d)))) + mset (map kv (concat (ht_table (ht1 d))))"
  by (simp add: dict_bag_def dict_entries_def)

text \<open>The size of the bag is the number of entries the two tables count.\<close>

lemma dict_bag_size:
  "ht_ok ty (ht0 d) \<Longrightarrow> ht_ok ty (ht1 d) \<Longrightarrow> size (dict_bag d) = ht_used (ht0 d) + ht_used (ht1 d)"
  by (simp add: dict_bag_def dict_entries_def ht_ok_used)

lemma dict_keepsI:
  assumes "dict_wf ty d" "ht_ok ty (ht0 d')" "ht_ok ty (ht1 d')" "dict_bag d' = dict_bag d"
    "dict_frame d d'"
    "if rehashidx d' = -1 then ht1 d' = dictReset
     else ht_size_exp (ht0 d') \<noteq> -1 \<and> ht_size_exp (ht1 d') \<noteq> -1 \<and>
       ht_size_exp (ht0 d') \<noteq> ht_size_exp (ht1 d') \<and>
       0 \<le> rehashidx d' \<and> rehashidx d' \<le> int (length (ht_table (ht0 d'))) \<and>
       (\<forall>i < nat (rehashidx d'). ht_table (ht0 d') ! i = [])"
  shows "dict_keeps ty d d'"
proof -
  have "ht_used (ht0 d') + ht_used (ht1 d') < 2 ^ 64"
    using dict_bag_size[OF assms(2,3)] dict_bag_size[OF dict_wfD(1,2)[OF assms(1)]] assms(4)
      dict_wfD(4)[OF assms(1)] by simp
  then show ?thesis
    using assms dict_bag_distinct[OF assms(4)] dict_wfD(3,5)[OF assms(1)]
    by (simp add: dict_keeps_def dict_wf_def dict_frame_def)
qed

lemma rehashEntries_ok:
  assumes ty: "type_ok ty" and wf: "dict_wf ty d" and re: "dictIsRehashing d"
    and idx: "idx < length (ht_table (ht0 d))"
  shows "\<exists>d'. rehashEntriesInBucketAtIndex ty d idx = Some d' \<and> dict_keeps ty d d' \<and>
    rehashidx d' = rehashidx d \<and> ht_size_exp (ht0 d') = ht_size_exp (ht0 d) \<and>
    ht_size_exp (ht1 d') = ht_size_exp (ht1 d) \<and> ht_table (ht0 d') = (ht_table (ht0 d))[idx := []]"
proof -
  let ?c = "ht_table (ht0 d) ! idx" and ?n = "length (ht_table (ht0 d) ! idx)"
  note w = dict_wfD[OF wf] and r = dict_wf_rehashing[OF wf re]
  note t0 = ht_okD[OF w(1) r(1)]
  obtain t where t: "rehash_chain ty idx ?c d = Some (moved d t ?n)" "ht_ok ty (ht1 (moved d t ?n))"
    "mset (map kv (concat t)) = mset (map kv ?c) + mset (map kv (concat (ht_table (ht1 d))))"
    using rehash_chain_ok[OF ty w(2) r(2) t0(1,2) t0(4)[OF idx]] by auto
  let ?ht0 = "(ht0 d)\<lparr>ht_table := (ht_table (ht0 d))[idx := []], ht_used := ht_used (ht0 d) - ?n\<rparr>"
  define d' where "d' = (moved d t ?n)\<lparr>ht0 := ?ht0\<rparr>"
  have run: "rehashEntriesInBucketAtIndex ty d idx = Some d'"
    using idx t(1) by (simp add: rehashEntriesInBucketAtIndex_def aref_in d'_def moved_def)
  have "?n \<le> ht_used (ht0 d)"
    using ht_ok_used[OF w(1)] concat_split[OF idx] by simp
  with ht_ok_update[OF w(1) idx, of "[]" "ht_used (ht0 d) - ?n"] have ok0: "ht_ok ty ?ht0" by simp
  have bag: "dict_bag d' = dict_bag d"
    using t(3) mset_concat_update[OF idx, of kv "[]"] by (simp add: dict_bag_tables d'_def)
  have "dict_keeps ty d d'"
  proof (rule dict_keepsI[OF wf _ _ bag])
    show "ht_ok ty (ht0 d')" "ht_ok ty (ht1 d')" using ok0 t(2) by (simp_all add: d'_def)
    show "dict_frame d d'" by (simp add: d'_def dict_frame_def moved_def)
  qed (use r idx in \<open>auto simp: d'_def nth_list_update\<close>)
  with run show ?thesis by (simp add: d'_def)
qed

lemma dictCheckRehashingCompleted_ok:
  assumes wf: "dict_wf ty d" and re: "dictIsRehashing d"
  shows "dict_keeps ty d (fst (dictCheckRehashingCompleted d))"
    "dictIsRehashing (fst (dictCheckRehashingCompleted d)) \<longleftrightarrow> \<not> snd (dictCheckRehashingCompleted d)"
    "\<not> snd (dictCheckRehashingCompleted d) \<Longrightarrow> fst (dictCheckRehashingCompleted d) = d"
    "ht_size_exp (ht0 (fst (dictCheckRehashingCompleted d))) \<noteq> -1"
proof -
  note w = dict_wfD[OF wf] and r = dict_wf_rehashing[OF wf re]
  show "dict_keeps ty d (fst (dictCheckRehashingCompleted d))"
  proof (cases "ht_used (ht0 d) = 0")
    case True
    with ht_ok_used[OF w(1)] have "concat (ht_table (ht0 d)) = []" by simp
    with True show ?thesis
      by (intro dict_keepsI[OF wf])
        (auto simp: dictCheckRehashingCompleted_def w(2) dict_bag_tables dict_frame_def simp del: concat_eq_Nil_conv)
  next
    case False
    then show ?thesis by (simp add: dictCheckRehashingCompleted_def dict_keeps_refl[OF wf])
  qed
qed (use assms dict_wf_rehashing[OF wf re] in
    \<open>simp_all add: dictCheckRehashingCompleted_def dictIsRehashing_def split: if_splits\<close>)

section \<open>Steps of rehashing\<close>

lemma rehash_skip_ok:
  assumes "\<exists>j. i \<le> j \<and> j < length tbl \<and> tbl ! j \<noteq> []"
  shows "(\<exists>i'. rehash_skip tbl i ev = Some (Inl i') \<and> i < i' \<and> i' < length tbl \<and> (\<forall>k. i \<le> k \<and> k < i' \<longrightarrow> tbl ! k = [])) \<or>
    (\<exists>i' ev'. rehash_skip tbl i ev = Some (Inr (i', ev')) \<and> i \<le> i' \<and> i' < length tbl \<and> tbl ! i' \<noteq> [] \<and>
      (\<forall>k. i \<le> k \<and> k < i' \<longrightarrow> tbl ! k = []))"
  using assms
proof (induction tbl i ev rule: rehash_skip.induct)
  case (1 tbl i ev)
  from "1.prems" obtain j where j: "i \<le> j" "j < length tbl" "tbl ! j \<noteq> []" by auto
  show ?case
  proof (cases "tbl ! i = []")
    case False
    then show ?thesis using j by (subst rehash_skip.simps) (auto simp: rehash_skip.simps[of tbl i])
  next
    case True
    with j have "Suc i \<le> j" by (cases "i = j") auto
    show ?thesis
    proof (cases "ev - 1 = 0")
      case ev: True
      then show ?thesis using True j \<open>Suc i \<le> j\<close>
        by (intro disjI1 exI[of _ "i + 1"]) (auto simp: rehash_skip.simps[of tbl i] less_Suc_eq_le)
    next
      case ev: False
      have "rehash_skip tbl i ev = rehash_skip tbl (i + 1) (ev - 1)"
        using True ev j by (subst rehash_skip.simps) simp
      moreover have ext: "\<forall>k. i \<le> k \<and> k < i' \<longrightarrow> tbl ! k = []"
        if "\<forall>k. i + 1 \<le> k \<and> k < i' \<longrightarrow> tbl ! k = []" for i'
        using True that by (metis Suc_eq_plus1 le_antisym not_less_eq_eq)
      moreover have "\<exists>j. i + 1 \<le> j \<and> j < length tbl \<and> tbl ! j \<noteq> []" using j \<open>Suc i \<le> j\<close> by auto
      note "1.IH"[OF _ True ev this]
      ultimately show ?thesis using j by fastforce
    qed
  qed
qed

text \<open>What a number of rehashing steps does: the bindings stay, and either the rehashing is over or
  the index moved on.\<close>

definition rehash_progress :: "('k, 'v) dictType \<Rightarrow> ('k, 'v) dict \<Rightarrow> ('k, 'v) dict \<Rightarrow> bool \<Rightarrow> bool" where
  "rehash_progress ty d d' again \<longleftrightarrow> dict_keeps ty d d' \<and> (dictIsRehashing d' \<longleftrightarrow> again) \<and>
     ht_size_exp (ht0 d') \<noteq> -1 \<and>
     (again \<longrightarrow> ht_size_exp (ht0 d') = ht_size_exp (ht0 d) \<and> ht_size_exp (ht1 d') = ht_size_exp (ht1 d) \<and>
        rehashidx d \<le> rehashidx d')"

lemma rehash_progress_completed:
  assumes "dict_wf ty d" "dictIsRehashing d" "dictCheckRehashingCompleted d = (d', c)"
  shows "rehash_progress ty d d' (\<not> c)"
  using dictCheckRehashingCompleted_ok[OF assms(1,2)] assms(3) by (auto simp: rehash_progress_def)

lemma rehash_progress_trans:
  assumes "rehash_progress ty d d' True" "rehash_progress ty d' d'' again"
  shows "rehash_progress ty d d'' again"
  using assms by (auto simp: rehash_progress_def intro: dict_keeps_trans)

lemma nonempty_bucket:
  assumes wf: "dict_wf ty d" and re: "dictIsRehashing d" and used: "ht_used (ht0 d) \<noteq> 0"
  shows "\<exists>j. nat (rehashidx d) \<le> j \<and> j < length (ht_table (ht0 d)) \<and> ht_table (ht0 d) ! j \<noteq> []"
proof -
  note w = dict_wfD[OF wf] and r = dict_wf_rehashing[OF wf re]
  have "concat (ht_table (ht0 d)) \<noteq> []" using ht_ok_used[OF w(1)] used by auto
  then obtain c where "c \<in> set (ht_table (ht0 d))" "c \<noteq> []" by auto
  then obtain j where "j < length (ht_table (ht0 d))" "ht_table (ht0 d) ! j \<noteq> []"
    by (metis in_set_conv_nth)
  moreover from this have "nat (rehashidx d) \<le> j" using r(6) by (meson not_le)
  ultimately show ?thesis by auto
qed

lemma dict_wf_rehashidx:
  assumes wf: "dict_wf ty d" and re: "dictIsRehashing d" and i: "i \<le> length (ht_table (ht0 d))"
    and empty: "\<And>k. k < i \<Longrightarrow> ht_table (ht0 d) ! k = []"
  shows "dict_keeps ty d (d\<lparr>rehashidx := int i\<rparr>)"
  using dict_wfD[OF wf] dict_wf_rehashing[OF wf re] i empty
  by (intro dict_keepsI[OF wf]) (auto simp: dict_bag_tables dict_frame_def)

lemma rehash_loop_ok:
  assumes ty: "type_ok ty"
  shows "dict_wf ty d \<Longrightarrow> dictIsRehashing d \<Longrightarrow>
    \<exists>d' again. rehash_loop ty n ev d = Some (d', again) \<and> rehash_progress ty d d' again \<and>
      (n > 0 \<and> again \<longrightarrow> rehashidx d < rehashidx d')"
proof (induction n arbitrary: d ev)
  case 0
  then show ?case using rehash_progress_completed[OF 0] by (auto simp: split: prod.splits)
next
  case (Suc n)
  note wf = Suc.prems(1) and re = Suc.prems(2)
  note w = dict_wfD[OF wf] and r = dict_wf_rehashing[OF wf re]
  show ?case
  proof (cases "ht_used (ht0 d) = 0")
    case True
    then have "snd (dictCheckRehashingCompleted d)" by (simp add: dictCheckRehashingCompleted_def)
    with True show ?thesis using rehash_progress_completed[OF wf re] by (auto split: prod.splits)
  next
    case False
    let ?i = "nat (rehashidx d)" and ?tbl = "ht_table (ht0 d)"
    note ne = nonempty_bucket[OF wf re False]
    then have lt: "rehashidx d < int (length ?tbl)" using r(4) by auto
    note ht_ok_small[OF w(1)]
    then have assert: "int (DICTHT_SIZE (ht_size_exp (ht0 d))) > rehashidx d mod 2 ^ 64"
      using lt r(4) by (simp add: ht_ok_size[OF w(1)])
    have low: "k < i' \<Longrightarrow> ?tbl ! k = []" if "\<forall>k. ?i \<le> k \<and> k < i' \<longrightarrow> ?tbl ! k = []" for k i'
      using that r(6) by (meson not_le)
    from rehash_skip_ok[OF ne, of ev] show ?thesis
    proof (elim disjE exE conjE)
      fix i' assume s: "rehash_skip ?tbl ?i ev = Some (Inl i')" "?i < i'" "i' < length ?tbl"
        "\<forall>k. ?i \<le> k \<and> k < i' \<longrightarrow> ?tbl ! k = []"
      have "dict_keeps ty d (d\<lparr>rehashidx := int i'\<rparr>)"
        using dict_wf_rehashidx[OF wf re, of i'] s(3) low[OF s(4)] by simp
      then show ?thesis using False assert s(1,2) r(1,4)
        by (auto simp: rehash_progress_def dictIsRehashing_def)
    next
      fix i' ev' assume s: "rehash_skip ?tbl ?i ev = Some (Inr (i', ev'))" "?i \<le> i'" "i' < length ?tbl"
        "?tbl ! i' \<noteq> []" "\<forall>k. ?i \<le> k \<and> k < i' \<longrightarrow> ?tbl ! k = []"
      obtain d1 where d1: "rehashEntriesInBucketAtIndex ty d i' = Some d1" "dict_keeps ty d d1"
        "rehashidx d1 = rehashidx d" "ht_size_exp (ht0 d1) = ht_size_exp (ht0 d)"
        "ht_size_exp (ht1 d1) = ht_size_exp (ht1 d)" "ht_table (ht0 d1) = ?tbl[i' := []]"
        using rehashEntries_ok[OF ty wf re s(3)] by auto
      let ?d2 = "d1\<lparr>rehashidx := int i' + 1\<rparr>"
      have re1: "dictIsRehashing d1" using re d1(3) by (simp add: dictIsRehashing_def)
      have wf1: "dict_wf ty d1" using d1(2) by (simp add: dict_keeps_def)
      have "dict_keeps ty d1 (d1\<lparr>rehashidx := int (i' + 1)\<rparr>)"
      proof (rule dict_wf_rehashidx[OF wf1 re1])
        show "i' + 1 \<le> length (ht_table (ht0 d1))" using s(3) by (simp add: d1(6))
        show "ht_table (ht0 d1) ! k = []" if "k < i' + 1" for k
          using that s(3) low[OF s(5), of k] by (cases "k = i'") (auto simp: d1(6))
      qed
      then have k2: "dict_keeps ty d ?d2" using dict_keeps_trans[OF d1(2)] by (simp add: algebra_simps)
      then have wf2: "dict_wf ty ?d2" by (simp add: dict_keeps_def)
      have re2: "dictIsRehashing ?d2" by (simp add: dictIsRehashing_def)
      from Suc.IH[OF wf2 re2, of ev'] obtain d' again where d': "rehash_loop ty n ev' ?d2 = Some (d', again)"
        "rehash_progress ty ?d2 d' again" by auto
      have "rehash_progress ty d ?d2 True"
        using k2 re2 s(2) r(1) d1(4,5) by (simp add: rehash_progress_def)
      from rehash_progress_trans[OF this d'(2)] have "rehash_progress ty d d' again" .
      moreover have "again \<longrightarrow> rehashidx d < rehashidx d'"
        using d'(2) s(2) r(4) by (auto simp: rehash_progress_def)
      moreover have "rehash_loop ty (Suc n) ev d = Some (d', again)"
        using False assert s(1) d1(1) d'(1) by simp
      ultimately show ?thesis by auto
    qed
  qed
qed

lemma dictRehash_ok:
  assumes "type_ok ty" "dict_wf ty d"
  shows "\<exists>d' again. dictRehash cr ty d n = Some (d', again) \<and>
    (if rehash_refused cr d then d' = d \<and> \<not> again
     else rehash_progress ty d d' again \<and> (n > 0 \<and> again \<longrightarrow> rehashidx d < rehashidx d'))"
proof (cases "rehash_refused cr d")
  case False
  then have "dictIsRehashing d" by (auto simp: rehash_refused_def Let_def)
  from rehash_loop_ok[OF assms this, of n "signed_take_bit 31 (int n * 10)"] False show ?thesis
    by (auto simp: dictRehash_def)
qed (auto simp: dictRehash_def)

text \<open>After a step of any kind the dictionary keeps its bindings, and a bucket index of the first
  table computed before is still one, unless the rehashing is over.\<close>

definition rehash_step_ok :: "('k, 'v) dictType \<Rightarrow> ('k, 'v) dict \<Rightarrow> ('k, 'v) dict \<Rightarrow> bool" where
  "rehash_step_ok ty d d' \<longleftrightarrow> dict_keeps ty d d' \<and>
     (dictIsRehashing d' \<longrightarrow> dictIsRehashing d \<and> ht_size_exp (ht0 d') = ht_size_exp (ht0 d)) \<and>
     (ht_size_exp (ht0 d) \<noteq> -1 \<longrightarrow> ht_size_exp (ht0 d') \<noteq> -1)"

lemma rehash_step_ok_refl: "dict_wf ty d \<Longrightarrow> rehash_step_ok ty d d"
  by (simp add: rehash_step_ok_def dict_keeps_refl)

lemma rehash_step_ok_progress:
  "dictIsRehashing d \<Longrightarrow> rehash_progress ty d d' again \<Longrightarrow> rehash_step_ok ty d d'"
  by (auto simp: rehash_step_ok_def rehash_progress_def)

lemma not_refused_rehashing: "\<not> rehash_refused cr d \<Longrightarrow> dictIsRehashing d"
  by (auto simp: rehash_refused_def Let_def)

lemma dictRehashStep_ok:
  assumes "type_ok ty" "dict_wf ty d"
  shows "\<exists>d'. dictRehashStep cr ty d = Some d' \<and> rehash_step_ok ty d d'"
  using dictRehash_ok[OF assms, of cr 1] rehash_step_ok_refl[OF assms(2)] not_refused_rehashing[of cr d]
    rehash_step_ok_progress[of d ty]
  by (auto simp: dictRehashStep_def split: if_splits)

lemma dictBucketRehash_ok:
  assumes ty: "type_ok ty" and wf: "dict_wf ty d" and idx: "idx < length (ht_table (ht0 d))"
  shows "\<exists>d' b. dictBucketRehash cr ty d idx = Some (d', b) \<and> rehash_step_ok ty d d'"
proof (cases "pauserehash d \<noteq> 0 \<or> rehash_refused cr d")
  case True
  then show ?thesis using rehash_step_ok_refl[OF wf] by (auto simp: dictBucketRehash_def)
next
  case False
  then have re: "dictIsRehashing d" using not_refused_rehashing by auto
  from rehashEntries_ok[OF ty wf re idx] obtain d1 where d1:
    "rehashEntriesInBucketAtIndex ty d idx = Some d1" "dict_keeps ty d d1"
    "rehashidx d1 = rehashidx d" "ht_size_exp (ht0 d1) = ht_size_exp (ht0 d)" by auto
  have re1: "dictIsRehashing d1" using re d1(3) by (simp add: dictIsRehashing_def)
  have "dict_wf ty d1" using d1(2) by (simp add: dict_keeps_def)
  note c = dictCheckRehashingCompleted_ok[OF this re1]
  have "rehash_step_ok ty d (fst (dictCheckRehashingCompleted d1))"
    using c d1(4) re dict_keeps_trans[OF d1(2) c(1)] by (auto simp: rehash_step_ok_def)
  then show ?thesis using False d1(1) by (auto simp: dictBucketRehash_def)
qed

lemma rehash_for_access_ok:
  assumes ty: "type_ok ty" and wf: "dict_wf ty d" and idx: "idx = hash_idx h (ht_size_exp (ht0 d))"
  shows "\<exists>d'. rehash_for_access cr ty d idx = Some d' \<and> rehash_step_ok ty d d'"
proof (cases "dictIsRehashing d")
  case True
  have i: "idx < length (ht_table (ht0 d))"
    unfolding idx by (rule hash_idx_in[OF dict_wfD(1)[OF wf] dict_wf_rehashing(1)[OF wf True]])
  then show ?thesis
    using True dictBucketRehash_ok[OF ty wf i, of cr] dictRehashStep_ok[OF ty wf, of cr]
    by (auto simp: rehash_for_access_def aref_in)
qed (simp add: rehash_for_access_def rehash_step_ok_refl[OF wf])

section \<open>Resizing\<close>

lemma bitlen_nat: "bitlen n \<le> k \<longleftrightarrow> n < 2 ^ k"
  by (simp add: bitlen_least)

text \<open>The exponent is the least one, from 2 on, whose table has room for \<open>n\<close> entries.\<close>

lemma dictNextExp_bitlen:
  assumes "4 < n" "n < 2 ^ 63 - 1"
  shows "dictNextExp n = int (bitlen (n - 1)) \<and> 3 \<le> bitlen (n - 1) \<and> bitlen (n - 1) \<le> 63"
proof -
  have "\<not> bitlen (n - 1) \<le> 2" "bitlen (n - 1) \<le> 63"
    unfolding bitlen_nat using assms by simp_all
  then show ?thesis using assms by (simp add: dictNextExp_def clzl_def)
qed

lemma dictNextExp_range: "2 \<le> dictNextExp n" "dictNextExp n \<le> 63"
  using dictNextExp_bitlen[of n] by (cases "4 < n \<and> n < 2 ^ 63 - 1"; auto simp: dictNextExp_def)+

lemma dictNextExp_le: "2 \<le> e \<Longrightarrow> e < 63 \<Longrightarrow> dictNextExp n \<le> int e \<longleftrightarrow> n \<le> 2 ^ e"
proof -
  assume e: "2 \<le> e" "e < 63"
  have p: "(4::nat) \<le> 2 ^ e" using power_increasing[OF e(1), of "2::nat"] by simp
  have q: "(2::nat) ^ e \<le> 2 ^ 62" using e(2) by (intro power_increasing) auto
  consider "n \<le> 4" | "4 < n" "n < 2 ^ 63 - 1" | "n \<ge> 2 ^ 63 - 1" by linarith
  then show ?thesis
  proof cases
    case 1
    then show ?thesis using p e by (auto simp: dictNextExp_def)
  next
    case 2
    then show ?thesis using dictNextExp_bitlen[OF 2] bitlen_nat[of "n - 1" e] by auto
  next
    case 3
    then show ?thesis using q e by (auto simp: dictNextExp_def)
  qed
qed

lemma resize_no_overflow:
  assumes "\<not> ulong (DICTHT_SIZE (dictNextExp n) * 8) < DICTHT_SIZE (dictNextExp n)"
  shows "dictNextExp n \<le> 60"
proof (rule ccontr)
  assume "\<not> ?thesis"
  then have "61 \<le> nat (dictNextExp n)" by linarith
  then obtain k where k: "nat (dictNextExp n) = 61 + k" using le_Suc_ex by blast
  have "DICTHT_SIZE (dictNextExp n) = 2 ^ (61 + k)"
    using dictNextExp_range(1)[of n] k by (simp add: DICTHT_SIZE_def)
  then show False using assms by (simp add: ulong_def power_add)
qed

definition resize_ok :: "('k, 'v) dictType \<Rightarrow> ('k, 'v) dict \<Rightarrow> ('k, 'v) dict \<Rightarrow> bool" where
  "resize_ok ty d d' \<longleftrightarrow> dict_keeps ty d d' \<and> (d' = d \<or> (dictIsRehashing d' \<longrightarrow> rehashidx d' = 0)) \<and>
     (ht_size_exp (ht0 d) \<noteq> -1 \<longrightarrow> ht_size_exp (ht0 d') \<noteq> -1)"

lemma resize_ok_refl: "dict_wf ty d \<Longrightarrow> resize_ok ty d d"
  by (simp add: resize_ok_def dict_keeps_refl)

lemma ht_ok_fresh:
  assumes "2 \<le> e" "e \<le> 60"
  shows "ht_ok ty \<lparr>ht_table = replicate (DICTHT_SIZE e) [], ht_used = 0, ht_size_exp = e\<rparr>"
  using assms by (simp add: ht_ok_def DICTHT_SIZE_def)

lemma dictResize_ok:
  assumes wf: "dict_wf ty d" and idle: "\<not> dictIsRehashing d"
  shows "\<exists>d' ok failed. dictResize ta d n = Some (d', ok, failed) \<and> resize_ok ty d d' \<and>
    (ok \<longrightarrow> ht_size_exp (ht0 d') \<noteq> -1)"
proof -
  let ?e = "dictNextExp n"
  let ?sz = "DICTHT_SIZE ?e"
  let ?new = "\<lparr>ht_table = replicate ?sz [], ht_used = 0, ht_size_exp = ?e\<rparr>"
  note w = dict_wfD[OF wf]
  consider (skip) "?sz < n \<or> ulong (?sz * 8) < ?sz \<or> ?e = ht_size_exp (ht0 d) \<or> ta = Some False"
    | (first) "\<not> (?sz < n \<or> ulong (?sz * 8) < ?sz)" "?e \<noteq> ht_size_exp (ht0 d)" "ta \<noteq> Some False"
        "ht_table (ht0 d) = [] \<or> ht_used (ht0 d) = 0"
    | (start) "\<not> (?sz < n \<or> ulong (?sz * 8) < ?sz)" "?e \<noteq> ht_size_exp (ht0 d)" "ta \<noteq> Some False"
        "ht_table (ht0 d) \<noteq> []" "ht_used (ht0 d) \<noteq> 0"
    by auto
  then show ?thesis
  proof cases
    case skip
    then show ?thesis using idle resize_ok_refl[OF wf]
      by (auto simp: dictResize_def Let_def)
  next
    case first
    let ?d = "d\<lparr>ht0 := ?new, ht1 := dictReset, rehashidx := -1\<rparr>"
    have e: "2 \<le> ?e" "?e \<le> 60" using dictNextExp_range(1) resize_no_overflow first(1) by auto
    have "ht_used (ht0 d) = 0" using first(4) ht_ok_used[OF w(1)] by auto
    then have "concat (ht_table (ht0 d)) = []" using ht_ok_used[OF w(1)] by simp
    moreover have "ht1 d = dictReset" using dict_wf_idle[OF wf idle] by simp
    ultimately have "dict_keeps ty d ?d"
      by (intro dict_keepsI[OF wf])
        (auto simp: ht_ok_fresh[OF e] dict_bag_tables dict_frame_def simp del: concat_eq_Nil_conv)
    then have "resize_ok ty d ?d" using e by (simp add: resize_ok_def dictIsRehashing_def)
    then show ?thesis using idle first e by (auto simp: dictResize_def Let_def)
  next
    case start
    let ?d = "d\<lparr>ht1 := ?new, rehashidx := 0\<rparr>"
    have e: "2 \<le> ?e" "?e \<le> 60" using dictNextExp_range(1) resize_no_overflow start(1) by auto
    have e0: "ht_size_exp (ht0 d) \<noteq> -1" using start(5) ht_ok_exp[OF w(1)] by auto
    have "ht1 d = dictReset" using dict_wf_idle[OF wf idle] by simp
    then have "dict_keeps ty d ?d"
      using e e0 start(2)
      by (intro dict_keepsI[OF wf]) (auto simp: ht_ok_fresh[OF e] w(1) dict_bag_tables dict_frame_def)
    then have "resize_ok ty d ?d" using e0 by (simp add: resize_ok_def)
    then show ?thesis using idle start e0 by (auto simp: dictResize_def Let_def)
  qed
qed

lemma dictExpand_malloc_ok:
  assumes wf: "dict_wf ty d"
  shows "\<exists>d' ok failed. dictExpand_malloc ta d n = Some (d', ok, failed) \<and> resize_ok ty d d' \<and>
    (ok \<longrightarrow> ht_size_exp (ht0 d') \<noteq> -1)"
  using dictResize_ok[OF wf, of ta n] resize_ok_refl[OF wf] by (auto simp: dictExpand_malloc_def)

lemma dictExpand_ok:
  assumes "dict_wf ty d"
  shows "\<exists>d' ok. dictExpand d n = Some (d', ok) \<and> resize_ok ty d d'"
  using dictExpand_malloc_ok[OF assms, of None n] by (auto simp: dictExpand_def)

lemma dictShrink_ok:
  assumes "dict_wf ty d"
  shows "\<exists>d' ok. dictShrink d n = Some (d', ok) \<and> resize_ok ty d d'"
  using dictResize_ok[OF assms, of None n] resize_ok_refl[OF assms]
  by (auto simp: dictShrink_def ex_bool_eq)

lemma dictExpand_initial:
  assumes wf: "dict_wf ty d" and e: "ht_size_exp (ht0 d) = -1" and idle: "\<not> dictIsRehashing d"
  shows "\<exists>d'. dictExpand d 4 = Some (d', True) \<and> resize_ok ty d d' \<and> ht_size_exp (ht0 d') \<noteq> -1"
proof -
  have "ht0 d = dictReset" using ht_ok_exp[OF dict_wfD(1)[OF wf]] e by simp
  then have "\<exists>d'. dictExpand d 4 = Some (d', True)"
    using idle by (auto simp: dictExpand_def dictExpand_malloc_def dictResize_def dictNextExp_def
        DICTHT_SIZE_def ulong_def Let_def)
  moreover obtain d' ok where "dictExpand d 4 = Some (d', ok)" "resize_ok ty d d'"
    "ok \<longrightarrow> ht_size_exp (ht0 d') \<noteq> -1"
    using dictExpand_malloc_ok[OF wf, of None 4] by (auto simp: dictExpand_def)
  ultimately show ?thesis by auto
qed

lemma dictExpandIfNeeded_ok:
  assumes wf: "dict_wf ty d"
  shows "\<exists>d' b. dictExpandIfNeeded cr ty d = Some (d', b) \<and> resize_ok ty d d' \<and> ht_size_exp (ht0 d') \<noteq> -1"
proof -
  have "DICTHT_SIZE (ht_size_exp (ht0 d)) = 0 \<longleftrightarrow> ht_size_exp (ht0 d) = -1"
    using ht_ok_size[OF dict_wfD(1)[OF wf]] ht_ok_table[OF dict_wfD(1)[OF wf]] ht_ok_exp[OF dict_wfD(1)[OF wf]]
    by simp
  then show ?thesis
    using dictExpand_initial[OF wf] dictExpand_ok[OF wf, of "ulong (ht_used (ht0 d) + 1)"]
      resize_ok_refl[OF wf] dict_wf_rehashing(1)[OF wf]
    by (auto simp: dictExpandIfNeeded_def Let_def) (auto simp: resize_ok_def)
qed

lemma dictExpandIfNeeded_auto_ok:
  assumes wf: "dict_wf ty d"
  shows "\<exists>d'. dictExpandIfNeeded_auto cr ty d = Some d' \<and> resize_ok ty d d' \<and>
    (pauseAutoResize d \<le> 0 \<longrightarrow> ht_size_exp (ht0 d') \<noteq> -1)"
  using dictExpandIfNeeded_ok[OF wf, of cr] resize_ok_refl[OF wf] by (auto simp: dictExpandIfNeeded_auto_def)

lemma dictShrinkIfNeeded_auto_ok:
  assumes wf: "dict_wf ty d"
  shows "\<exists>d'. dictShrinkIfNeeded_auto cr ty d = Some d' \<and> resize_ok ty d d'"
  using dictShrink_ok[OF wf, of "ht_used (ht0 d)"] resize_ok_refl[OF wf]
  by (auto simp: dictShrinkIfNeeded_auto_def dictShrinkIfNeeded_def Let_def)

end
