(* ===== verification/Dict_Map.thy ===== *)
theory Dict_Map
  imports Dict_Correct
begin

text \<open>
  Lookup, insertion, replacement and removal as operations on the map of the dictionary, whatever
  rehashing and resizing they trigger on the way.
\<close>

section \<open>Lookup\<close>

lemma chain_find_ok:
  "chain_ok ty c \<Longrightarrow>
   (case chain_find (=) key pos c of
      Some p \<Rightarrow> pos \<le> p \<and> p - pos < length c \<and> dictGetKey (c ! (p - pos)) = key
    | None \<Rightarrow> \<forall>e \<in> set c. dictGetKey e \<noteq> key)"
proof (induction c arbitrary: pos)
  case (Cons e c)
  show ?case
  proof (cases "key = dictGetKey e")
    case False
    from Cons.IH[of "pos + 1"] Cons.prems False show ?thesis
      by (auto simp: chain_ok_next chain_ok_Cons nth_Cons' split: option.splits)
  qed simp
qed simp

text \<open>A pointer to the entry of \<open>key\<close>, in a table the dictionary uses.\<close>

definition ref_of :: "('k, 'v) dict \<Rightarrow> 'k \<Rightarrow> entry_ref \<Rightarrow> bool" where
  "ref_of d key ref \<longleftrightarrow> (case ref of (t, i, p) \<Rightarrow>
     t \<le> 1 \<and> i < length (ht_table (dict_ht d t)) \<and> p < length (ht_table (dict_ht d t) ! i) \<and>
     dictGetKey (ht_table (dict_ht d t) ! i ! p) = key)"

definition dict_keys :: "('k, 'v) dict \<Rightarrow> 'k set" where
  "dict_keys d = set (map dictGetKey (dict_entries d))"

lemma dict_ht_simps [simp]: "dict_ht d 0 = ht0 d" "dict_ht d (Suc 0) = ht1 d"
  by (simp_all add: dict_ht_def)

lemma ht_ok_dict_ht: "dict_wf ty d \<Longrightarrow> ht_ok ty (dict_ht d t)"
  by (simp add: dict_ht_def dict_wfD)

lemma ex_le_Suc_0: "(\<exists>t \<le> Suc 0. P t) \<longleftrightarrow> P 0 \<or> P (Suc 0)"
  by (auto simp: le_Suc_eq)

lemma bex_concat: "(\<exists>e \<in> set (concat xs). P e) \<longleftrightarrow> (\<exists>i < length xs. \<exists>e \<in> set (xs ! i). P e)"
  unfolding Bex_def set_concat_nth by blast

lemma key_in_tables:
  "key \<in> dict_keys d \<longleftrightarrow>
     (\<exists>t \<le> 1. \<exists>i < length (ht_table (dict_ht d t)). \<exists>e \<in> set (ht_table (dict_ht d t) ! i). dictGetKey e = key)"
proof -
  have "key \<in> dict_keys d \<longleftrightarrow>
      (\<exists>e \<in> set (concat (ht_table (ht0 d))). dictGetKey e = key) \<or>
      (\<exists>e \<in> set (concat (ht_table (ht1 d))). dictGetKey e = key)"
    by (auto simp: dict_keys_def dict_entries_def)
  also have "\<dots> \<longleftrightarrow> (\<exists>t \<le> 1. \<exists>e \<in> set (concat (ht_table (dict_ht d t))). dictGetKey e = key)"
    unfolding One_nat_def ex_le_Suc_0 dict_ht_simps ..
  finally show ?thesis unfolding bex_concat .
qed

lemma table_search_ok:
  assumes ty: "type_ok ty" and wf: "dict_wf ty d" and t: "t \<le> 1"
    and e: "ht_size_exp (dict_ht d t) \<noteq> -1"
  shows "(\<exists>ref. table_search ty d (hashFunction ty key) t key = Some (Inl ref) \<and> ref_of d key ref) \<or>
    (table_search ty d (hashFunction ty key) t key =
       Some (Inr (hash_idx (hashFunction ty key) (ht_size_exp (dict_ht d t)))) \<and>
     (\<forall>i < length (ht_table (dict_ht d t)). \<forall>x \<in> set (ht_table (dict_ht d t) ! i). dictGetKey x \<noteq> key))"
proof -
  let ?ht = "dict_ht d t"
  let ?i = "hash_idx (hashFunction ty key) (ht_size_exp ?ht)"
  note ok = ht_ok_dict_ht[OF wf, of t]
  have i: "?i < length (ht_table ?ht)" by (rule hash_idx_in[OF ok e])
  have c: "chain_ok ty (ht_table ?ht ! ?i)" by (rule bucket_ok_chain[OF ht_okD(4)[OF ok e i]])
  have other: "dictGetKey x \<noteq> key"
    if "j < length (ht_table ?ht)" "x \<in> set (ht_table ?ht ! j)" "j \<noteq> ?i" for j x
    using ht_okD(4)[OF ok e that(1)] that(2,3) by (auto simp: bucket_ok_def)
  have run: "table_search ty d (hashFunction ty key) t key =
      (case chain_find (=) key 0 (ht_table ?ht ! ?i) of
         Some pos \<Rightarrow> Some (Inl (t, ?i, pos)) | None \<Rightarrow> Some (Inr ?i))"
    using i by (simp add: table_search_def Let_def aref_in dictGetKeyCmpFunc_ok[OF ty])
  show ?thesis
  proof (cases "chain_find (=) key 0 (ht_table ?ht ! ?i)")
    case None
    with chain_find_ok[OF c, of key 0] have "\<forall>x \<in> set (ht_table ?ht ! ?i). dictGetKey x \<noteq> key" by simp
    then have "\<forall>j < length (ht_table ?ht). \<forall>x \<in> set (ht_table ?ht ! j). dictGetKey x \<noteq> key"
      using other by metis
    then show ?thesis using run None by simp
  next
    case (Some p)
    then have "ref_of d key (t, ?i, p)" using chain_find_ok[OF c, of key 0] i t by (simp add: ref_of_def)
    then show ?thesis using run Some by auto
  qed
qed

text \<open>The bucket index of the first table that the caller computed may be outdated only when the
  dictionary is not rehashing, or has just begun to.\<close>

lemma tables_search_ok:
  assumes ty: "type_ok ty" and wf: "dict_wf ty d" and e: "ht_size_exp (ht0 d) \<noteq> -1"
    and idx: "dictIsRehashing d \<Longrightarrow> idx = hash_idx (hashFunction ty key) (ht_size_exp (ht0 d)) \<or> rehashidx d = 0"
  shows "(key \<in> dict_keys d \<and> (\<exists>ref. tables_search ty d (hashFunction ty key) idx key = Some (Inl ref) \<and> ref_of d key ref)) \<or>
    (key \<notin> dict_keys d \<and> tables_search ty d (hashFunction ty key) idx key =
       Some (Inr (hash_idx (hashFunction ty key) (ht_size_exp (dict_ht d (if dictIsRehashing d then 1 else 0))))))"
proof -
  note w = dict_wfD[OF wf]
  have keys: "key \<in> dict_keys d" if "ref_of d key ref" for ref
    using that unfolding key_in_tables ref_of_def by (auto split: prod.splits) (metis nth_mem)
  note t0 = table_search_ok[OF ty wf, of 0 key] and t1 = table_search_ok[OF ty wf, of 1 key]
  have absent: "key \<notin> dict_keys d \<longleftrightarrow>
      (\<forall>i < length (ht_table (ht0 d)). \<forall>x \<in> set (ht_table (ht0 d) ! i). dictGetKey x \<noteq> key) \<and>
      (\<forall>i < length (ht_table (ht1 d)). \<forall>x \<in> set (ht_table (ht1 d) ! i). dictGetKey x \<noteq> key)"
    unfolding key_in_tables One_nat_def ex_le_Suc_0 dict_ht_simps by blast
  show ?thesis
  proof (cases "dictIsRehashing d")
    case False
    then have "ht1 d = dictReset" "rehashidx d = -1" using dict_wf_idle[OF wf] by auto
    then show ?thesis using t0 e False absent keys by (auto simp: tables_search_def)
  next
    case True
    note r = dict_wf_rehashing[OF wf True]
    show ?thesis
    proof (cases "int idx < rehashidx d")
      case lt: True
      have empty0: "dictGetKey x \<noteq> key"
        if j: "j < length (ht_table (ht0 d))" "x \<in> set (ht_table (ht0 d) ! j)" for j x
      proof
        assume "dictGetKey x = key"
        with ht_okD(4)[OF w(1) r(1) j(1)] j(2)
        have "hash_idx (hashFunction ty key) (ht_size_exp (ht0 d)) = j" by (auto simp: bucket_ok_def)
        then have "ht_table (ht0 d) ! j = []" using idx[OF True] lt r(6)[of idx] by auto
        with j(2) show False by simp
      qed
      then show ?thesis using t1 lt True r(2) absent keys by (auto simp: tables_search_def)
    next
      case ge: False
      then show ?thesis using t0 t1 True e r(2) absent keys by (fastforce simp: tables_search_def)
    qed
  qed
qed

lemma dict_keys_bag: "dict_keys d = fst ` set_mset (dict_bag d)"
  by (auto simp: dict_keys_def dict_bag_def kv_def image_image)

lemma dict_keeps_keys: "dict_keeps ty d d' \<Longrightarrow> dict_keys d' = dict_keys d"
  by (simp add: dict_keeps_def dict_keys_bag)

lemma dictSize_bag: "dict_wf ty d \<Longrightarrow> dictSize d = size (dict_bag d)"
  by (simp add: dictSize_entries dict_bag_def)

lemma dict_nonempty_table:
  assumes wf: "dict_wf ty d" and "dictSize d \<noteq> 0"
  shows "ht_size_exp (ht0 d) \<noteq> -1"
proof (cases "dictIsRehashing d")
  case False
  then have "ht1 d = dictReset" using dict_wf_idle[OF wf] by simp
  then show ?thesis using assms(2) ht_ok_exp[OF dict_wfD(1)[OF wf]] by (auto simp: dictSize_def ulong_def)
qed (use dict_wf_rehashing(1)[OF wf] in simp)

lemma find_after_access:
  assumes ty: "type_ok ty" and wf: "dict_wf ty d" and e: "ht_size_exp (ht0 d) \<noteq> -1"
    and d': "rehash_step_ok ty d d'"
  shows "(key \<in> dict_keys d \<and> (\<exists>ref. tables_search ty d' (hashFunction ty key)
      (hash_idx (hashFunction ty key) (ht_size_exp (ht0 d))) key = Some (Inl ref) \<and> ref_of d' key ref)) \<or>
    (key \<notin> dict_keys d \<and> (\<exists>i. tables_search ty d' (hashFunction ty key)
      (hash_idx (hashFunction ty key) (ht_size_exp (ht0 d))) key = Some (Inr i)))"
proof -
  have k: "dict_keeps ty d d'" "dict_wf ty d'" "ht_size_exp (ht0 d') \<noteq> -1"
    "dictIsRehashing d' \<Longrightarrow> ht_size_exp (ht0 d') = ht_size_exp (ht0 d)"
    using d' e by (auto simp: rehash_step_ok_def dict_keeps_def)
  show ?thesis
    using tables_search_ok[OF ty k(2,3), of "hash_idx (hashFunction ty key) (ht_size_exp (ht0 d))" key] k(4)
      dict_keeps_keys[OF k(1)] by auto
qed

lemma dictFind_ok:
  assumes ty: "type_ok ty" and wf: "dict_wf ty d"
  shows "\<exists>d' r. dictFind cr ty d key = Some (d', r) \<and> dict_keeps ty d d' \<and>
    (case r of Some ref \<Rightarrow> key \<in> dict_keys d \<and> ref_of d' key ref | None \<Rightarrow> key \<notin> dict_keys d)"
proof (cases "dictSize d = 0")
  case True
  then have "key \<notin> dict_keys d" using dictSize_bag[OF wf] by (simp add: dict_keys_bag)
  with True show ?thesis using dict_keeps_refl[OF wf] by (simp add: dictFind_def)
next
  case False
  let ?h = "hashFunction ty key"
  let ?idx = "hash_idx ?h (ht_size_exp (ht0 d))"
  note e = dict_nonempty_table[OF wf False]
  obtain d' where d': "rehash_for_access cr ty d ?idx = Some d'" "rehash_step_ok ty d d'"
    using rehash_for_access_ok[OF ty wf] by blast
  have k: "dict_keeps ty d d'" using d'(2) by (simp add: rehash_step_ok_def)
  have run: "dictFind cr ty d key = Option.bind (tables_search ty d' ?h ?idx key)
      (\<lambda>r. case r of Inl ref \<Rightarrow> Some (d', Some ref) | Inr _ \<Rightarrow> Some (d', None))"
    using False d'(1) by (simp add: dictFind_def Let_def dictHashKey_ok[OF ty])
  show ?thesis
    using find_after_access[OF ty wf e d'(2), of key] k unfolding run by auto
qed

section \<open>Updating one bucket\<close>

definition upd_bucket :: "nat \<Rightarrow> nat \<Rightarrow> ('k, 'v) chain \<Rightarrow> nat \<Rightarrow> ('k, 'v) dict \<Rightarrow> ('k, 'v) dict" where
  "upd_bucket t i c u d = dict_ht_update t (\<lambda>ht. ht\<lparr>ht_table := (ht_table ht)[i := c], ht_used := u\<rparr>) d"

lemma dict_ht_upd_bucket:
  "t \<le> 1 \<Longrightarrow> t' \<le> 1 \<Longrightarrow> dict_ht (upd_bucket t i c u d) t' =
     (if t' = t then (dict_ht d t)\<lparr>ht_table := (ht_table (dict_ht d t))[i := c], ht_used := u\<rparr> else dict_ht d t')"
  by (auto simp: upd_bucket_def dict_ht_update_def dict_ht_def)

lemma hts_upd_bucket [simp]:
  "ht0 (upd_bucket t i c u d) = (if t = 0 then (ht0 d)\<lparr>ht_table := (ht_table (ht0 d))[i := c], ht_used := u\<rparr> else ht0 d)"
  "ht1 (upd_bucket t i c u d) = (if t = 0 then ht1 d else (ht1 d)\<lparr>ht_table := (ht_table (ht1 d))[i := c], ht_used := u\<rparr>)"
  by (simp_all add: upd_bucket_def dict_ht_update_def)

lemma dict_bag_hts: "dict_bag d = mset (map kv (concat (ht_table (dict_ht d 0)))) + mset (map kv (concat (ht_table (dict_ht d 1))))"
  by (simp add: dict_bag_tables)

lemma upd_bucket_bag:
  assumes "t \<le> 1" "i < length (ht_table (dict_ht d t))"
  shows "dict_bag (upd_bucket t i c u d) + mset (map kv (ht_table (dict_ht d t) ! i)) = dict_bag d + mset (map kv c)"
proof -
  have "t = 0 \<or> t = 1" using assms(1) by auto
  then show ?thesis
    unfolding dict_bag_hts using mset_concat_update[OF assms(2), of kv c]
    by (auto simp: dict_ht_upd_bucket simp del: dict_ht_simps)
qed

lemma upd_bucket_frame [simp]:
  "rehashidx (upd_bucket t i c u d) = rehashidx d" "pauserehash (upd_bucket t i c u d) = pauserehash d"
  "dictIsRehashing (upd_bucket t i c u d) = dictIsRehashing d"
  "dict_frame d (upd_bucket t i c u d)"
  by (simp_all add: upd_bucket_def dict_ht_update_def dict_frame_def dictIsRehashing_def)

lemma upd_bucket_wf:
  assumes wf: "dict_wf ty d" and t: "t \<le> 1" and i: "i < length (ht_table (dict_ht d t))"
    and c: "bucket_ok ty (ht_size_exp (dict_ht d t)) i c"
    and u: "u + length (ht_table (dict_ht d t) ! i) = ht_used (dict_ht d t) + length c"
    and keep: "ht_table (dict_ht d t) ! i = [] \<Longrightarrow> t = 0 \<Longrightarrow> \<not> dictIsRehashing d"
    and dist: "distinct (map dictGetKey (dict_entries (upd_bucket t i c u d)))"
    and bound: "size (dict_bag (upd_bucket t i c u d)) < 2 ^ 64"
  shows "dict_wf ty (upd_bucket t i c u d)"
proof -
  let ?d = "upd_bucket t i c u d"
  note w = dict_wfD[OF wf]
  have ok: "ht_ok ty (dict_ht ?d t')" if "t' \<le> 1" for t'
    using ht_ok_update[OF ht_ok_dict_ht[OF wf] i c u] ht_ok_dict_ht[OF wf, of t'] that t
    by (simp add: dict_ht_upd_bucket)
  then have ok0: "ht_ok ty (ht0 ?d)" and ok1: "ht_ok ty (ht1 ?d)"
    using ok[of 0] ok[of 1] by simp_all
  have sum: "ht_used (ht0 ?d) + ht_used (ht1 ?d) < 2 ^ 64"
    using dict_bag_size[OF ok0 ok1] bound by simp
  have exps: "ht_size_exp (dict_ht ?d t') = ht_size_exp (dict_ht d t')" if "t' \<le> 1" for t'
    using that t by (simp add: dict_ht_upd_bucket)
  have t0: "ht_table (dict_ht ?d 0) = (if t = 0 then (ht_table (ht0 d))[i := c] else ht_table (ht0 d))"
    using t by (simp add: dict_ht_upd_bucket)
  show ?thesis
  proof (cases "dictIsRehashing d")
    case False
    then have r: "ht1 d = dictReset" "rehashidx d = -1" using dict_wf_idle[OF wf] by auto
    with i t have "t = 0" by (auto simp: dict_ht_def split: if_splits)
    then show ?thesis using ok0 ok1 sum dist w(5) r
      by (simp add: dict_wf_def)
  next
    case True
    note r = dict_wf_rehashing[OF wf True]
    have "\<forall>j < nat (rehashidx d). ht_table (dict_ht ?d 0) ! j = []"
    proof (intro allI impI)
      fix j assume j: "j < nat (rehashidx d)"
      have "j \<noteq> i" if "t = 0" using keep that True r(6)[OF j] by auto
      then show "ht_table (dict_ht ?d 0) ! j = []" using r(6)[OF j] by (cases "t = 0") simp_all
    qed
    then show ?thesis using ok0 ok1 sum dist w(5) r exps[of 0] exps[of 1] t0
      by (simp add: dict_wf_def)
  qed
qed

section \<open>Insertion\<close>

lemma distinct_keys_add:
  assumes "dict_bag d' = add_mset (k, v) (dict_bag d)"
  shows "distinct (map dictGetKey (dict_entries d')) \<longleftrightarrow>
    k \<notin> dict_keys d \<and> distinct (map dictGetKey (dict_entries d))"
proof -
  have "mset (map dictGetKey (dict_entries d')) = mset (k # map dictGetKey (dict_entries d))"
    unfolding mset.simps dict_bag_keys[symmetric] by (simp add: assms)
  from mset_eq_imp_distinct_iff[OF this] show ?thesis by (simp add: dict_keys_def)
qed

lemma dict_ht_update_compose:
  "dict_ht_update t f (dict_ht_update t g d) = dict_ht_update t (\<lambda>h. f (g h)) d"
  by (simp add: dict_ht_update_def)

lemma set_chain_used:
  "dict_ht_update t (\<lambda>ht. ht\<lparr>ht_used := f (ht_used ht)\<rparr>) (set_chain t i c d) =
     upd_bucket t i c (f (ht_used (dict_ht d t))) d"
  by (simp add: set_chain_def upd_bucket_def dict_ht_update_def dict_ht_def)

lemma set_chain_upd: "set_chain t i c d = upd_bucket t i c (ht_used (dict_ht d t)) d"
  by (simp add: set_chain_def upd_bucket_def dict_ht_update_def dict_ht_def)

definition fresh_entry :: "('k, 'v) dictType \<Rightarrow> 'k \<Rightarrow> ('k, 'v) chain \<Rightarrow> ('k, 'v) dictEntry" where
  "fresh_entry ty key bucket =
     (if no_value ty then if keys_are_odd ty \<and> bucket = [] then KeyPtr key else NoValue key
      else Normal key None)"

lemma kv_fresh_entry [simp]: "kv (fresh_entry ty key b) = (key, None)" "dictGetKey (fresh_entry ty key b) = key"
  by (simp_all add: fresh_entry_def kv_def)

lemma chain_ok_fresh: "chain_ok ty b \<Longrightarrow> chain_ok ty (fresh_entry ty key b # b)"
  by (auto simp: chain_ok_Cons fresh_entry_def entry_ok_def)

lemma dictInsertAtPosition_ok:
  assumes ty: "type_ok ty" and wf: "dict_wf ty d" and key: "key \<notin> dict_keys d"
    and t: "t = (if dictIsRehashing d then 1 else 0)" and e: "ht_size_exp (dict_ht d t) \<noteq> -1"
    and i: "i = hash_idx (hashFunction ty key) (ht_size_exp (dict_ht d t))"
    and room: "size (dict_bag d) < 2 ^ 64 - 1"
  shows "\<exists>d'. dictInsertAtPosition ty d key (t, i) = Some (d', (t, i, 0)) \<and> dict_wf ty d' \<and>
    dict_bag d' = add_mset (key, None) (dict_bag d) \<and> dict_frame d d' \<and> ref_of d' key (t, i, 0)"
proof -
  let ?ht = "dict_ht d t"
  let ?b = "ht_table ?ht ! i"
  let ?c = "fresh_entry ty key ?b # ?b"
  let ?d = "upd_bucket t i ?c (ht_used ?ht + 1) d"
  have t1: "t \<le> 1" using t by simp
  note ok = ht_ok_dict_ht[OF wf, of t]
  have ilen: "i < length (ht_table ?ht)" unfolding i by (rule hash_idx_in[OF ok e])
  have mask: "i \<le> DICTHT_SIZE_MASK (ht_size_exp ?ht)"
    using ilen e ht_okD(3)[OF ok e] ht_okD(1)[OF ok e] by (simp add: DICTHT_SIZE_MASK_def DICTHT_SIZE_def)
  have odd: "odd_key ty key" if "no_value ty" "keys_are_odd ty" using ty that by (simp add: type_ok_def)
  have b: "bucket_ok ty (ht_size_exp ?ht) i ?b" by (rule ht_okD(4)[OF ok e ilen])
  then have c: "bucket_ok ty (ht_size_exp ?ht) i ?c"
    by (simp add: bucket_ok_Cons chain_ok_fresh bucket_ok_chain i)
  have bag: "dict_bag ?d = add_mset (key, None) (dict_bag d)"
    using upd_bucket_bag[OF t1 ilen, of ?c "ht_used ?ht + 1"] by simp
  have "dict_wf ty ?d"
  proof (rule upd_bucket_wf[OF wf t1 ilen c])
    show "distinct (map dictGetKey (dict_entries ?d))"
      using distinct_keys_add[OF bag] key dict_wfD(3)[OF wf] by simp
    show "size (dict_bag ?d) < 2 ^ 64" using bag room by simp
  qed (use t in \<open>auto split: if_splits\<close>)
  moreover have "dictInsertAtPosition ty d key (t, i) = Some (?d, (t, i, 0))"
    using mask ilen odd
    by (simp add: dictInsertAtPosition_def Let_def aref_in fresh_entry_def set_chain_used[of t Suc] flip: t)
  moreover have "ref_of ?d key (t, i, 0)"
    using t1 ilen by (simp add: ref_of_def dict_ht_upd_bucket)
  ultimately show ?thesis using bag by auto
qed

text \<open>An automatic resize may be paused only while there is a table to insert into.\<close>

definition can_insert :: "('k, 'v) dict \<Rightarrow> bool" where
  "can_insert d \<longleftrightarrow> pauseAutoResize d \<le> 0 \<or> ht_size_exp (ht0 d) \<noteq> -1"

lemma dictFindPositionForInsert_ok:
  assumes ty: "type_ok ty" and wf: "dict_wf ty d" and ins: "can_insert d"
  shows "\<exists>d' r. dictFindPositionForInsert cr ty d key = Some (d', r) \<and> dict_keeps ty d d' \<and>
    (case r of
       Inl ref \<Rightarrow> key \<in> dict_keys d \<and> ref_of d' key ref
     | Inr (t, i) \<Rightarrow> key \<notin> dict_keys d \<and> t = (if dictIsRehashing d' then 1 else 0) \<and>
         ht_size_exp (dict_ht d' t) \<noteq> -1 \<and> i = hash_idx (hashFunction ty key) (ht_size_exp (dict_ht d' t)))"
proof -
  let ?h = "hashFunction ty key"
  let ?idx = "hash_idx ?h (ht_size_exp (ht0 d))"
  obtain d1 where d1: "rehash_for_access cr ty d ?idx = Some d1" "rehash_step_ok ty d d1"
    using rehash_for_access_ok[OF ty wf] by blast
  then have wf1: "dict_wf ty d1" and k1: "dict_keeps ty d d1" by (auto simp: rehash_step_ok_def dict_keeps_def)
  obtain d2 where d2: "dictExpandIfNeeded_auto cr ty d1 = Some d2" "resize_ok ty d1 d2"
    "pauseAutoResize d1 \<le> 0 \<longrightarrow> ht_size_exp (ht0 d2) \<noteq> -1"
    using dictExpandIfNeeded_auto_ok[OF wf1] by blast
  then have wf2: "dict_wf ty d2" and k2: "dict_keeps ty d d2"
    using dict_keeps_trans[OF k1] by (auto simp: resize_ok_def dict_keeps_def)
  have e: "ht_size_exp (ht0 d2) \<noteq> -1"
    using ins d1(2) d2(2,3) k1
    by (auto simp: can_insert_def rehash_step_ok_def resize_ok_def dict_keeps_def dict_frame_def)
  have idx: "?idx = hash_idx ?h (ht_size_exp (ht0 d2)) \<or> rehashidx d2 = 0" if "dictIsRehashing d2"
    using that d1(2) d2(2) by (auto simp: rehash_step_ok_def resize_ok_def)
  have e': "ht_size_exp (dict_ht d2 (if dictIsRehashing d2 then 1 else 0)) \<noteq> -1"
    using e dict_wf_rehashing(2)[OF wf2] by simp
  have run: "dictFindPositionForInsert cr ty d key = Option.bind (tables_search ty d2 ?h ?idx key)
      (\<lambda>r. case r of Inl ref \<Rightarrow> Some (d2, Inl ref)
        | Inr idx \<Rightarrow> Some (d2, Inr (if dictIsRehashing d2 then 1 else 0, idx)))"
    using d1(1) d2(1) by (simp add: dictFindPositionForInsert_def Let_def dictHashKey_ok[OF ty])
  show ?thesis
    using tables_search_ok[OF ty wf2 e idx] k2 e' dict_keeps_keys[OF k2] unfolding run by auto
qed

lemma dictAddRaw_ok:
  assumes ty: "type_ok ty" and wf: "dict_wf ty d" and ins: "can_insert d"
    and room: "size (dict_bag d) < 2 ^ 64 - 1"
  shows "(key \<in> dict_keys d \<and> (\<exists>d' ref. dictAddRaw cr ty d key = Some (d', Inl ref) \<and> dict_keeps ty d d' \<and>
      ref_of d' key ref)) \<or>
    (key \<notin> dict_keys d \<and> (\<exists>d' ref. dictAddRaw cr ty d key = Some (d', Inr ref) \<and> dict_wf ty d' \<and>
      dict_bag d' = add_mset (key, None) (dict_bag d) \<and> dict_frame d d' \<and> ref_of d' key ref))"
proof -
  obtain d1 r where d1: "dictFindPositionForInsert cr ty d key = Some (d1, r)" "dict_keeps ty d d1"
    "case r of
       Inl ref \<Rightarrow> key \<in> dict_keys d \<and> ref_of d1 key ref
     | Inr (t, i) \<Rightarrow> key \<notin> dict_keys d \<and> t = (if dictIsRehashing d1 then 1 else 0) \<and>
         ht_size_exp (dict_ht d1 t) \<noteq> -1 \<and> i = hash_idx (hashFunction ty key) (ht_size_exp (dict_ht d1 t))"
    using dictFindPositionForInsert_ok[OF ty wf ins] by blast
  have dup: "(case keyDup ty of Some f \<Rightarrow> f key | None \<Rightarrow> key) = key"
    using ty by (auto simp: type_ok_def split: option.splits)
  show ?thesis
  proof (cases r)
    case (Inl ref)
    then show ?thesis using d1 by (auto simp: dictAddRaw_def)
  next
    case (Inr pos)
    obtain t i where pos: "pos = (t, i)" by (cases pos)
    have w1: "dict_wf ty d1" and b1: "dict_bag d1 = dict_bag d" and f1: "dict_frame d d1"
      using d1(2) by (auto simp: dict_keeps_def)
    have k1: "key \<notin> dict_keys d1" using d1(2,3) Inr pos dict_keeps_keys[OF d1(2)] by auto
    from dictInsertAtPosition_ok[OF ty w1 k1, of t i] d1(3) Inr pos room b1
    obtain d' where d': "dictInsertAtPosition ty d1 key (t, i) = Some (d', (t, i, 0))" "dict_wf ty d'"
      "dict_bag d' = add_mset (key, None) (dict_bag d1)" "dict_frame d1 d'" "ref_of d' key (t, i, 0)" by auto
    then show ?thesis using d1 Inr pos dup b1 f1 by (auto simp: dictAddRaw_def Let_def dict_frame_def)
  qed
qed

section \<open>Values in place, and removal\<close>

lemma mset_map_update:
  "p < length c \<Longrightarrow> mset (map f (c[p := x])) = add_mset (f x) (mset (map f (take p c @ drop (Suc p) c)))"
  by (simp add: upd_conv_take_nth_drop)

lemma mset_map_nth:
  "p < length c \<Longrightarrow> mset (map f c) = add_mset (f (c ! p)) (mset (map f (take p c @ drop (Suc p) c)))"
  using mset_map_update[of p c f "c ! p"] by simp

lemma ref_entry:
  assumes "ref_of d key (t, i, p)"
  shows "t \<le> 1" "i < length (ht_table (dict_ht d t))" "p < length (ht_table (dict_ht d t) ! i)"
    "dictGetKey (ht_table (dict_ht d t) ! i ! p) = key"
    "entry_at d (t, i, p) = Some (ht_table (dict_ht d t) ! i ! p)"
  using assms by (auto simp: ref_of_def entry_at_def aref_in)

lemma ref_table:
  "dict_wf ty d \<Longrightarrow> ref_of d key (t, i, p) \<Longrightarrow> bucket_ok ty (ht_size_exp (dict_ht d t)) i (ht_table (dict_ht d t) ! i)"
proof -
  assume wf: "dict_wf ty d" and ref: "ref_of d key (t, i, p)"
  note ok = ht_ok_dict_ht[OF wf, of t]
  have "ht_size_exp (dict_ht d t) \<noteq> -1" using ref_entry(2)[OF ref] ht_ok_exp[OF ok] by auto
  from ht_okD(4)[OF ok this ref_entry(2)[OF ref]] show ?thesis .
qed

lemma set_val_at_ok:
  assumes ty: "type_ok ty" and wf: "dict_wf ty d" and nv: "\<not> no_value ty" and ref: "ref_of d key ref"
  shows "\<exists>d' old B. entry_at d ref = Some (Normal key old) \<and> set_val_at ty d ref v = Some d' \<and> dict_wf ty d' \<and>
    dict_frame d d' \<and> dict_bag d = add_mset (key, old) B \<and> dict_bag d' = add_mset (key, Some v) B"
proof -
  obtain t i p where r: "ref = (t, i, p)" by (cases ref) auto
  note re = ref_entry[OF ref[unfolded r]]
  let ?c = "ht_table (dict_ht d t) ! i"
  note bok = ref_table[OF wf ref[unfolded r]]
  have "entry_ok ty (?c ! p)" using bok re(3) by (auto simp: bucket_ok_def chain_ok_def)
  with nv re(4) obtain old where e: "?c ! p = Normal key old"
    by (cases "?c ! p") (auto simp: entry_ok_def)
  let ?c' = "?c[p := Normal key (Some v)]"
  let ?d = "upd_bucket t i ?c' (ht_used (dict_ht d t)) d"
  have "valDup ty = None \<or> valDup ty = Some id" using ty by (cases "valDup ty") (auto simp: type_ok_def)
  then have run: "set_val_at ty d ref v = Some ?d"
    using re(2,5) e by (auto simp: set_val_at_def r set_entry_def aref_in set_chain_upd)
  have "chain_ok ty ?c'"
    using bok re(3) e nv by (intro chain_ok_update) (auto simp: bucket_ok_def entry_ok_def)
  then have c': "bucket_ok ty (ht_size_exp (dict_ht d t)) i ?c'"
    using bok re(3,4) set_update_subset_insert[of ?c p "Normal key (Some v)"] nth_mem[OF re(3)]
    by (fastforce simp: bucket_ok_def)
  have m: "mset (map kv ?c) = add_mset (key, old) (mset (map kv (take p ?c @ drop (Suc p) ?c)))"
    "mset (map kv ?c') = add_mset (key, Some v) (mset (map kv (take p ?c @ drop (Suc p) ?c)))"
    using mset_map_nth[OF re(3), of kv] mset_map_update[OF re(3), of kv] e by (simp_all add: kv_def)
  obtain B where B: "dict_bag d = mset (map kv ?c) + B"
  proof
    show "dict_bag d = mset (map kv ?c) + (dict_bag d - mset (map kv ?c))"
      using upd_bucket_bag[OF re(1,2), of "[]" 0] by simp (metis add_diff_cancel_right' union_commute)
  qed
  have bag: "dict_bag ?d = mset (map kv ?c') + B"
    using upd_bucket_bag[OF re(1,2), of ?c' "ht_used (dict_ht d t)"] B by (simp add: ac_simps)
  let ?B = "mset (map kv (take p ?c @ drop (Suc p) ?c)) + B"
  have bags: "dict_bag d = add_mset (key, old) ?B" "dict_bag ?d = add_mset (key, Some v) ?B"
    unfolding B bag m by simp_all
  have "dict_wf ty ?d"
  proof (rule upd_bucket_wf[OF wf re(1,2) c'])
    have "mset (map dictGetKey (dict_entries ?d)) = mset (map dictGetKey (dict_entries d))"
      unfolding dict_bag_keys[symmetric] bags by simp
    from mset_eq_imp_distinct_iff[OF this] show "distinct (map dictGetKey (dict_entries ?d))"
      using dict_wfD(3)[OF wf] by simp
    have "size (dict_bag ?d) = size (dict_bag d)" unfolding bags by simp
    then show "size (dict_bag ?d) < 2 ^ 64"
      using dict_bag_size[OF dict_wfD(1,2)[OF wf]] dict_wfD(4)[OF wf] by simp
  qed (use re(3) in auto)
  then show ?thesis using run re(5) e bags by (auto simp: r)
qed

lemma unlink_ref_ok:
  assumes wf: "dict_wf ty d" and ref: "ref_of d key ref"
  shows "\<exists>d' he. unlink_ref d ref = Some (d', he) \<and> dictGetKey he = key \<and> dict_wf ty d' \<and> dict_frame d d' \<and>
    dict_bag d = add_mset (kv he) (dict_bag d')"
proof -
  obtain t i p where r: "ref = (t, i, p)" by (cases ref) auto
  note re = ref_entry[OF ref[unfolded r]]
  let ?c = "ht_table (dict_ht d t) ! i"
  let ?he = "?c ! p"
  note bok = ref_table[OF wf ref[unfolded r]]
  let ?c' = "take p ?c @ drop (Suc p) ?c"
  let ?d = "upd_bucket t i ?c' (ht_used (dict_ht d t) - 1) d"
  have cok: "chain_ok ty ?c" by (rule bucket_ok_chain[OF bok])
  have run: "unlink_ref d ref = Some (?d, ?he)"
    using re(2,5) chain_unlink_ok[OF cok re(3)] set_chain_used[of t "\<lambda>u. u - 1" i ?c' d]
    by (simp add: unlink_ref_def r aref_in Let_def)
  have m: "mset (map kv ?c) = add_mset (kv ?he) (mset (map kv ?c'))" by (rule mset_map_nth[OF re(3)])
  have "dict_bag ?d + mset (map kv ?c) = dict_bag d + mset (map kv ?c')"
    by (rule upd_bucket_bag[OF re(1,2)])
  then have "dict_bag d + mset (map kv ?c') = add_mset (kv ?he) (dict_bag ?d) + mset (map kv ?c')"
    unfolding m by simp
  then have bag: "dict_bag d = add_mset (kv ?he) (dict_bag ?d)" by (rule add_right_imp_eq)
  have c': "bucket_ok ty (ht_size_exp (dict_ht d t)) i ?c'"
    using bok chain_ok_remove[OF cok re(3)] by (auto simp: bucket_ok_def dest: in_set_takeD in_set_dropD)
  have used: "0 < ht_used (dict_ht d t)"
    using ht_ok_used[OF ht_ok_dict_ht[OF wf, of t]] concat_split[OF re(2)] re(3) by auto
  have "dict_wf ty ?d"
  proof (rule upd_bucket_wf[OF wf re(1,2) c'])
    show "ht_used (dict_ht d t) - 1 + length ?c = ht_used (dict_ht d t) + length ?c'"
      using used re(3) by simp
    have "distinct (map dictGetKey (dict_entries d))" by (rule dict_wfD(3)[OF wf])
    then show "distinct (map dictGetKey (dict_entries ?d))"
      using distinct_keys_add[of d "fst (kv ?he)" "snd (kv ?he)" ?d] bag by simp
    have "size (dict_bag d) = Suc (size (dict_bag ?d))" unfolding bag by simp
    then show "size (dict_bag ?d) < 2 ^ 64"
      using dict_bag_size[OF dict_wfD(1,2)[OF wf]] dict_wfD(4)[OF wf] by linarith
  qed (use re(3) in auto)
  then show ?thesis using run re(4) bag by auto
qed

end
