(* ===== verification/Map_Interface.thy ===== *)
theory Map_Interface
  imports Redis_Prelude
begin

text \<open>
  The contract of a dictionary: what its operations do to the map it stands for, when they may run
  maintenance of their own (resizing, incremental rehashing) at any moment. The
  setting of the environment an operation runs under is its first argument, so that it may change
  from one operation to the next. An operation may fail an assertion (\<open>None\<close>); the contract is
  that it does not. The consequence proved once here is that any sequence of operations
  behaves like the sequence on the abstract map.
\<close>

datatype ('k, 'v, 'm) map_op =
    MapAdd 'k 'v | MapReplace 'k 'v | MapDelete 'k | MapFetch 'k | MapMaint 'm

datatype 'v map_result = Done bool | Value "'v option" | Kept

text \<open>The abstract map, with the results of the operations.\<close>

fun spec_op :: "('k \<rightharpoonup> 'v) \<Rightarrow> ('k, 'v, 'm) map_op \<Rightarrow> ('k \<rightharpoonup> 'v) \<times> 'v map_result" where
  "spec_op m (MapAdd k v) = (if k \<in> dom m then (m, Done False) else (m(k \<mapsto> v), Done True))"
| "spec_op m (MapReplace k v) = (m(k \<mapsto> v), Done (k \<notin> dom m))"
| "spec_op m (MapDelete k) = (m(k := None), Done (k \<in> dom m))"
| "spec_op m (MapFetch k) = (m, Value (m k))"
| "spec_op m (MapMaint _) = (m, Kept)"

primrec spec_ops :: "('k \<rightharpoonup> 'v) \<Rightarrow> ('e \<times> ('k, 'v, 'm) map_op) list \<Rightarrow> ('k \<rightharpoonup> 'v) \<times> 'v map_result list" where
  "spec_ops m [] = (m, [])"
| "spec_ops m (u # us) =
     (let (m', r) = spec_op m (snd u); (m'', rs) = spec_ops m' us in (m'', r # rs))"

primrec run_ops :: "('e \<Rightarrow> 's \<Rightarrow> ('k, 'v, 'm) map_op \<Rightarrow> ('s \<times> 'v map_result) option) \<Rightarrow> 's \<Rightarrow>
    ('e \<times> ('k, 'v, 'm) map_op) list \<Rightarrow> ('s \<times> 'v map_result list) option" where
  "run_ops step s [] = Some (s, [])"
| "run_ops step s (u # us) = do {
     (s', r) \<leftarrow> step (fst u) s (snd u);
     (s'', rs) \<leftarrow> run_ops step s' us;
     Some (s'', r # rs)
   }"

lemma spec_op_dom_card: "finite (dom m) \<Longrightarrow> card (dom (fst (spec_op m u))) \<le> Suc (card (dom m))"
  by (cases u) (auto simp: card_insert_if dom_fun_upd split: if_splits
      intro: le_SucI[OF card_Diff1_le] order_trans[OF card_mono])

locale map_encoding =
  fixes invar :: "'s \<Rightarrow> bool"
    and mapping :: "'s \<Rightarrow> 'k \<rightharpoonup> 'v"
    and cap :: nat
    and step :: "'e \<Rightarrow> 's \<Rightarrow> ('k, 'v, 'm) map_op \<Rightarrow> ('s \<times> 'v map_result) option"
  assumes finite_dom: "invar s \<Longrightarrow> finite (dom (mapping s))"
    and step_correct: "invar s \<Longrightarrow> card (dom (mapping s)) < cap \<Longrightarrow>
      \<exists>s' r. step e s u = Some (s', r) \<and> invar s' \<and> (mapping s', r) = spec_op (mapping s) u"
begin

lemma ops_refine:
  assumes "invar s" "card (dom (mapping s)) + length us \<le> cap"
  shows "\<exists>s' rs. run_ops step s us = Some (s', rs) \<and> invar s' \<and> (mapping s', rs) = spec_ops (mapping s) us"
  using assms
proof (induction us arbitrary: s)
  case (Cons u us)
  have "card (dom (mapping s)) < cap" using Cons.prems(2) by simp
  from step_correct[OF Cons.prems(1) this, of "fst u" "snd u"] obtain s' r where
    s': "step (fst u) s (snd u) = Some (s', r)" "invar s'" "(mapping s', r) = spec_op (mapping s) (snd u)"
    by auto
  have "card (dom (mapping s')) \<le> Suc (card (dom (mapping s)))"
    using spec_op_dom_card[OF finite_dom[OF Cons.prems(1)], of "snd u"] s'(3) by (metis fst_conv)
  then have "card (dom (mapping s')) + length us \<le> cap" using Cons.prems(2) by simp
  from Cons.IH[OF s'(2) this] obtain s'' rs where
    "run_ops step s' us = Some (s'', rs)" "invar s''" "(mapping s'', rs) = spec_ops (mapping s') us" by auto
  then show ?case using s' by (auto simp: Let_def split: prod.splits)
qed simp

end

end
