(* ===== verification/Dict_Refine.thy ===== *)
theory Dict_Refine
  imports Dict_Map Map_Interface
begin

text \<open>
  The dictionary implements a map: every operation, with whatever incremental rehashing
  and resizing it performs, has the effect and the result of the operation on the abstract map,
  fails no assertion and touches no memory outside the tables. Rehashing always comes to an end.
\<close>

section \<open>The map of a dictionary\<close>

lemma dict_map_bag: "dict_wf ty d \<Longrightarrow> dict_map d k = Some v \<longleftrightarrow> (k, v) \<in># dict_bag d"
  using dict_wfD(3)[of ty d] unfolding dict_map_def dict_bag_def
  by (subst map_of_eq_Some_iff) (auto simp: comp_def kv_def)

lemma dict_keys_dom: "dict_keys d = dom (dict_map d)"
  by (simp add: dict_keys_def dict_map_def dom_map_of_conv_image_fst image_image kv_def)

lemma card_dict_keys: "dict_wf ty d \<Longrightarrow> card (dict_keys d) = size (dict_bag d)"
  using dict_wfD(3)[of ty d] distinct_card[of "map dictGetKey (dict_entries d)"]
  by (simp add: dict_keys_def dict_bag_def)

lemma map_eqI: "(\<And>k v. m k = Some v \<longleftrightarrow> m' k = Some v) \<Longrightarrow> m = m'"
  by (rule ext) (metis not_None_eq)

lemma dict_map_keeps: "dict_wf ty d \<Longrightarrow> dict_keeps ty d d' \<Longrightarrow> dict_map d' = dict_map d"
  by (rule map_eqI) (auto simp: dict_keeps_def dict_map_bag)

lemma dict_map_add:
  assumes "dict_wf ty d" "dict_wf ty d'" "dict_bag d' = add_mset (k, v) (dict_bag d)"
  shows "dict_map d' = (dict_map d)(k \<mapsto> v)" "k \<notin> dict_keys d"
proof -
  show k: "k \<notin> dict_keys d" using distinct_keys_add[OF assms(3)] dict_wfD(3)[OF assms(2)] by simp
  then show "dict_map d' = (dict_map d)(k \<mapsto> v)"
    by (intro map_eqI) (auto simp: dict_map_bag[OF assms(2)] dict_map_bag[OF assms(1)] assms(3) dict_keys_bag rev_image_eqI)
qed

lemma dict_map_remove:
  assumes "dict_wf ty d" "dict_wf ty d'" "dict_bag d = add_mset (k, v) (dict_bag d')"
  shows "dict_map d' = (dict_map d)(k := None)"
  using dict_map_add[OF assms(2,1,3)] by (auto simp: dict_keys_dom fun_upd_idem domIff)

lemma dict_map_replace:
  assumes "dict_wf ty d" "dict_wf ty d'" "dict_bag d = add_mset (k, v) B" "dict_bag d' = add_mset (k, v') B"
  shows "dict_map d' = (dict_map d)(k \<mapsto> v')"
proof -
  have "mset (map dictGetKey (dict_entries d)) = add_mset k (image_mset fst B)"
    unfolding dict_bag_keys[symmetric] by (simp add: assms(3))
  moreover obtain ys where ys: "mset ys = image_mset fst B" using ex_mset by auto
  ultimately have "mset (map dictGetKey (dict_entries d)) = mset (k # ys)" by simp
  from mset_eq_imp_distinct_iff[OF this] have "k \<notin> set ys" using dict_wfD(3)[OF assms(1)] by simp
  then have k: "k \<notin># image_mset fst B" using ys by (metis set_mset_mset)
  show ?thesis
    by (rule map_eqI) (use k in \<open>auto simp: dict_map_bag[OF assms(1)] dict_map_bag[OF assms(2)] assms(3,4) rev_image_eqI\<close>)
qed

section \<open>The operations\<close>

lemma dictDelete_ok:
  assumes ty: "type_ok ty" and wf: "dict_wf ty d"
  shows "\<exists>d' he. dictGenericDelete cr ty d key = Some (d', he) \<and> dict_wf ty d' \<and> dict_frame d d' \<and>
    (case he of None \<Rightarrow> key \<notin> dict_keys d | Some e \<Rightarrow> dictGetKey e = key \<and> key \<in> dict_keys d) \<and>
    dict_map d' = (dict_map d)(key := None)"
proof (cases "dictSize d = 0")
  case True
  then have "key \<notin> dict_keys d" using dictSize_bag[OF wf] by (simp add: dict_keys_bag)
  with True wf show ?thesis
    by (auto simp: dictGenericDelete_def dict_frame_def dict_keys_dom fun_upd_idem domIff)
next
  case False
  let ?h = "hashFunction ty key"
  let ?idx = "hash_idx ?h (ht_size_exp (ht0 d))"
  obtain d1 where d1: "rehash_for_access cr ty d ?idx = Some d1" "rehash_step_ok ty d d1"
    using rehash_for_access_ok[OF ty wf] by blast
  then have k1: "dict_keeps ty d d1" and wf1: "dict_wf ty d1" by (auto simp: rehash_step_ok_def dict_keeps_def)
  note m1 = dict_map_keeps[OF wf k1]
  have run: "dictGenericDelete cr ty d key = Option.bind (tables_search ty d1 ?h ?idx key)
      (\<lambda>r. case r of
          Inl ref \<Rightarrow> Option.bind (unlink_ref d1 ref) (\<lambda>(d, he).
            Option.bind (dictShrinkIfNeeded_auto cr ty d) (\<lambda>d. Some (d, Some he)))
        | Inr _ \<Rightarrow> Some (d1, None))"
    using False d1(1) by (simp add: dictGenericDelete_def Let_def dictHashKey_ok[OF ty])
  from find_after_access[OF ty wf dict_nonempty_table[OF wf False] d1(2), of key]
  show ?thesis
  proof (elim disjE conjE exE)
    fix ref assume key: "key \<in> dict_keys d" and r: "tables_search ty d1 ?h ?idx key = Some (Inl ref)" "ref_of d1 key ref"
    from unlink_ref_ok[OF wf1 r(2)] obtain d2 he where d2: "unlink_ref d1 ref = Some (d2, he)"
      "dictGetKey he = key" "dict_wf ty d2" "dict_frame d1 d2" "dict_bag d1 = add_mset (kv he) (dict_bag d2)" by auto
    from dictShrinkIfNeeded_auto_ok[OF d2(3)] obtain d3 where d3: "dictShrinkIfNeeded_auto cr ty d2 = Some d3"
      "dict_keeps ty d2 d3" by (auto simp: resize_ok_def)
    have "dict_map d3 = (dict_map d)(key := None)"
      using dict_map_keeps[OF d2(3) d3(2)] dict_map_remove[OF wf1 d2(3), of key "entry_val he"] d2(2,5) m1
      by (simp add: kv_def)
    then show ?thesis using run r(1) d2 d3 k1 key by (auto simp: dict_keeps_def dict_frame_def)
  next
    fix i assume key: "key \<notin> dict_keys d" and r: "tables_search ty d1 ?h ?idx key = Some (Inr i)"
    then show ?thesis using run k1 wf1 m1 by (auto simp: dict_keeps_def dict_keys_dom fun_upd_idem domIff)
  qed
qed

lemma dictAdd_ok:
  assumes ty: "type_ok ty" and wf: "dict_wf ty d" and ins: "can_insert d"
    and room: "size (dict_bag d) < 2 ^ 64 - 1"
  shows "\<exists>d'. dictAdd cr ty d k v = Some (d', k \<notin> dict_keys d) \<and> dict_wf ty d' \<and> dict_frame d d' \<and>
    dict_map d' = (if k \<in> dict_keys d then dict_map d
                   else (dict_map d)(k \<mapsto> (if no_value ty then None else Some v)))"
  using dictAddRaw_ok[OF ty wf ins room, of k cr]
proof (elim disjE conjE exE)
  fix d' ref assume "k \<in> dict_keys d" "dictAddRaw cr ty d k = Some (d', Inl ref)" "dict_keeps ty d d'"
  then show ?thesis using dict_map_keeps[OF wf, of d'] by (auto simp: dictAdd_def dict_keeps_def)
next
  fix d1 ref assume new: "k \<notin> dict_keys d" and d1: "dictAddRaw cr ty d k = Some (d1, Inr ref)" "dict_wf ty d1"
    "dict_bag d1 = add_mset (k, None) (dict_bag d)" "dict_frame d d1" "ref_of d1 k ref"
  note m1 = dict_map_add(1)[OF wf d1(2,3)]
  show ?thesis
  proof (cases "no_value ty")
    case True
    then show ?thesis using new d1 m1 by (simp add: dictAdd_def)
  next
    case False
    from set_val_at_ok[OF ty d1(2) False d1(5), of v] obtain d' old B where d': "set_val_at ty d1 ref v = Some d'"
      "dict_wf ty d'" "dict_frame d1 d'" "dict_bag d1 = add_mset (k, old) B" "dict_bag d' = add_mset (k, Some v) B"
      by auto
    have "dict_map d' = (dict_map d)(k \<mapsto> Some v)"
      using dict_map_replace[OF d1(2) d'(2,4,5)] m1 by simp
    then show ?thesis using False new d1 d' by (auto simp: dictAdd_def dict_frame_def)
  qed
qed

lemma dictReplace_ok:
  assumes ty: "type_ok ty" and nv: "\<not> no_value ty" and wf: "dict_wf ty d" and ins: "can_insert d"
    and room: "size (dict_bag d) < 2 ^ 64 - 1"
  shows "\<exists>d'. dictReplace cr ty d k v = Some (d', k \<notin> dict_keys d) \<and> dict_wf ty d' \<and> dict_frame d d' \<and>
    dict_map d' = (dict_map d)(k \<mapsto> Some v)"
  using dictAddRaw_ok[OF ty wf ins room, of k cr]
proof (elim disjE conjE exE)
  fix d1 ref assume old: "k \<in> dict_keys d" and d1: "dictAddRaw cr ty d k = Some (d1, Inl ref)" "dict_keeps ty d d1"
    "ref_of d1 k ref"
  have wf1: "dict_wf ty d1" using d1(2) by (simp add: dict_keeps_def)
  from set_val_at_ok[OF ty wf1 nv d1(3), of v] obtain d' old B where d': "entry_at d1 ref = Some (Normal k old)"
    "set_val_at ty d1 ref v = Some d'" "dict_wf ty d'" "dict_frame d1 d'" "dict_bag d1 = add_mset (k, old) B"
    "dict_bag d' = add_mset (k, Some v) B" by auto
  have "dict_map d' = (dict_map d)(k \<mapsto> Some v)"
    using dict_map_replace[OF wf1 d'(3,5,6)] dict_map_keeps[OF wf d1(2)] by simp
  then show ?thesis using old d1 d' by (auto simp: dictReplace_def dict_frame_def dict_keeps_def)
next
  fix d1 ref assume new: "k \<notin> dict_keys d" and d1: "dictAddRaw cr ty d k = Some (d1, Inr ref)" "dict_wf ty d1"
    "dict_bag d1 = add_mset (k, None) (dict_bag d)" "dict_frame d d1" "ref_of d1 k ref"
  from set_val_at_ok[OF ty d1(2) nv d1(5), of v] obtain d' old B where d': "set_val_at ty d1 ref v = Some d'"
    "dict_wf ty d'" "dict_frame d1 d'" "dict_bag d1 = add_mset (k, old) B" "dict_bag d' = add_mset (k, Some v) B"
    by auto
  have "dict_map d' = (dict_map d)(k \<mapsto> Some v)"
    using dict_map_replace[OF d1(2) d'(2,4,5)] dict_map_add(1)[OF wf d1(2,3)] by simp
  then show ?thesis using new d1 d' by (auto simp: dictReplace_def dict_frame_def)
qed

lemma ref_map:
  assumes wf: "dict_wf ty d" and ref: "ref_of d k ref"
  shows "\<exists>e. entry_at d ref = Some e \<and> dict_map d k = Some (entry_val e) \<and> entry_ok ty e"
proof -
  obtain t i p where r: "ref = (t, i, p)" by (cases ref) auto
  note re = ref_entry[OF ref[unfolded r]]
  let ?e = "ht_table (dict_ht d t) ! i ! p"
  have "kv ?e \<in># dict_bag d"
    using upd_bucket_bag[OF re(1,2), of "[]" 0] mset_map_nth[OF re(3), of kv]
    by (metis (no_types) empty_neutral(2) list.map_disc_iff mset.simps(1) union_iff add_mset_add_single union_single_eq_member)
  then have "dict_map d k = Some (entry_val ?e)"
    using re(4) by (simp add: dict_map_bag[OF wf] kv_def)
  moreover have "entry_ok ty ?e"
    using ref_table[OF wf ref[unfolded r]] nth_mem[OF re(3)] by (auto simp: bucket_ok_def chain_ok_def)
  ultimately show ?thesis using re(5) by (auto simp: r)
qed

lemma dictFetchValue_ok:
  assumes ty: "type_ok ty" and nv: "\<not> no_value ty" and wf: "dict_wf ty d"
  shows "\<exists>d'. dictFetchValue cr ty d k = Some (d', Option.bind (dict_map d k) id) \<and> dict_keeps ty d d'"
proof -
  from dictFind_ok[OF ty wf, of cr k] obtain d' r where d': "dictFind cr ty d k = Some (d', r)"
    "dict_keeps ty d d'" "case r of Some ref \<Rightarrow> k \<in> dict_keys d \<and> ref_of d' k ref | None \<Rightarrow> k \<notin> dict_keys d"
    by auto
  have wf': "dict_wf ty d'" using d'(2) by (simp add: dict_keeps_def)
  show ?thesis
  proof (cases r)
    case None
    then show ?thesis using d' by (auto simp: dictFetchValue_def dict_keys_dom domIff)
  next
    case (Some ref)
    then obtain e where e: "entry_at d' ref = Some e" "dict_map d' k = Some (entry_val e)" "entry_ok ty e"
      using ref_map[OF wf', of k ref] d'(3) by auto
    then obtain v where "e = Normal (dictGetKey e) v" using nv by (cases e) (auto simp: entry_ok_def)
    then have "dictGetVal e = Some (entry_val e)" by (metis dictGetVal.simps(1) entry_val.simps(1))
    then show ?thesis using Some d' e dict_map_keeps[OF wf d'(2)] by (auto simp: dictFetchValue_def)
  qed
qed

section \<open>Rehashing ends\<close>

definition rehash_left :: "('k, 'v) dict \<Rightarrow> nat" where
  "rehash_left d = (if dictIsRehashing d then length (ht_table (ht0 d)) + 1 - nat (rehashidx d) else 0)"

lemma rehash_left_progress:
  assumes wf: "dict_wf ty d" and re: "dictIsRehashing d" and p: "rehash_progress ty d d' again"
    and lt: "again \<longrightarrow> rehashidx d < rehashidx d'"
  shows "rehash_left d' < rehash_left d"
proof (cases again)
  case True
  then have d': "dict_wf ty d'" "dictIsRehashing d'" "ht_size_exp (ht0 d') = ht_size_exp (ht0 d)"
    using p by (auto simp: rehash_progress_def dict_keeps_def)
  note r = dict_wf_rehashing[OF wf re] and r' = dict_wf_rehashing[OF d'(1,2)]
  have "length (ht_table (ht0 d')) = length (ht_table (ht0 d))"
    using ht_okD(3)[OF dict_wfD(1)[OF d'(1)] r'(1)] ht_okD(3)[OF dict_wfD(1)[OF wf] r(1)] d'(3) by simp
  then show ?thesis using True lt re d'(2) r(4,5) r'(4,5) by (simp add: rehash_left_def)
next
  case False
  then have "\<not> dictIsRehashing d'" using p by (simp add: rehash_progress_def)
  then show ?thesis using re dict_wf_rehashing(5)[OF wf re] by (simp add: rehash_left_def)
qed

lemma rehash_us_loop_ok:
  assumes ty: "type_ok ty"
  shows "dict_wf ty d \<Longrightarrow> \<exists>d' n. rehash_us_loop cr ty elapsed i d = Some (d', n) \<and> dict_keeps ty d d'"
proof (induction d arbitrary: i rule: measure_induct_rule[of rehash_left])
  case (less d)
  from dictRehash_ok[OF ty less.prems, of cr 100] obtain d1 again where d1: "dictRehash cr ty d 100 = Some (d1, again)"
    "if rehash_refused cr d then d1 = d \<and> \<not> again
     else rehash_progress ty d d1 again \<and> (again \<longrightarrow> rehashidx d < rehashidx d1)" by auto
  have k1: "dict_keeps ty d d1"
    using d1(2) dict_keeps_refl[OF less.prems] by (auto simp: rehash_progress_def split: if_splits)
  show ?case
  proof (cases "again \<and> \<not> elapsed i")
    case False
    then show ?thesis using d1(1) k1 by (subst rehash_us_loop.simps) auto
  next
    case True
    then have "\<not> rehash_refused cr d" using d1(2) by auto
    then have re: "dictIsRehashing d" by (rule not_refused_rehashing)
    have "rehash_left d1 < rehash_left d"
      using d1(2) True by (intro rehash_left_progress[OF less.prems re]) (auto split: if_splits)
    from less.IH[OF this, of "i + 1"] k1 obtain d' n where
      "rehash_us_loop cr ty elapsed (i + 1) d1 = Some (d', n)" "dict_keeps ty d1 d'" by (auto simp: dict_keeps_def)
    then show ?thesis using True d1(1) dict_keeps_trans[OF k1] by (subst rehash_us_loop.simps) auto
  qed
qed

lemma dictRehashMicroseconds_ok:
  assumes "type_ok ty" "dict_wf ty d"
  shows "\<exists>d' n. dictRehashMicroseconds cr ty elapsed d = Some (d', n) \<and> dict_keeps ty d d'"
  using rehash_us_loop_ok[OF assms] dict_keeps_refl[OF assms(2)] by (simp add: dictRehashMicroseconds_def)

primrec rehash_steps :: "dictResizeEnable \<Rightarrow> ('k, 'v) dictType \<Rightarrow> nat \<Rightarrow> ('k, 'v) dict \<Rightarrow> ('k, 'v) dict option" where
  "rehash_steps cr ty 0 d = Some d"
| "rehash_steps cr ty (Suc n) d = do { d \<leftarrow> dictRehashStep cr ty d; rehash_steps cr ty n d }"

lemma rehash_steps_ok:
  assumes ty: "type_ok ty" and cr: "cr = DICT_RESIZE_ENABLE"
  shows "dict_wf ty d \<Longrightarrow> pauserehash d = 0 \<Longrightarrow> rehash_left d \<le> n \<Longrightarrow>
    \<exists>d'. rehash_steps cr ty n d = Some d' \<and> dict_keeps ty d d' \<and> \<not> dictIsRehashing d'"
proof (induction n arbitrary: d)
  case 0
  then have "\<not> dictIsRehashing d"
    using dict_wf_rehashing(5)[OF 0(1)] by (auto simp: rehash_left_def split: if_splits)
  then show ?case using dict_keeps_refl[OF 0(1)] by simp
next
  case (Suc n)
  from dictRehash_ok[OF ty Suc.prems(1), of cr 1] obtain d1 again where d1: "dictRehash cr ty d 1 = Some (d1, again)"
    "if rehash_refused cr d then d1 = d \<and> \<not> again
     else rehash_progress ty d d1 again \<and> (again \<longrightarrow> rehashidx d < rehashidx d1)" by auto
  have step: "dictRehashStep cr ty d = Some d1" using Suc.prems(2) d1(1) by (simp add: dictRehashStep_def)
  have ref: "rehash_refused cr d \<longleftrightarrow> \<not> dictIsRehashing d" using cr by (simp add: rehash_refused_def Let_def)
  have k1: "dict_keeps ty d d1" and left: "rehash_left d1 \<le> n"
    using d1(2) ref dict_keeps_refl[OF Suc.prems(1)] Suc.prems(3) rehash_left_progress[OF Suc.prems(1), of d1 again]
    by (auto simp: rehash_progress_def rehash_left_def[of d] split: if_splits)
  then have "dict_wf ty d1" "pauserehash d1 = 0" using Suc.prems(2) by (auto simp: dict_keeps_def dict_frame_def)
  from Suc.IH[OF this left] obtain d' where "rehash_steps cr ty n d1 = Some d'" "dict_keeps ty d1 d'"
    "\<not> dictIsRehashing d'" by auto
  then show ?case using step dict_keeps_trans[OF k1] by auto
qed

section \<open>The contract of a map\<close>

text \<open>The maintenance that may run between two operations.\<close>

datatype dict_maint =
    Rehash nat | RehashMicroseconds "nat \<Rightarrow> bool" | Expand nat | TryExpand bool nat | Shrink nat
  | ExpandIfNeeded | ShrinkIfNeeded

fun dict_maintain :: "dictResizeEnable \<Rightarrow> ('k, 'v) dictType \<Rightarrow> ('k, 'v) dict \<Rightarrow> dict_maint \<Rightarrow> ('k, 'v) dict option" where
  "dict_maintain cr ty d (Rehash n) = do { (d, _) \<leftarrow> dictRehash cr ty d n; Some d }"
| "dict_maintain cr ty d (RehashMicroseconds elapsed) =
     do { (d, _) \<leftarrow> dictRehashMicroseconds cr ty elapsed d; Some d }"
| "dict_maintain cr ty d (Expand n) = do { (d, _) \<leftarrow> dictExpand d n; Some d }"
| "dict_maintain cr ty d (TryExpand alloc_ok n) = do { (d, _) \<leftarrow> dictTryExpand alloc_ok d n; Some d }"
| "dict_maintain cr ty d (Shrink n) = do { (d, _) \<leftarrow> dictShrink d n; Some d }"
| "dict_maintain cr ty d ExpandIfNeeded = do { (d, _) \<leftarrow> dictExpandIfNeeded cr ty d; Some d }"
| "dict_maintain cr ty d ShrinkIfNeeded = do { (d, _) \<leftarrow> dictShrinkIfNeeded cr ty d; Some d }"

fun dict_step :: "('k, 'v) dictType \<Rightarrow> dictResizeEnable \<Rightarrow> ('k, 'v) dict \<Rightarrow> ('k, 'v, dict_maint) map_op \<Rightarrow>
    (('k, 'v) dict \<times> 'v map_result) option" where
  "dict_step ty cr d (MapAdd k v) = do { (d, b) \<leftarrow> dictAdd cr ty d k v; Some (d, Done b) }"
| "dict_step ty cr d (MapReplace k v) = do { (d, b) \<leftarrow> dictReplace cr ty d k v; Some (d, Done b) }"
| "dict_step ty cr d (MapDelete k) = do { (d, b) \<leftarrow> dictDelete cr ty d k; Some (d, Done b) }"
| "dict_step ty cr d (MapFetch k) = do { (d, v) \<leftarrow> dictFetchValue cr ty d k; Some (d, Value v) }"
| "dict_step ty cr d (MapMaint m) = do { d \<leftarrow> dict_maintain cr ty d m; Some (d, Kept) }"

definition dict_vals :: "('k, 'v) dict \<Rightarrow> 'k \<rightharpoonup> 'v" where
  "dict_vals d k = Option.bind (dict_map d k) id"

text \<open>A dictionary in use as a map: well formed, every value set, automatic resizing not paused.\<close>

definition dict_inv :: "('k, 'v) dictType \<Rightarrow> ('k, 'v) dict \<Rightarrow> bool" where
  "dict_inv ty d \<longleftrightarrow> type_ok ty \<and> \<not> no_value ty \<and> dict_wf ty d \<and> pauseAutoResize d \<le> 0 \<and>
     (\<forall>k. dict_map d k \<noteq> Some None)"

lemma dict_invD:
  assumes "dict_inv ty d"
  shows "type_ok ty" "\<not> no_value ty" "dict_wf ty d" "can_insert d" "\<And>k. dict_map d k \<noteq> Some None"
  using assms by (auto simp: dict_inv_def can_insert_def)

lemma dict_invI:
  assumes "dict_inv ty d" "dict_wf ty d'" "dict_frame d d'" "\<And>k. dict_map d' k \<noteq> Some None"
  shows "dict_inv ty d'"
  using assms by (auto simp: dict_inv_def dict_frame_def)

lemma dict_vals_dom: "dict_inv ty d \<Longrightarrow> dom (dict_vals d) = dict_keys d"
proof -
  assume inv: "dict_inv ty d"
  have "dict_vals d k \<noteq> None \<longleftrightarrow> dict_map d k \<noteq> None" for k
    using dict_invD(5)[OF inv, of k] by (cases "dict_map d k") (auto simp: dict_vals_def)
  then show ?thesis by (auto simp: dict_keys_dom)
qed

lemma dict_inv_keeps:
  assumes "dict_inv ty d" "dict_keeps ty d d'"
  shows "dict_inv ty d' \<and> dict_vals d' = dict_vals d"
proof -
  have "dict_map d' = dict_map d" by (rule dict_map_keeps[OF dict_invD(3)[OF assms(1)] assms(2)])
  then show ?thesis
    using assms(2) dict_invI[OF assms(1), of d'] dict_invD(5)[OF assms(1)]
    by (auto simp: dict_keeps_def dict_vals_def)
qed

lemma dict_maintain_ok:
  assumes ty: "type_ok ty" and wf: "dict_wf ty d"
  shows "\<exists>d'. dict_maintain cr ty d m = Some d' \<and> dict_keeps ty d d'"
proof (cases m)
  case (Rehash n)
  then show ?thesis using dictRehash_ok[OF ty wf, of cr n] dict_keeps_refl[OF wf]
    by (auto simp: rehash_progress_def split: if_splits)
next
  case (RehashMicroseconds e)
  then show ?thesis using dictRehashMicroseconds_ok[OF ty wf, of cr e] by auto
next
  case (Expand n)
  then show ?thesis using dictExpand_ok[OF wf, of n] by (auto simp: resize_ok_def)
next
  case (TryExpand b n)
  then show ?thesis using dictExpand_malloc_ok[OF wf, of "Some b" n] by (auto simp: dictTryExpand_def resize_ok_def)
next
  case (Shrink n)
  then show ?thesis using dictShrink_ok[OF wf, of n] by (auto simp: resize_ok_def)
next
  case ExpandIfNeeded
  then show ?thesis using dictExpandIfNeeded_ok[OF wf, of cr] by (auto simp: resize_ok_def)
next
  case ShrinkIfNeeded
  then show ?thesis using dictShrink_ok[OF wf, of "ht_used (ht0 d)"] dict_keeps_refl[OF wf]
    by (auto simp: dictShrinkIfNeeded_def Let_def resize_ok_def)
qed

lemma dict_step_ok:
  assumes inv: "dict_inv ty d" and room: "card (dom (dict_vals d)) < 2 ^ 64 - 1"
  shows "\<exists>d' r. dict_step ty cr d u = Some (d', r) \<and> dict_inv ty d' \<and> (dict_vals d', r) = spec_op (dict_vals d) u"
proof -
  note i = dict_invD[OF inv]
  have room': "size (dict_bag d) < 2 ^ 64 - 1"
    using room card_dict_keys[OF i(3)] by (simp add: dict_vals_dom[OF inv])
  note dom = dict_vals_dom[OF inv]
  show ?thesis
  proof (cases u)
    case (MapAdd k v)
    from dictAdd_ok[OF i(1,3,4) room', of cr k v] i(2) obtain d' where d':
      "dictAdd cr ty d k v = Some (d', k \<notin> dict_keys d)" "dict_wf ty d'" "dict_frame d d'"
      "dict_map d' = (if k \<in> dict_keys d then dict_map d else (dict_map d)(k \<mapsto> Some v))" by auto
    then have "dict_inv ty d'" using i(5) by (intro dict_invI[OF inv]) auto
    moreover have "dict_vals d' = (if k \<in> dict_keys d then dict_vals d else (dict_vals d)(k \<mapsto> v))"
      by (rule ext) (simp add: dict_vals_def d'(4))
    ultimately show ?thesis using MapAdd d'(1) dom by auto
  next
    case (MapReplace k v)
    from dictReplace_ok[OF i(1,2,3,4) room', of cr k v] obtain d' where d':
      "dictReplace cr ty d k v = Some (d', k \<notin> dict_keys d)" "dict_wf ty d'" "dict_frame d d'"
      "dict_map d' = (dict_map d)(k \<mapsto> Some v)" by auto
    then have "dict_inv ty d'" using i(5) by (intro dict_invI[OF inv]) auto
    moreover have "dict_vals d' = (dict_vals d)(k \<mapsto> v)"
      by (rule ext) (simp add: dict_vals_def d'(4))
    ultimately show ?thesis using MapReplace d'(1) dom by auto
  next
    case (MapDelete k)
    from dictDelete_ok[OF i(1,3), of cr k] obtain d' he where d':
      "dictGenericDelete cr ty d k = Some (d', he)" "dict_wf ty d'" "dict_frame d d'"
      "case he of None \<Rightarrow> k \<notin> dict_keys d | Some e \<Rightarrow> dictGetKey e = k \<and> k \<in> dict_keys d"
      "dict_map d' = (dict_map d)(k := None)" by auto
    then have "dict_inv ty d'" using i(5) by (intro dict_invI[OF inv]) auto
    moreover have "dict_vals d' = (dict_vals d)(k := None)"
      by (rule ext) (simp add: dict_vals_def d'(5))
    moreover have "(he \<noteq> None) = (k \<in> dict_keys d)" using d'(4) by (auto split: option.splits)
    ultimately show ?thesis using MapDelete d'(1) dom by (simp add: dictDelete_def)
  next
    case (MapFetch k)
    from dictFetchValue_ok[OF i(1,2,3), of cr k] obtain d' where
      "dictFetchValue cr ty d k = Some (d', dict_vals d k)" "dict_keeps ty d d'" by (auto simp: dict_vals_def)
    then show ?thesis using MapFetch dict_inv_keeps[OF inv] by auto
  next
    case (MapMaint m)
    from dict_maintain_ok[OF i(1,3), of cr m] obtain d' where
      "dict_maintain cr ty d m = Some d'" "dict_keeps ty d d'" by auto
    then show ?thesis using MapMaint dict_inv_keeps[OF inv] by auto
  qed
qed

lemma dict_keys_finite [simp]: "finite (dict_keys d)"
  by (simp add: dict_keys_def)

interpretation dmap: map_encoding "dict_inv ty" dict_vals "2 ^ 64 - 1" "dict_step ty"
proof
  fix d :: "('a, 'b) dict"
  assume inv: "dict_inv ty d"
  then show "finite (dom (dict_vals d))" by (simp add: dict_vals_dom)
  fix cr and u :: "('a, 'b, dict_maint) map_op"
  assume "card (dom (dict_vals d)) < 2 ^ 64 - 1"
  from dict_step_ok[OF inv this] show
    "\<exists>d' r. dict_step ty cr d u = Some (d', r) \<and> dict_inv ty d' \<and> (dict_vals d', r) = spec_op (dict_vals d) u" .
qed

lemma dictCreate_wf: "dict_wf ty dictCreate" "dict_map dictCreate = Map.empty" "can_insert dictCreate"
  "pauserehash dictCreate = 0" "pauseAutoResize dictCreate = 0"
  by (simp_all add: dictCreate_def dict_wf_def dict_entries_def dict_map_def can_insert_def)

lemma dictCreate_inv: "type_ok ty \<Longrightarrow> \<not> no_value ty \<Longrightarrow> dict_inv ty dictCreate"
  by (simp add: dict_inv_def dictCreate_wf)

section \<open>The two-phase removal\<close>

lemma pause_simps [simp]:
  "ht0 (d\<lparr>pauserehash := n\<rparr>) = ht0 d" "ht1 (d\<lparr>pauserehash := n\<rparr>) = ht1 d"
  "dict_bag (d\<lparr>pauserehash := n\<rparr>) = dict_bag d" "dict_map (d\<lparr>pauserehash := n\<rparr>) = dict_map d"
  "ref_of (d\<lparr>pauserehash := n\<rparr>) k ref \<longleftrightarrow> ref_of d k ref"
  by (simp_all add: dict_bag_def dict_map_def dict_entries_def ref_of_def dict_ht_def split: prod.splits)

lemma pause_wf: "dict_wf ty d \<Longrightarrow> n < 2 ^ 15 \<Longrightarrow> dict_wf ty (d\<lparr>pauserehash := n\<rparr>)"
  by (simp add: dict_wf_def dict_entries_def)

lemma dictTwoPhaseUnlink_ok:
  assumes ty: "type_ok ty" and wf: "dict_wf ty d" and p: "pauserehash d < 2 ^ 15 - 1"
  shows "\<exists>d1 r d2. dictTwoPhaseUnlinkFind cr ty d key = Some (d1, r) \<and> (r \<noteq> None \<longleftrightarrow> key \<in> dict_keys d) \<and>
    (r \<noteq> None \<longrightarrow> pauserehash d1 = pauserehash d + 1) \<and> dict_map d1 = dict_map d \<and>
    dictTwoPhaseUnlinkFree cr ty d1 r = Some d2 \<and> dict_wf ty d2 \<and> dict_frame d d2 \<and>
    dict_map d2 = (dict_map d)(key := None)"
proof (cases "dictSize d = 0")
  case True
  then have "key \<notin> dict_keys d" using dictSize_bag[OF wf] by (simp add: dict_keys_bag)
  with True wf show ?thesis
    by (auto simp: dictTwoPhaseUnlinkFind_def dictTwoPhaseUnlinkFree_def dict_frame_def dict_keys_dom fun_upd_idem domIff)
next
  case False
  let ?h = "hashFunction ty key"
  obtain d1 where d1: "(if dictIsRehashing d then dictRehashStep cr ty d else Some d) = Some d1" "rehash_step_ok ty d d1"
    using dictRehashStep_ok[OF ty wf, of cr] rehash_step_ok_refl[OF wf] by (metis (full_types))
  then have k1: "dict_keeps ty d d1" and wf1: "dict_wf ty d1" by (auto simp: rehash_step_ok_def dict_keeps_def)
  have e1: "ht_size_exp (ht0 d1) \<noteq> -1"
    using d1(2) dict_nonempty_table[OF wf False] by (simp add: rehash_step_ok_def)
  note m1 = dict_map_keeps[OF wf k1]
  have f1: "pauserehash d1 = pauserehash d" using k1 by (simp add: dict_keeps_def dict_frame_def)
  let ?idx = "hash_idx ?h (ht_size_exp (ht0 d1))"
  have run: "dictTwoPhaseUnlinkFind cr ty d key = Option.bind (tables_search ty d1 ?h ?idx key)
      (\<lambda>r. case r of Inl ref \<Rightarrow> Some (dictPauseRehashing d1, Some ref) | Inr _ \<Rightarrow> Some (d1, None))"
    using False d1(1) by (simp add: dictTwoPhaseUnlinkFind_def Let_def dictHashKey_ok[OF ty])
  from tables_search_ok[OF ty wf1 e1 disjI1[OF refl], of key] show ?thesis
  proof (elim disjE conjE exE)
    fix ref assume key: "key \<in> dict_keys d1" and r: "tables_search ty d1 ?h ?idx key = Some (Inl ref)" "ref_of d1 key ref"
    define dp where "dp = d1\<lparr>pauserehash := pauserehash d1 + 1\<rparr>"
    have dp: "dictPauseRehashing d1 = dp" using p f1 by (simp add: dictPauseRehashing_def dp_def)
    have wfp: "dict_wf ty dp" unfolding dp_def using p f1 by (intro pause_wf[OF wf1]) simp
    have "ref_of dp key ref" using r(2) by (simp add: dp_def)
    from unlink_ref_ok[OF wfp this] obtain d2 he where d2: "unlink_ref dp ref = Some (d2, he)"
      "dictGetKey he = key" "dict_wf ty d2" "dict_frame dp d2" "dict_bag dp = add_mset (kv he) (dict_bag d2)" by auto
    from dictShrinkIfNeeded_auto_ok[OF d2(3), of cr] obtain d3 where d3: "dictShrinkIfNeeded_auto cr ty d2 = Some d3"
      "dict_keeps ty d2 d3" by (auto simp: resize_ok_def)
    have m3: "dict_map d3 = (dict_map d)(key := None)"
      using dict_map_keeps[OF d2(3) d3(2)] dict_map_remove[OF wfp d2(3), of key "entry_val he"] d2(2,5) m1
      by (simp add: kv_def dp_def)
    have p3: "pauserehash d3 = pauserehash d + 1"
      using d3(2) d2(4) f1 by (simp add: dict_keeps_def dict_frame_def dp_def)
    have res: "dictResumeRehashing d3 = d3\<lparr>pauserehash := pauserehash d\<rparr>"
      using p by (simp add: dictResumeRehashing_def p3)
    have wf3: "dict_wf ty d3" using d3(2) by (simp add: dict_keeps_def)
    have fr: "dict_frame d (d3\<lparr>pauserehash := pauserehash d\<rparr>)"
      using k1 d2(4) d3(2) by (simp add: dict_keeps_def dict_frame_def dp_def)
    show ?thesis
      using run r(1) dp d2(1) d3(1) res m3 m1 fr f1 key pause_wf[OF wf3, of "pauserehash d"] p dict_keeps_keys[OF k1]
      by (cases ref) (auto simp: dictTwoPhaseUnlinkFree_def dp_def)
  next
    assume key: "key \<notin> dict_keys d1" and r: "tables_search ty d1 ?h ?idx key =
      Some (Inr (hash_idx ?h (ht_size_exp (dict_ht d1 (if dictIsRehashing d1 then 1 else 0)))))"
    then show ?thesis using run k1 wf1 m1 dict_keeps_keys[OF k1]
      by (auto simp: dict_keeps_def dict_keys_dom fun_upd_idem domIff dictTwoPhaseUnlinkFree_def)
  qed
qed

section \<open>Emptying\<close>

lemma clear_chain_ok: "chain_ok ty c \<Longrightarrow> clear_chain c u = (c, u - length c)"
  by (induction c arbitrary: u) (auto simp: chain_ok_next chain_ok_Cons)

lemma clear_loop_ok:
  "\<forall>c \<in> set cs. chain_ok ty c \<Longrightarrow> u = length (concat cs) \<Longrightarrow> clear_loop cs u = concat cs"
  by (induction cs arbitrary: u) (auto simp: clear_chain_ok simp del: length_concat)

lemma ht_ok_chains: "ht_ok ty ht \<Longrightarrow> \<forall>c \<in> set (ht_table ht). chain_ok ty c"
  by (auto simp: ht_ok_def in_set_conv_nth bucket_ok_def)

lemma dictEmpty_ok:
  assumes wf: "dict_wf ty d"
  shows "snd (dictEmpty d) = dict_entries d"
    "fst (dictEmpty d) = dictCreate\<lparr>useStoredKeyApi := useStoredKeyApi d\<rparr>"
  using clear_loop_ok[OF ht_ok_chains[OF dict_wfD(1)[OF wf]] ht_ok_used[OF dict_wfD(1)[OF wf]]]
    clear_loop_ok[OF ht_ok_chains[OF dict_wfD(2)[OF wf]] ht_ok_used[OF dict_wfD(2)[OF wf]]]
  by (simp_all add: dictEmpty_def dictClear_def dict_ht_update_def dict_entries_def dictCreate_def)

section \<open>Properties\<close>

text \<open>C22: The hash table is a map. From an empty dictionary, any sequence of \<open>dictAdd\<close>, \<open>dictReplace\<close>,
  \<open>dictDelete\<close>, \<open>dictFetchValue\<close> and maintenance calls (\<open>dictRehash\<close>, \<open>dictRehashMicroseconds\<close>, expansions and
  shrinks, with or without memory), each under any resize policy, runs
  without a failed assertion or an access outside the tables, gives the results of the
  abstract map and ends in a well-formed dictionary with its bindings.\<close>
theorem dict_refines_map:
  assumes "type_ok ty" "\<not> no_value ty" "length us \<le> 2 ^ 64 - 1"
  shows "\<exists>d rs. run_ops (dict_step ty) dictCreate us = Some (d, rs) \<and> dict_wf ty d \<and>
    (dict_vals d, rs) = spec_ops Map.empty us"
proof -
  have "dict_vals dictCreate = (Map.empty :: 'a \<rightharpoonup> 'b)" by (rule ext) (simp add: dict_vals_def dictCreate_wf)
  then show ?thesis
    using dmap.ops_refine[OF dictCreate_inv[OF assms(1,2)], of us] assms(3) by (auto dest: dict_invD(3))
qed

text \<open>A dictionary of integers hashed by their low bits, on which the properties are evaluated.\<close>

definition int_type :: "(int, int) dictType" where
  "int_type = \<lparr>hashFunction = word_of_int, keyDup = None, valDup = None, keyCompare = None, resizeAllowed = None,
     no_value = False, keys_are_odd = False, storedHashFunction = None, storedKeyCompare = None,
     odd_key = (\<lambda>_. False)\<rparr>"

lemma int_type_ok: "type_ok int_type" "\<not> no_value int_type"
  by (simp_all add: type_ok_def int_type_def)

theorem dict_refines_map_witness:
  "\<exists>d. run_ops (dict_step int_type) dictCreate
      [(DICT_RESIZE_ENABLE, MapAdd 1 10), (DICT_RESIZE_ENABLE, MapAdd 5 50), (DICT_RESIZE_FORBID, MapAdd 1 11),
       (DICT_RESIZE_AVOID, MapReplace 5 51), (DICT_RESIZE_ENABLE, MapMaint (Expand 64)),
       (DICT_RESIZE_ENABLE, MapMaint (Rehash 1)), (DICT_RESIZE_ENABLE, MapDelete 1),
       (DICT_RESIZE_ENABLE, MapFetch 1), (DICT_RESIZE_ENABLE, MapFetch 5)] =
    Some (d, [Done True, Done True, Done False, Done False, Kept, Kept, Done True, Value None, Value (Some 51)])"
  using dict_refines_map[OF int_type_ok, of
      "[(DICT_RESIZE_ENABLE, MapAdd 1 10), (DICT_RESIZE_ENABLE, MapAdd 5 50), (DICT_RESIZE_FORBID, MapAdd 1 11),
       (DICT_RESIZE_AVOID, MapReplace 5 51), (DICT_RESIZE_ENABLE, MapMaint (Expand 64)),
       (DICT_RESIZE_ENABLE, MapMaint (Rehash 1)), (DICT_RESIZE_ENABLE, MapDelete 1),
       (DICT_RESIZE_ENABLE, MapFetch 1), (DICT_RESIZE_ENABLE, MapFetch 5)]"]
  by auto

text \<open>C25: Incremental rehashing ends. When resizing is enabled (\<open>DICT_RESIZE_ENABLE\<close>) and rehashing is not paused, at most one step
  more than the old table has buckets moves every entry: the dictionary is then out of rehashing, with
  the same bindings.\<close>
theorem dict_rehash_completes:
  assumes "type_ok ty" "dict_wf ty d" "pauserehash d = 0"
  shows "\<exists>d'. rehash_steps DICT_RESIZE_ENABLE ty (DICTHT_SIZE (ht_size_exp (ht0 d)) + 1) d = Some d' \<and>
    \<not> dictIsRehashing d' \<and> dict_wf ty d' \<and> dict_map d' = dict_map d"
proof -
  have "rehash_left d \<le> DICTHT_SIZE (ht_size_exp (ht0 d)) + 1"
    using ht_ok_size[OF dict_wfD(1)[OF assms(2)]] by (simp add: rehash_left_def)
  from rehash_steps_ok[OF assms(1) refl assms(2,3) this] show ?thesis
    using dict_map_keeps[OF assms(2)] by (auto simp: dict_keeps_def)
qed

text \<open>A dictionary in the middle of an expansion.\<close>

definition rehashing_dict :: "(int, int) dict" where
  "rehashing_dict = \<lparr>ht0 = \<lparr>ht_table = [[], [Normal 1 (Some 10), Normal 5 (Some 50)], [], []], ht_used = 2, ht_size_exp = 2\<rparr>,
     ht1 = \<lparr>ht_table = [[], [], [], [], [], [], [Normal 6 (Some 60)], []], ht_used = 1, ht_size_exp = 3\<rparr>,
     rehashidx = 0, pauserehash = 0, useStoredKeyApi = False, pauseAutoResize = 0\<rparr>"

lemma rehashing_dict_wf: "dict_wf int_type rehashing_dict"
  by (auto simp: dict_wf_def rehashing_dict_def ht_ok_def All_less_Suc bucket_ok_def chain_ok_def
      entry_ok_def int_type_def hash_idx_mod dict_entries_def)

theorem dict_rehash_completes_witness:
  "\<exists>d'. rehash_steps DICT_RESIZE_ENABLE int_type 5 rehashing_dict = Some d' \<and> \<not> dictIsRehashing d' \<and>
    dict_map d' 5 = Some (Some 50)"
proof -
  have "pauserehash rehashing_dict = 0" "DICTHT_SIZE (ht_size_exp (ht0 rehashing_dict)) + 1 = 5"
    "dict_map rehashing_dict 5 = Some (Some 50)"
    by (simp_all add: rehashing_dict_def DICTHT_SIZE_def dict_map_def dict_entries_def kv_def)
  with dict_rehash_completes[OF int_type_ok(1) rehashing_dict_wf] show ?thesis by metis
qed

text \<open>C26: \<open>dictRehashMicroseconds\<close> returns whatever the clock shows, even if the time is never up: its loop
  ends at the latest with the rehashing. The bindings stay.\<close>
theorem dictRehashMicroseconds_returns:
  assumes "type_ok ty" "dict_wf ty d"
  shows "\<exists>d' n. dictRehashMicroseconds cr ty elapsed d = Some (d', n) \<and> dict_wf ty d' \<and> dict_map d' = dict_map d"
  using dictRehashMicroseconds_ok[OF assms, of cr elapsed] dict_map_keeps[OF assms(2)]
  unfolding dict_keeps_def by blast

theorem dictRehashMicroseconds_returns_witness:
  "\<exists>d' n. dictRehashMicroseconds DICT_RESIZE_ENABLE int_type (\<lambda>_. False) rehashing_dict = Some (d', n) \<and>
    dict_map d' 5 = Some (Some 50)"
proof -
  have "dict_map rehashing_dict 5 = Some (Some 50)"
    by (simp add: rehashing_dict_def dict_map_def dict_entries_def kv_def)
  with dictRehashMicroseconds_returns[OF int_type_ok(1) rehashing_dict_wf] show ?thesis by metis
qed

text \<open>C27: The two-phase removal removes exactly the key. \<open>dictTwoPhaseUnlinkFind\<close> finds the entry if
  there is one, changes no binding and pauses rehashing; \<open>dictTwoPhaseUnlinkFree\<close>, given its result, takes the
  binding away, keeps the invariant and leaves the pause count as it was at the start.\<close>
theorem dictTwoPhaseUnlink_removes:
  assumes "type_ok ty" "dict_wf ty d" "pauserehash d < 2 ^ 15 - 1"
  shows "\<exists>d1 r d2. dictTwoPhaseUnlinkFind cr ty d key = Some (d1, r) \<and> (r \<noteq> None \<longleftrightarrow> key \<in> dom (dict_map d)) \<and>
    (r \<noteq> None \<longrightarrow> pauserehash d1 = pauserehash d + 1) \<and> dict_map d1 = dict_map d \<and>
    dictTwoPhaseUnlinkFree cr ty d1 r = Some d2 \<and> dict_wf ty d2 \<and> pauserehash d2 = pauserehash d \<and>
    dict_map d2 = (dict_map d)(key := None)"
proof -
  from dictTwoPhaseUnlink_ok[OF assms, of cr key] obtain d1 r d2 where
    "dictTwoPhaseUnlinkFind cr ty d key = Some (d1, r)" "r \<noteq> None \<longleftrightarrow> key \<in> dict_keys d"
    "r \<noteq> None \<longrightarrow> pauserehash d1 = pauserehash d + 1" "dict_map d1 = dict_map d"
    "dictTwoPhaseUnlinkFree cr ty d1 r = Some d2" "dict_wf ty d2" "dict_frame d d2"
    "dict_map d2 = (dict_map d)(key := None)" by blast
  then show ?thesis unfolding dict_keys_dom dict_frame_def by blast
qed

theorem dictTwoPhaseUnlink_removes_witness:
  "\<exists>d1 r d2. dictTwoPhaseUnlinkFind DICT_RESIZE_AVOID int_type rehashing_dict 5 = Some (d1, r) \<and> r \<noteq> None \<and>
    pauserehash d1 = 1 \<and> dictTwoPhaseUnlinkFree DICT_RESIZE_AVOID int_type d1 r = Some d2 \<and>
    pauserehash d2 = 0 \<and> dict_map d2 5 = None \<and> dict_map d2 1 = Some (Some 10)"
proof -
  have p: "pauserehash rehashing_dict < 2 ^ 15 - 1" "pauserehash rehashing_dict = 0"
    "dict_map rehashing_dict 5 = Some (Some 50)" "dict_map rehashing_dict 1 = Some (Some 10)"
    by (simp_all add: rehashing_dict_def dict_map_def dict_entries_def kv_def)
  from dictTwoPhaseUnlink_removes[OF int_type_ok(1) rehashing_dict_wf p(1), of DICT_RESIZE_AVOID 5]
  show ?thesis using p(2,3,4) by (auto simp: domIff)
qed

end
