(* ===== verification/Dict_Scan.thy ===== *)
theory Dict_Scan
  imports Dict_Refine
begin

text \<open>
  \<open>dictScan\<close>, the stateless iteration over a dictionary with a cursor whose bits are incremented in
  reverse order. Read as a reversed number, the cursor grows from call to call and each call covers
  all the hashes from the old to the new value, whatever the sizes of the tables are at that
  moment: this is why nothing is missed when the tables are resized between two calls.
\<close>

section \<open>The scan\<close>

text \<open>The loop of \<open>rev\<close>, which reverses the bits of an \<open>unsigned long\<close>.\<close>

function rev_loop :: "nat \<Rightarrow> 64 word \<Rightarrow> 64 word \<Rightarrow> 64 word" where
  "rev_loop s mask' v = (
     let s = s div 2 in
     if s > 0 then
       let mask' = mask' XOR push_bit s mask' in
       rev_loop s mask' ((drop_bit s v AND mask') OR (push_bit s v AND NOT mask'))
     else v)"
  by auto
termination by (relation "measure fst") auto

declare rev_loop.simps [simp del]

definition rev_ul :: "64 word \<Rightarrow> 64 word" where
  "rev_ul v = rev_loop 64 (NOT 0) v"

text \<open>Set the unmasked bits and increment the reversed cursor.\<close>

definition scan_next :: "64 word \<Rightarrow> 64 word \<Rightarrow> 64 word" where
  "scan_next m v = rev_ul (rev_ul (v OR NOT m) + 1)"

lemma unat64_less: "unat (w :: 64 word) < 2 ^ 64"
  using unsigned_less[of w, where ?'a = nat] by simp

lemma all_64: "i < 64 \<Longrightarrow> list_all P [0..<64] \<Longrightarrow> P i"
  by (auto simp: list_all_iff)

definition swap_step :: "nat \<Rightarrow> 64 word \<Rightarrow> 64 word \<Rightarrow> 64 word" where
  "swap_step s m v = (drop_bit s v AND m) OR (push_bit s v AND NOT m)"

lemma rev_loop_step:
  "m' = m XOR push_bit (s div 2) m \<Longrightarrow> 0 < s div 2 \<Longrightarrow> rev_loop s m v = rev_loop (s div 2) m' (swap_step (s div 2) m' v)"
  by (subst rev_loop.simps) (simp add: Let_def swap_step_def)

lemma rev_ul_swaps: "rev_ul v = swap_step 1 0x5555555555555555 (swap_step 2 0x3333333333333333
   (swap_step 4 0x0F0F0F0F0F0F0F0F (swap_step 8 0x00FF00FF00FF00FF (swap_step 16 0x0000FFFF0000FFFF
   (swap_step 32 0x00000000FFFFFFFF v)))))"
proof -
  have "rev_ul v = rev_loop 32 0x00000000FFFFFFFF (swap_step 32 0x00000000FFFFFFFF v)"
    unfolding rev_ul_def using rev_loop_step[of "0x00000000FFFFFFFF" "NOT 0" 64 v] by (simp add: mask_eq_exp_minus_1)
  also have "\<dots> = rev_loop 16 0x0000FFFF0000FFFF (swap_step 16 0x0000FFFF0000FFFF (swap_step 32 0x00000000FFFFFFFF v))"
    using rev_loop_step[of "0x0000FFFF0000FFFF" "0x00000000FFFFFFFF" 32] by simp
  also have "\<dots> = rev_loop 8 0x00FF00FF00FF00FF (swap_step 8 0x00FF00FF00FF00FF (swap_step 16 0x0000FFFF0000FFFF
      (swap_step 32 0x00000000FFFFFFFF v)))"
    using rev_loop_step[of "0x00FF00FF00FF00FF" "0x0000FFFF0000FFFF" 16] by simp
  also have "\<dots> = rev_loop 4 0x0F0F0F0F0F0F0F0F (swap_step 4 0x0F0F0F0F0F0F0F0F (swap_step 8 0x00FF00FF00FF00FF
      (swap_step 16 0x0000FFFF0000FFFF (swap_step 32 0x00000000FFFFFFFF v))))"
    using rev_loop_step[of "0x0F0F0F0F0F0F0F0F" "0x00FF00FF00FF00FF" 8] by simp
  also have "\<dots> = rev_loop 2 0x3333333333333333 (swap_step 2 0x3333333333333333 (swap_step 4 0x0F0F0F0F0F0F0F0F
      (swap_step 8 0x00FF00FF00FF00FF (swap_step 16 0x0000FFFF0000FFFF (swap_step 32 0x00000000FFFFFFFF v)))))"
    using rev_loop_step[of "0x3333333333333333" "0x0F0F0F0F0F0F0F0F" 4] by simp
  also have "\<dots> = rev_loop 1 0x5555555555555555 (swap_step 1 0x5555555555555555 (swap_step 2 0x3333333333333333
      (swap_step 4 0x0F0F0F0F0F0F0F0F (swap_step 8 0x00FF00FF00FF00FF (swap_step 16 0x0000FFFF0000FFFF
      (swap_step 32 0x00000000FFFFFFFF v))))))"
    using rev_loop_step[of "0x5555555555555555" "0x3333333333333333" 2] by simp
  finally show ?thesis by (simp add: rev_loop.simps[of "Suc 0"])
qed

lemma bit_swap: "bit (swap_step s m v) i = (if bit m i then bit v (i + s) else i < 64 \<and> s \<le> i \<and> bit v (i - s))"
  unfolding swap_step_def by (auto simp: bit_simps add.commute)

lemma upt_64: "[0..<64] = [0, 1, 2, 3, 4, 5, 6, 7, 8, 9, 10, 11, 12, 13, 14, 15, 16, 17, 18, 19, 20, 21, 22, 23, 24, 25, 26, 27, 28, 29, 30, 31, 32, 33, 34, 35, 36, 37, 38, 39, 40, 41, 42, 43, 44, 45, 46, 47, 48, 49, 50, 51, 52, 53, 54, 55, 56, 57, 58, 59, 60, 61, 62, 63]"
  by code_simp

lemma bit_rev_ul: "bit (rev_ul v) i \<longleftrightarrow> i < 64 \<and> bit v (63 - i)"
proof (cases "i < 64")
  case True
  then have "bit (rev_ul v) i \<longleftrightarrow> bit v (63 - i)"
    unfolding rev_ul_swaps
    by (rule all_64) (simp add: bit_swap upt_64)
  with True show ?thesis by simp
qed (auto dest: bit_imp_le_length)

lemma rev_ul_rev [simp]: "rev_ul (rev_ul v) = v"
  by (rule bit_eqI) (auto simp: bit_rev_ul dest: bit_imp_le_length)

lemma rev_ul_0 [simp]: "rev_ul 0 = 0"
  by (rule bit_eqI) (simp add: bit_rev_ul)

lemma rev_ul_eq_0 [simp]: "rev_ul v = 0 \<longleftrightarrow> v = 0"
  by (metis rev_ul_0 rev_ul_rev)

lemma rev_ul_or: "rev_ul (v OR w) = rev_ul v OR rev_ul w"
  by (rule bit_eqI) (auto simp: bit_rev_ul bit_simps)

text \<open>The reversed cursor grows, or the new cursor is 0.\<close>

lemma scan_next_grows: "scan_next m v \<noteq> 0 \<Longrightarrow> unat (rev_ul v) < unat (rev_ul (scan_next m v))"
proof -
  assume ne: "scan_next m v \<noteq> 0"
  let ?w = "rev_ul (v OR NOT m)"
  have "rev_ul v \<le> ?w" unfolding rev_ul_or by (rule le_word_or2)
  then have "unat (rev_ul v) \<le> unat ?w" by (simp add: word_le_nat_alt)
  moreover have "?w + 1 \<noteq> 0" using ne by (simp add: scan_next_def)
  then have "unat (?w + 1) = Suc (unat ?w)" by (metis Suc_eq_plus1 add.commute unatSuc)
  ultimately show ?thesis by (simp add: scan_next_def)
qed


text \<open>The do-while loop over the buckets of the larger table.\<close>

function scan_expand :: "('k, 'v) chain list \<Rightarrow> 64 word \<Rightarrow> 64 word \<Rightarrow> 64 word \<Rightarrow>
    (('k, 'v) dictEntry list \<times> 64 word) option" where
  "scan_expand tbl m0 m1 v = do {
     de \<leftarrow> aref tbl (unat (v AND m1));
     let v = scan_next m1 v;
     if v AND (m0 XOR m1) \<noteq> 0 then do {
       (es, v) \<leftarrow> scan_expand tbl m0 m1 v;
       Some (chain_walk de @ es, v)
     }
     else Some (chain_walk de, v)
   }"
  by pat_completeness auto
termination
proof (relation "measure (\<lambda>(_, _, _, v). 2 ^ 64 - unat (rev_ul v))")
  fix tbl :: "('k, 'v) chain list" and m0 m1 v de x
  assume x: "x = scan_next m1 v" and ne: "x AND (m0 XOR m1) \<noteq> 0"
  have "x \<noteq> 0" using ne by auto
  then have "unat (rev_ul v) < unat (rev_ul x)" using scan_next_grows[of m1 v] x by simp
  moreover have "unat (rev_ul x) < 2 ^ 64" by (rule unat64_less)
  ultimately show "((tbl, m0, m1, x), tbl, m0, m1, v) \<in> measure (\<lambda>(_, _, _, v). 2 ^ 64 - unat (rev_ul v))"
    by simp
qed simp

declare scan_expand.simps [simp del]

definition size_mask :: "('k, 'v) dictht \<Rightarrow> 64 word" where
  "size_mask ht = word_of_nat (DICTHT_SIZE_MASK (ht_size_exp ht))"

text \<open>\<open>dictScan\<close>, that is \<open>dictScanDefrag\<close> without reallocation. The entries handed to the callback are
  returned; the callback itself does not change the dictionary.\<close>

definition dictScan :: "('k, 'v) dict \<Rightarrow> 64 word \<Rightarrow>
    (('k, 'v) dict \<times> ('k, 'v) dictEntry list \<times> 64 word) option" where
  "dictScan d v =
     (if dictSize d = 0 then Some (d, [], 0)
      else do {
        let d = dictPauseRehashing d;
        (es, v) \<leftarrow>
          (if \<not> dictIsRehashing d then do {
             let m0 = size_mask (ht0 d);
             de \<leftarrow> aref (ht_table (ht0 d)) (unat (v AND m0));
             Some (chain_walk de, scan_next m0 v)
           }
           else do {
             let (t0, t1) =
               (if DICTHT_SIZE (ht_size_exp (ht0 d)) > DICTHT_SIZE (ht_size_exp (ht1 d)) then (ht1 d, ht0 d)
                else (ht0 d, ht1 d));
             let m0 = size_mask t0;
             let m1 = size_mask t1;
             de \<leftarrow> aref (ht_table t0) (unat (v AND m0));
             (es, v) \<leftarrow> scan_expand (ht_table t1) m0 m1 v;
             Some (chain_walk de @ es, v)
           });
        Some (dictResumeRehashing d, es, v)
      })"

section \<open>The cursor as a reversed number\<close>

definition rcur :: "64 word \<Rightarrow> nat" where
  "rcur v = unat (rev_ul v)"

lemma rcur_less: "rcur v < 2 ^ 64"
  unfolding rcur_def by (rule unat64_less)

lemma rcur_0 [simp]: "rcur 0 = 0" "rcur v = 0 \<longleftrightarrow> v = 0"
  by (simp_all add: rcur_def unat_eq_zero)

lemma nat_or_mask: "(r::nat) OR mask n = r div 2 ^ n * 2 ^ n + (2 ^ n - 1)"
proof -
  have "r OR mask n = push_bit n (drop_bit n r) OR mask n"
    by (rule bit_eqI) (auto simp: bit_simps)
  also have "\<dots> = push_bit n (drop_bit n r) + mask n"
    by (rule disjunctive_add[symmetric]) (auto simp: bit_simps)
  finally show ?thesis by (simp add: push_bit_eq_mult drop_bit_eq_div mask_eq_exp_minus_1)
qed

lemma rev_ul_unmasked: "e \<le> 64 \<Longrightarrow> rev_ul (v OR NOT (mask e)) = rev_ul v OR mask (64 - e)"
  by (rule bit_eqI) (auto simp: bit_rev_ul bit_simps)

lemma rcur_next:
  assumes "e \<le> 64"
  shows "rcur (scan_next (mask e) v) = (rcur v div 2 ^ (64 - e) + 1) * 2 ^ (64 - e) mod 2 ^ 64"
proof -
  let ?n = "64 - e"
  have "unat (rev_ul v OR mask ?n) = rcur v OR mask ?n"
    unfolding rcur_def by (rule bit_eqI) (auto simp: bit_simps)
  also have "\<dots> = rcur v div 2 ^ ?n * 2 ^ ?n + (2 ^ ?n - 1)" by (rule nat_or_mask)
  finally have "unat (rev_ul v OR mask ?n) + 1 = (rcur v div 2 ^ ?n + 1) * 2 ^ ?n" by simp
  moreover have "rcur (scan_next (mask e) v) = (unat (rev_ul v OR mask ?n) + 1) mod 2 ^ 64"
    using assms by (simp add: rcur_def scan_next_def rev_ul_unmasked unat_word_ariths)
  ultimately show ?thesis by simp
qed

lemma rev_drop_take: "e \<le> 64 \<Longrightarrow> drop_bit (64 - e) (rev_ul v) = drop_bit (64 - e) (rev_ul w) \<longleftrightarrow> take_bit e v = take_bit e w"
proof
  assume e: "e \<le> 64" and eq: "take_bit e v = take_bit e w"
  show "drop_bit (64 - e) (rev_ul v) = drop_bit (64 - e) (rev_ul w)"
  proof (rule bit_eqI)
    fix n
    have "bit (take_bit e v) (e - 1 - n) = bit (take_bit e w) (e - 1 - n)" by (simp add: eq)
    then show "bit (drop_bit (64 - e) (rev_ul v)) n = bit (drop_bit (64 - e) (rev_ul w)) n"
      using e by (auto simp: bit_simps bit_rev_ul)
  qed
next
  assume e: "e \<le> 64" and eq: "drop_bit (64 - e) (rev_ul v) = drop_bit (64 - e) (rev_ul w)"
  show "take_bit e v = take_bit e w"
  proof (rule bit_eqI)
    fix n
    have "bit (drop_bit (64 - e) (rev_ul v)) (e - 1 - n) = bit (drop_bit (64 - e) (rev_ul w)) (e - 1 - n)"
      by (simp add: eq)
    then show "bit (take_bit e v) n = bit (take_bit e w) n"
      using e by (cases "n < e") (auto simp: bit_simps bit_rev_ul)
  qed
qed

text \<open>Two hashes fall into the same bucket of a table when their reversed numbers lie in one block.\<close>

lemma same_bucket:
  assumes "e \<le> 64"
  shows "unat v mod 2 ^ e = unat w mod 2 ^ e \<longleftrightarrow> rcur v div 2 ^ (64 - e) = rcur w div 2 ^ (64 - e)"
proof -
  have "unat v mod 2 ^ e = unat w mod 2 ^ e \<longleftrightarrow> take_bit e v = take_bit e w"
    by (simp add: word_unat_eq_iff unsigned_take_bit_eq flip: take_bit_eq_mod)
  also have "\<dots> \<longleftrightarrow> drop_bit (64 - e) (rev_ul v) = drop_bit (64 - e) (rev_ul w)"
    using rev_drop_take[OF assms] by simp
  also have "\<dots> \<longleftrightarrow> rcur v div 2 ^ (64 - e) = rcur w div 2 ^ (64 - e)"
    by (simp add: word_unat_eq_iff rcur_def unat_drop_bit_eq flip: drop_bit_eq_div)
  finally show ?thesis .
qed

lemma mask_diff_zero:
  assumes "e0 \<le> e1" "e1 \<le> 64" "rcur v mod 2 ^ (64 - e1) = 0"
  shows "v AND (mask e0 XOR mask e1) = 0 \<longleftrightarrow> rcur v mod 2 ^ (64 - e0) = 0"
proof -
  have mod_bits: "rcur v mod 2 ^ n = 0 \<longleftrightarrow> (\<forall>j < n. \<not> bit (rev_ul v) j)" for n
  proof -
    have "rcur v mod 2 ^ n = 0 \<longleftrightarrow> take_bit n (rev_ul v) = 0"
      by (simp add: rcur_def word_unat_eq_iff unsigned_take_bit_eq flip: take_bit_eq_mod)
    also have "\<dots> \<longleftrightarrow> (\<forall>j < n. \<not> bit (rev_ul v) j)"
      by (auto simp: bit_eq_iff bit_simps bit_rev_ul)
    finally show ?thesis .
  qed
  have "v AND (mask e0 XOR mask e1) = 0 \<longleftrightarrow> (\<forall>i. e0 \<le> i \<and> i < e1 \<longrightarrow> \<not> bit v i)"
    using assms(1,2) by (simp add: bit_eq_iff bit_simps) (meson less_le_trans not_le)
  also have "\<dots> \<longleftrightarrow> (\<forall>j. 64 - e1 \<le> j \<and> j < 64 - e0 \<longrightarrow> \<not> bit (rev_ul v) j)"
  proof (intro iffI allI impI)
    fix j assume *: "\<forall>i. e0 \<le> i \<and> i < e1 \<longrightarrow> \<not> bit v i" "64 - e1 \<le> j \<and> j < 64 - e0"
    then have "e0 \<le> 63 - j \<and> 63 - j < e1" using assms(1,2) by auto
    with *(1) show "\<not> bit (rev_ul v) j" by (simp add: bit_rev_ul)
  next
    fix i assume *: "\<forall>j. 64 - e1 \<le> j \<and> j < 64 - e0 \<longrightarrow> \<not> bit (rev_ul v) j" "e0 \<le> i \<and> i < e1"
    then have "64 - e1 \<le> 63 - i \<and> 63 - i < 64 - e0" using assms(1,2) by auto
    with *(1) have "\<not> bit (rev_ul v) (63 - i)" by blast
    then show "\<not> bit v i" using * assms(2) by (simp add: bit_rev_ul)
  qed
  also have "\<dots> \<longleftrightarrow> (\<forall>j < 64 - e0. \<not> bit (rev_ul v) j)"
    using assms(3)[unfolded mod_bits] assms(1) by (meson not_le)
  finally show ?thesis by (simp only: mod_bits)
qed

section \<open>What one call covers\<close>

lemma block_mod: "b0 = b1 * k \<Longrightarrow> (x * b1) mod b0 = x mod k * (b1::nat)"
  by (simp only: mult.commute[of b1 k] mult_mod_left)

lemma block_step:
  fixes r :: nat
  assumes "b1 dvd b0" "0 < b1" "(r div b1 + 1) * b1 mod b0 \<noteq> 0"
  shows "(r div b1 + 1) * b1 div b0 = r div b0"
proof -
  obtain k where k: "b0 = b1 * k" using assms(1) by auto
  have "(r div b1 + 1) * b1 div b0 = (r div b1 + 1) div k"
    using assms(2) k by (simp add: div_mult2_eq)
  moreover have "r div b0 = r div b1 div k" by (simp add: k div_mult2_eq)
  moreover have "(r div b1 + 1) mod k \<noteq> 0"
    using assms(3) unfolding block_mod[OF k] by (metis mult_0)
  ultimately show ?thesis by (simp add: div_Suc)
qed

lemma block_end:
  fixes r :: nat
  assumes "b1 dvd b0" "0 < b1" "(r div b1 + 1) * b1 mod b0 = 0"
  shows "(r div b0 + 1) * b0 = (r div b1 + 1) * b1"
proof -
  obtain k where k: "b0 = b1 * k" using assms(1) by auto
  have "k \<noteq> 0" using assms by (auto simp: k intro: ccontr)
  have "(r div b1 + 1) mod k = 0" using assms(2,3) unfolding block_mod[OF k] by (metis mult_is_0 not_gr0)
  then have "(r div b1 + 1) div k * k = r div b1 + 1" by (metis mod_0_imp_dvd dvd_div_mult_self)
  moreover have "(r div b1 + 1) div k = r div b1 div k + 1"
    using \<open>(r div b1 + 1) mod k = 0\<close> by (simp add: div_Suc)
  moreover have "r div b0 = r div b1 div k" by (simp add: k div_mult2_eq)
  ultimately have "(r div b0 + 1) * k = r div b1 + 1" by simp
  then show ?thesis by (metis k mult.assoc mult.commute)
qed

text \<open>The end of a block of reversed numbers.\<close>

definition block_top :: "nat \<Rightarrow> nat \<Rightarrow> nat" where
  "block_top e r = (r div 2 ^ (64 - e) + 1) * 2 ^ (64 - e)"

lemma block_top_greater: "r < block_top e r"
  unfolding block_top_def using dividend_less_times_div[of "2 ^ (64 - e)" r] by (simp add: mult.commute)

lemma block_top_le:
  assumes "r < 2 ^ 64" "e \<le> 64"
  shows "block_top e r \<le> 2 ^ 64"
proof -
  have p: "(2::nat) ^ 64 = 2 ^ e * 2 ^ (64 - e)" using assms(2) by (simp flip: power_add)
  then have "r div 2 ^ (64 - e) < 2 ^ e" using assms(1) by (simp only: less_mult_imp_div_less)
  then have "(r div 2 ^ (64 - e) + 1) * 2 ^ (64 - e) \<le> 2 ^ e * 2 ^ (64 - e)" by (intro mult_le_mono1) simp
  then show ?thesis unfolding block_top_def p .
qed

definition cursor_end :: "64 word \<Rightarrow> nat" where
  "cursor_end v = (if v = 0 then 2 ^ 64 else rcur v)"

lemma cursor_end_mod: "rcur v' = h mod 2 ^ 64 \<Longrightarrow> 0 < h \<Longrightarrow> h \<le> 2 ^ 64 \<Longrightarrow> cursor_end v' = h"
  using rcur_0(2)[of v'] by (cases "h = 2 ^ 64") (auto simp: cursor_end_def)

lemma cursor_end_next: "e \<le> 64 \<Longrightarrow> cursor_end (scan_next (mask e) v) = block_top e (rcur v)"
  using block_top_le[OF rcur_less, of e v] block_top_greater[of "rcur v" e] rcur_next[of e v]
  by (intro cursor_end_mod) (auto simp: block_top_def)

lemma in_block: "r div b * b \<le> x \<Longrightarrow> x < (r div b + 1) * b \<Longrightarrow> x div b = r div (b::nat)"
  by (metis Suc_eq_plus1 div_nat_eqI mult.commute)

lemma bucket_of_block:
  assumes "e \<le> 64" "rcur v div 2 ^ (64 - e) * 2 ^ (64 - e) \<le> rcur h" "rcur h < block_top e (rcur v)"
  shows "unat h mod 2 ^ e = unat v mod 2 ^ e"
  using in_block[OF assms(2)] assms(3) same_bucket[OF assms(1), of h v] by (simp add: block_top_def)

lemma unat_and_mask_mod: "unat (v AND mask e) = unat v mod 2 ^ e"
  unfolding take_bit_eq_mask[symmetric] unsigned_take_bit_eq by (simp add: take_bit_eq_mod)

lemma scan_expand_ok:
  assumes tbl: "length tbl = 2 ^ e1" "\<forall>c \<in> set tbl. chain_ok ty c" and e: "e0 \<le> e1" "e1 \<le> 64"
  shows "\<exists>es v'. scan_expand tbl (mask e0) (mask e1) v = Some (es, v') \<and>
    cursor_end v' = block_top e0 (rcur v) \<and> set es \<subseteq> set (concat tbl) \<and>
    (\<forall>h. rcur v div 2 ^ (64 - e1) * 2 ^ (64 - e1) \<le> rcur h \<and> rcur h < cursor_end v' \<longrightarrow>
       set (tbl ! (unat h mod 2 ^ e1)) \<subseteq> set es)"
proof (induction "2 ^ 64 - rcur v" arbitrary: v rule: less_induct)
  case less
  let ?m0 = "mask e0 :: 64 word" and ?m1 = "mask e1 :: 64 word"
  let ?b0 = "2 ^ (64 - e0) :: nat" and ?b1 = "2 ^ (64 - e1) :: nat"
  define i where "i = unat v mod 2 ^ e1"
  define v1 where "v1 = scan_next ?m1 v"
  have dvd: "?b1 dvd ?b0" using e by (intro le_imp_power_dvd) simp
  have i: "i < length tbl" by (simp add: i_def tbl(1))
  have c: "chain_walk (tbl ! i) = tbl ! i" using tbl(2) i chain_walk_ok nth_mem by blast
  have aref: "aref tbl (unat (v AND ?m1)) = Some (tbl ! i)" using i by (simp add: unat_and_mask_mod i_def)
  have top1: "cursor_end v1 = block_top e1 (rcur v)" unfolding v1_def by (rule cursor_end_next[OF e(2)])
  have here: "set (tbl ! (unat h mod 2 ^ e1)) \<subseteq> set (tbl ! i)"
    if "rcur v div ?b1 * ?b1 \<le> rcur h" "rcur h < block_top e1 (rcur v)" for h
    using bucket_of_block[OF e(2) that] by (simp add: i_def)
  have tbl_i: "set (tbl ! i) \<subseteq> set (concat tbl)" using nth_mem[OF i] by auto
  have r1: "rcur v1 = block_top e1 (rcur v) mod 2 ^ 64" unfolding v1_def block_top_def by (rule rcur_next[OF e(2)])
  have "?b1 dvd 2 ^ 64" by (intro le_imp_power_dvd) simp
  then have "rcur v1 mod ?b1 = 0" unfolding r1 block_top_def by (simp add: mod_mod_cancel)
  note stop = mask_diff_zero[OF e this]
  show ?case
  proof (cases "v1 AND (?m0 XOR ?m1) = 0")
    case True
    have "block_top e1 (rcur v) mod ?b0 = 0"
    proof -
      have "?b0 dvd 2 ^ 64" by (intro le_imp_power_dvd) simp
      then have "block_top e1 (rcur v) mod ?b0 = rcur v1 mod ?b0" unfolding r1 by (simp add: mod_mod_cancel)
      then show ?thesis using True stop by simp
    qed
    then have "block_top e0 (rcur v) = block_top e1 (rcur v)"
      unfolding block_top_def using block_end[OF dvd] by simp
    moreover have "scan_expand tbl ?m0 ?m1 v = Some (tbl ! i, v1)"
      using True c by (subst scan_expand.simps) (simp add: v1_def aref)
    ultimately show ?thesis using top1 here tbl_i by auto
  next
    case False
    then have "v1 \<noteq> 0" by auto
    then have r1': "rcur v1 = block_top e1 (rcur v)" using top1 by (simp add: cursor_end_def)
    then have "2 ^ 64 - rcur v1 < 2 ^ 64 - rcur v"
      using block_top_greater[of "rcur v" e1] rcur_less[of v] by (intro diff_less_mono2) auto
    from less[OF this] obtain es v' where es: "scan_expand tbl ?m0 ?m1 v1 = Some (es, v')"
      "cursor_end v' = block_top e0 (rcur v1)" "set es \<subseteq> set (concat tbl)"
      "\<And>h. rcur v1 div ?b1 * ?b1 \<le> rcur h \<Longrightarrow> rcur h < cursor_end v' \<Longrightarrow> set (tbl ! (unat h mod 2 ^ e1)) \<subseteq> set es"
      by auto
    have top0: "block_top e0 (rcur v1) = block_top e0 (rcur v)"
      using False stop block_step[OF dvd, of "rcur v"] unfolding r1' block_top_def by simp
    have base: "rcur v1 div ?b1 * ?b1 = rcur v1" unfolding r1' block_top_def by simp
    have "set (tbl ! (unat h mod 2 ^ e1)) \<subseteq> set (tbl ! i @ es)"
      if "rcur v div ?b1 * ?b1 \<le> rcur h" "rcur h < cursor_end v'" for h
      using here[OF that(1)] es(4)[of h] that(2) base r1' by (cases "rcur h < block_top e1 (rcur v)") auto
    moreover have "scan_expand tbl ?m0 ?m1 v = Some (tbl ! i @ es, v')"
      using False c es(1) by (subst scan_expand.simps) (simp add: v1_def aref)
    ultimately show ?thesis using es(2,3) top0 tbl_i by auto
  qed
qed

lemma size_mask_ok: "ht_ok ty ht \<Longrightarrow> ht_size_exp ht \<noteq> -1 \<Longrightarrow> size_mask ht = mask (nat (ht_size_exp ht))"
  using word_of_nat_mask[of "nat (ht_size_exp ht)"] by (simp add: size_mask_def DICTHT_SIZE_MASK_def DICTHT_SIZE_def)

lemma entry_bucket:
  assumes "ht_ok ty ht" "x \<in> set (concat (ht_table ht))"
  shows "x \<in> set (ht_table ht ! (unat (hashFunction ty (dictGetKey x)) mod 2 ^ nat (ht_size_exp ht)))"
proof -
  obtain i where i: "i < length (ht_table ht)" "x \<in> set (ht_table ht ! i)"
    using assms(2) by (auto simp only: set_concat_nth)
  then have "ht_size_exp ht \<noteq> -1" using ht_ok_exp[OF assms(1)] by auto
  then show ?thesis using ht_okD(1,4)[OF assms(1)] i by (auto simp: bucket_ok_def hash_idx_mod)
qed

lemma pause_resume: "pauserehash d < 2 ^ 15 \<Longrightarrow> dictResumeRehashing (dictPauseRehashing d) = d"
proof -
  assume "pauserehash d < 2 ^ 15"
  then have "((pauserehash d + 1) mod 2 ^ 15 + (2 ^ 15 - 1)) mod 2 ^ 15 = pauserehash d"
    by (simp add: mod_add_left_eq)
  then show ?thesis by (simp add: dictResumeRehashing_def dictPauseRehashing_def)
qed

text \<open>The table with the bucket of the cursor, and the table whose buckets are expanded.\<close>

lemma scan_small_ok:
  fixes v :: "64 word"
  assumes ok: "ht_ok ty ht" and e: "ht_size_exp ht \<noteq> -1"
  defines "n \<equiv> nat (ht_size_exp ht)" and "i \<equiv> unat v mod 2 ^ nat (ht_size_exp ht)"
  shows "aref (ht_table ht) (unat (v AND size_mask ht)) = Some (ht_table ht ! i)"
    "chain_walk (ht_table ht ! i) = ht_table ht ! i" "set (ht_table ht ! i) \<subseteq> set (concat (ht_table ht))"
    "n \<le> 60"
    "\<And>x. x \<in> set (concat (ht_table ht)) \<Longrightarrow> rcur v \<le> rcur (hashFunction ty (dictGetKey x)) \<Longrightarrow>
       rcur (hashFunction ty (dictGetKey x)) < block_top n (rcur v) \<Longrightarrow> x \<in> set (ht_table ht ! i)"
proof -
  note t = ht_okD[OF ok e]
  have i: "i < length (ht_table ht)" by (simp add: i_def t(3))
  then show "aref (ht_table ht) (unat (v AND size_mask ht)) = Some (ht_table ht ! i)"
    by (simp add: size_mask_ok[OF ok e] unat_and_mask_mod i_def)
  show "chain_walk (ht_table ht ! i) = ht_table ht ! i"
    by (rule chain_walk_ok[OF bucket_ok_chain[OF t(4)[OF i]]])
  show "set (ht_table ht ! i) \<subseteq> set (concat (ht_table ht))" using nth_mem[OF i] by auto
  show n: "n \<le> 60" using t(1,2) by (simp add: n_def)
  fix x assume x: "x \<in> set (concat (ht_table ht))" "rcur v \<le> rcur (hashFunction ty (dictGetKey x))"
    "rcur (hashFunction ty (dictGetKey x)) < block_top n (rcur v)"
  have "rcur v div 2 ^ (64 - n) * 2 ^ (64 - n) \<le> rcur (hashFunction ty (dictGetKey x))"
    using x(2) div_times_less_eq_dividend order_trans by blast
  from bucket_of_block[OF _ this x(3)] n entry_bucket[OF ok x(1)]
  show "x \<in> set (ht_table ht ! i)" by (simp add: i_def n_def)
qed

lemma dictScan_ok:
  assumes wf: "dict_wf ty d" and ne: "dictSize d \<noteq> 0"
  shows "\<exists>es v'. dictScan d v = Some (d, es, v') \<and> rcur v < cursor_end v' \<and> set es \<subseteq> set (dict_entries d) \<and>
    (\<forall>x \<in> set (dict_entries d). rcur v \<le> rcur (hashFunction ty (dictGetKey x)) \<and>
       rcur (hashFunction ty (dictGetKey x)) < cursor_end v' \<longrightarrow> x \<in> set es)"
proof -
  note w = dict_wfD[OF wf] and e0 = dict_nonempty_table[OF wf ne]
  define dp where "dp = dictPauseRehashing d"
  have dp [simp]: "ht0 dp = ht0 d" "ht1 dp = ht1 d" "dictIsRehashing dp = dictIsRehashing d" "dictResumeRehashing dp = d"
    using pause_resume[OF w(5)] by (simp_all add: dp_def dictPauseRehashing_def dictIsRehashing_def)
  show ?thesis
  proof (cases "dictIsRehashing d")
    case False
    note t = scan_small_ok(1,2,3,5)[OF w(1) e0, where v = v] and t4 = scan_small_ok(4)[OF w(1) e0]
    let ?n = "nat (ht_size_exp (ht0 d))"
    have "ht1 d = dictReset" using dict_wf_idle[OF wf False] by simp
    then have ent: "dict_entries d = concat (ht_table (ht0 d))" by (simp add: dict_entries_def)
    have top: "cursor_end (scan_next (size_mask (ht0 d)) v) = block_top ?n (rcur v)"
      using cursor_end_next[of ?n v] t4 by (simp add: size_mask_ok[OF w(1) e0])
    have "dictScan d v = Some (d, ht_table (ht0 d) ! (unat v mod 2 ^ ?n), scan_next (size_mask (ht0 d)) v)"
      using ne False t(2) by (simp add: dictScan_def Let_def t(1) flip: dp_def)
    then show ?thesis using top block_top_greater[of "rcur v" ?n] t(3) t(4) by (auto simp: ent)
  next
    case True
    note r = dict_wf_rehashing[OF wf True]
    define t0 t1 where "t0 = (if DICTHT_SIZE (ht_size_exp (ht0 d)) > DICTHT_SIZE (ht_size_exp (ht1 d)) then ht1 d else ht0 d)"
      and "t1 = (if DICTHT_SIZE (ht_size_exp (ht0 d)) > DICTHT_SIZE (ht_size_exp (ht1 d)) then ht0 d else ht1 d)"
    have ok: "ht_ok ty t0" "ht_size_exp t0 \<noteq> -1" "ht_ok ty t1" "ht_size_exp t1 \<noteq> -1"
      using w(1,2) r(1,2) by (auto simp: t0_def t1_def)
    have ent: "set (dict_entries d) = set (concat (ht_table t0)) \<union> set (concat (ht_table t1))"
      by (auto simp: dict_entries_def t0_def t1_def)
    note s = scan_small_ok(1,2,3,5)[OF ok(1,2), where v = v] and l4 = scan_small_ok(4)[OF ok(3,4)]
    let ?n0 = "nat (ht_size_exp t0)" and ?n1 = "nat (ht_size_exp t1)"
    have le: "?n0 \<le> ?n1"
    proof -
      have "(2::nat) ^ ?n0 \<le> 2 ^ ?n1"
        using ht_okD(1)[OF w(1) r(1)] ht_okD(1)[OF w(2) r(2)] by (auto simp: t0_def t1_def DICTHT_SIZE_def)
      then show ?thesis by (simp add: power_le_imp_le_exp)
    qed
    from scan_expand_ok[OF ht_okD(3)[OF ok(3,4)] ht_ok_chains[OF ok(3)] le, of v] l4
    obtain es v' where es: "scan_expand (ht_table t1) (mask ?n0) (mask ?n1) v = Some (es, v')"
      "cursor_end v' = block_top ?n0 (rcur v)" "set es \<subseteq> set (concat (ht_table t1))"
      "\<And>h. rcur v div 2 ^ (64 - ?n1) * 2 ^ (64 - ?n1) \<le> rcur h \<Longrightarrow> rcur h < cursor_end v' \<Longrightarrow>
         set (ht_table t1 ! (unat h mod 2 ^ ?n1)) \<subseteq> set es" by auto
    let ?c = "ht_table t0 ! (unat v mod 2 ^ ?n0)"
    have tt: "(if DICTHT_SIZE (ht_size_exp (ht0 d)) > DICTHT_SIZE (ht_size_exp (ht1 d)) then (ht1 dp, ht0 dp)
        else (ht0 dp, ht1 dp)) = (t0, t1)" by (simp add: t0_def t1_def)
    note m = size_mask_ok[OF ok(1,2)] size_mask_ok[OF ok(3,4)]
    have "dictScan d v = Some (d, ?c @ es, v')"
      using ne True s(2) es(1)
      by (simp add: dictScan_def Let_def tt s(1)[unfolded m] m flip: dp_def)
    moreover have "x \<in> set (?c @ es)"
      if x: "x \<in> set (dict_entries d)" "rcur v \<le> rcur (hashFunction ty (dictGetKey x))"
        "rcur (hashFunction ty (dictGetKey x)) < cursor_end v'" for x
    proof (cases "x \<in> set (concat (ht_table t0))")
      case True
      from s(4)[OF this x(2)] x(3) es(2) show ?thesis by simp
    next
      case False
      with x(1) ent have x1: "x \<in> set (concat (ht_table t1))" by blast
      have "rcur v div 2 ^ (64 - ?n1) * 2 ^ (64 - ?n1) \<le> rcur (hashFunction ty (dictGetKey x))"
        using x(2) div_times_less_eq_dividend order_trans by blast
      from es(4)[OF this x(3)] entry_bucket[OF ok(3) x1] show ?thesis by auto
    qed
    ultimately show ?thesis
      using es(2,3) block_top_greater[of "rcur v" ?n0] s(3) unfolding ent by auto
  qed
qed

section \<open>Whole iterations\<close>

text \<open>
  An iteration as a client makes it: \<open>dictScan\<close> is called with the cursor it returned, until it
  returns 0. Call \<open>i\<close> finds the dictionary in the state \<open>ds ! i\<close>; nothing relates these states to
  one another. The entries of all the calls are collected.
\<close>

inductive scan_iteration :: "64 word \<Rightarrow> ('k, 'v) dict list \<Rightarrow> ('k, 'v) dictEntry list \<Rightarrow> bool" where
  scan_last: "dictScan d v = Some (d', es, 0) \<Longrightarrow> scan_iteration v [d] es"
| scan_more: "dictScan d v = Some (d', es, v') \<Longrightarrow> v' \<noteq> 0 \<Longrightarrow> scan_iteration v' ds es' \<Longrightarrow>
    scan_iteration v (d # ds) (es @ es')"

inductive_cases scan_iteration_ConsE: "scan_iteration v (d # ds) es"

lemma scan_iteration_covers:
  assumes "scan_iteration v ds es" "\<forall>d \<in> set ds. dict_wf ty d \<and> key \<in> dict_keys d"
    "rcur v \<le> rcur (hashFunction ty key)"
  shows "key \<in> dictGetKey ` set es"
  using assms
proof (induction rule: scan_iteration.induct)
  case (scan_last d v d' es)
  have wf: "dict_wf ty d" and key: "key \<in> dict_keys d" using scan_last.prems by auto
  have ne: "dictSize d \<noteq> 0" using key dictSize_bag[OF wf] by (auto simp: dict_keys_bag)
  obtain x where x: "x \<in> set (dict_entries d)" "dictGetKey x = key" using key by (auto simp: dict_keys_def)
  have "x \<in> set es"
    using dictScan_ok[OF wf ne, of v] scan_last x rcur_less[of "hashFunction ty key"]
    by (auto simp: cursor_end_def)
  then show ?case using x(2) by auto
next
  case (scan_more d v d' es v' ds es')
  have wf: "dict_wf ty d" and key: "key \<in> dict_keys d" using scan_more.prems by auto
  have ne: "dictSize d \<noteq> 0" using key dictSize_bag[OF wf] by (auto simp: dict_keys_bag)
  obtain x where x: "x \<in> set (dict_entries d)" "dictGetKey x = key" using key by (auto simp: dict_keys_def)
  have c: "cursor_end v' = rcur v'" using scan_more.hyps(2) by (simp add: cursor_end_def)
  show ?case
  proof (cases "rcur (hashFunction ty key) < rcur v'")
    case True
    then have "x \<in> set es"
      using dictScan_ok[OF wf ne, of v] scan_more.hyps(1) scan_more.prems(2) x c by auto
    then show ?thesis using x(2) by auto
  next
    case False
    then show ?thesis using scan_more.IH scan_more.prems(1) by auto
  qed
qed

lemma scan_iteration_sound:
  assumes "scan_iteration v ds es" "\<forall>d \<in> set ds. dict_wf ty d"
  shows "dictGetKey ` set es \<subseteq> (\<Union>d \<in> set ds. dict_keys d)"
  using assms
proof (induction rule: scan_iteration.induct)
  case (scan_last d v d' es)
  then show ?case
    using dictScan_ok[of ty d v] by (cases "dictSize d = 0") (auto simp: dictScan_def dict_keys_def)
next
  case (scan_more d v d' es v' ds es')
  then show ?case
    using dictScan_ok[of ty d v] by (cases "dictSize d = 0") (auto simp: dictScan_def dict_keys_def)
qed

text \<open>An iteration over a dictionary that does not change visits the blocks one after the other.\<close>

definition nth_cursor :: "nat \<Rightarrow> nat \<Rightarrow> 64 word" where
  "nth_cursor e i = rev_ul (word_of_nat (i * 2 ^ (64 - e)))"

definition nth_bucket :: "nat \<Rightarrow> nat \<Rightarrow> nat" where
  "nth_bucket e i = unat (nth_cursor e i) mod 2 ^ e"

lemma rcur_nth_cursor:
  assumes "e \<le> 64" "i < 2 ^ e"
  shows "rcur (nth_cursor e i) = i * 2 ^ (64 - e)"
proof -
  have "i * 2 ^ (64 - e) < 2 ^ e * 2 ^ (64 - e)" using assms(2) by simp
  also have "\<dots> = (2::nat) ^ 64" using assms(1) by (simp flip: power_add)
  finally show ?thesis unfolding rcur_def nth_cursor_def rev_ul_rev by (simp only: unat_of_nat) simp
qed

lemma rcur_inject: "rcur v = rcur w \<Longrightarrow> v = w"
  by (metis rcur_def rev_ul_rev word_unat_eq_iff)

lemma nth_cursor_next:
  assumes "e \<le> 64" "i < 2 ^ e"
  shows "scan_next (mask e) (nth_cursor e i) = (if i + 1 = 2 ^ e then 0 else nth_cursor e (i + 1))"
proof (rule rcur_inject)
  have p: "(2::nat) ^ 64 = 2 ^ e * 2 ^ (64 - e)" using assms(1) by (simp flip: power_add)
  have r: "rcur (scan_next (mask e) (nth_cursor e i)) = (i + 1) * 2 ^ (64 - e) mod 2 ^ 64"
    by (simp add: rcur_next[OF assms(1)] rcur_nth_cursor[OF assms])
  show "rcur (scan_next (mask e) (nth_cursor e i)) = rcur (if i + 1 = 2 ^ e then 0 else nth_cursor e (i + 1))"
  proof (cases "i + 1 = 2 ^ e")
    case True
    then show ?thesis unfolding r p by simp
  next
    case False
    with assms(2) have lt: "i + 1 < 2 ^ e" by simp
    then have "(i + 1) * 2 ^ (64 - e) < 2 ^ 64" unfolding p by (intro mult_strict_right_mono) auto
    then show ?thesis using False r rcur_nth_cursor[OF assms(1) lt] by simp
  qed
qed

lemma nth_bucket_inj: "e \<le> 64 \<Longrightarrow> inj_on (nth_bucket e) {0..<2 ^ e}"
proof (rule inj_onI)
  fix i j assume e: "e \<le> 64" and ij: "i \<in> {0..<2 ^ e}" "j \<in> {0..<2 ^ e}" "nth_bucket e i = nth_bucket e j"
  from ij(3) have "rcur (nth_cursor e i) div 2 ^ (64 - e) = rcur (nth_cursor e j) div 2 ^ (64 - e)"
    unfolding nth_bucket_def using same_bucket[OF e] by blast
  then show "i = j" using ij(1,2) by (simp add: rcur_nth_cursor[OF e])
qed

lemma nth_bucket_image: "e \<le> 64 \<Longrightarrow> nth_bucket e ` {0..<2 ^ e} = {0..<2 ^ e}"
  by (rule endo_inj_surj) (auto simp: nth_bucket_def intro: nth_bucket_inj)

lemma mset_buckets:
  assumes e: "e \<le> 64" and len: "length tbl = 2 ^ e"
  shows "mset (concat (map (\<lambda>i. tbl ! nth_bucket e i) [0..<2 ^ e])) = mset (concat tbl)"
proof -
  have "mset (map (nth_bucket e) [0..<2 ^ e]) = image_mset (nth_bucket e) (mset_set {0..<2 ^ e})"
    by simp
  also have "\<dots> = mset_set (nth_bucket e ` {0..<2 ^ e})" by (rule image_mset_mset_set[OF nth_bucket_inj[OF e]])
  finally have perm: "mset (map (nth_bucket e) [0..<2 ^ e]) = mset [0..<2 ^ e]"
    by (simp add: nth_bucket_image[OF e])
  have eq: "mset (concat (map g xs)) = mset (concat (map g ys))" if "mset xs = mset ys"
    for xs ys :: "nat list" and g :: "nat \<Rightarrow> 'x list"
    using arg_cong[OF that, of "\<lambda>M. sum_mset (image_mset (\<lambda>i. mset (g i)) M)"]
    by (simp add: mset_concat comp_def flip: sum_mset_sum_list mset_map)
  have "mset (concat (map (\<lambda>i. tbl ! nth_bucket e i) [0..<2 ^ e])) =
      mset (concat (map ((!) tbl) (map (nth_bucket e) [0..<2 ^ e])))" by (simp add: comp_def)
  also have "\<dots> = mset (concat (map ((!) tbl) [0..<2 ^ e]))" by (rule eq[OF perm])
  also have "map ((!) tbl) [0..<2 ^ e] = tbl" using map_nth[of tbl] by (simp add: len)
  finally show ?thesis .
qed

lemma dictScan_idle:
  assumes wf: "dict_wf ty d" and ne: "dictSize d \<noteq> 0" and idle: "\<not> dictIsRehashing d"
  shows "dictScan d v = Some (d, ht_table (ht0 d) ! (unat v mod 2 ^ nat (ht_size_exp (ht0 d))),
    scan_next (mask (nat (ht_size_exp (ht0 d)))) v)"
proof -
  note w = dict_wfD[OF wf] and e0 = dict_nonempty_table[OF wf ne]
  note t = scan_small_ok(1,2)[OF w(1) e0, where v = v]
  define dp where "dp = dictPauseRehashing d"
  have dp [simp]: "ht0 dp = ht0 d" "dictIsRehashing dp = dictIsRehashing d" "dictResumeRehashing dp = d"
    using pause_resume[OF w(5)] by (simp_all add: dp_def dictPauseRehashing_def dictIsRehashing_def)
  show ?thesis
    using ne idle t(2) by (simp add: dictScan_def Let_def t(1) size_mask_ok[OF w(1) e0] flip: dp_def)
      (simp add: t(1)[unfolded size_mask_ok[OF w(1) e0]])
qed

lemma scan_idle_from:
  assumes wf: "dict_wf ty d" and ne: "dictSize d \<noteq> 0" and idle: "\<not> dictIsRehashing d"
  defines "e \<equiv> nat (ht_size_exp (ht0 d))"
  shows "n < 2 ^ e \<Longrightarrow> scan_iteration (nth_cursor e (2 ^ e - Suc n)) (replicate (Suc n) d)
    (concat (map (\<lambda>i. ht_table (ht0 d) ! nth_bucket e i) [2 ^ e - Suc n..<2 ^ e]))"
proof (induction n)
  case 0
  note e0 = dict_nonempty_table[OF wf ne]
  have e: "e \<le> 64" using ht_okD(2)[OF dict_wfD(1)[OF wf] e0] by (simp add: e_def)
  have "scan_next (mask e) (nth_cursor e (2 ^ e - 1)) = 0" using nth_cursor_next[OF e, of "2 ^ e - 1"] by simp
  then have "dictScan d (nth_cursor e (2 ^ e - 1)) = Some (d, ht_table (ht0 d) ! nth_bucket e (2 ^ e - 1), 0)"
    using dictScan_idle[OF wf ne idle] by (simp add: nth_bucket_def flip: e_def)
  from scan_last[OF this] show ?case by (simp add: upt_rec[of "2 ^ e - Suc 0"])
next
  case (Suc n)
  note e0 = dict_nonempty_table[OF wf ne]
  have e: "e \<le> 64" using ht_okD(2)[OF dict_wfD(1)[OF wf] e0] by (simp add: e_def)
  let ?i = "2 ^ e - Suc (Suc n)"
  have i: "?i < 2 ^ e" "?i + 1 = 2 ^ e - Suc n" "?i + 1 \<noteq> 2 ^ e" using Suc.prems by auto
  have nxt: "scan_next (mask e) (nth_cursor e ?i) = nth_cursor e (2 ^ e - Suc n)"
    using nth_cursor_next[OF e i(1)] i(2,3) by simp
  have "rcur (nth_cursor e (2 ^ e - Suc n)) \<noteq> 0"
    using Suc.prems by (subst rcur_nth_cursor[OF e]) auto
  then have ne': "nth_cursor e (2 ^ e - Suc n) \<noteq> 0" by auto
  have "dictScan d (nth_cursor e ?i) = Some (d, ht_table (ht0 d) ! nth_bucket e ?i, nth_cursor e (2 ^ e - Suc n))"
    using dictScan_idle[OF wf ne idle] nxt by (simp add: nth_bucket_def flip: e_def)
  from scan_more[OF this ne' Suc.IH] Suc.prems
  show ?case using i(1,2) by (simp add: upt_rec[of ?i])
qed

lemma scan_idle_exact:
  assumes wf: "dict_wf ty d" and ne: "dictSize d \<noteq> 0" and idle: "\<not> dictIsRehashing d"
  shows "\<exists>es. scan_iteration 0 (replicate (DICTHT_SIZE (ht_size_exp (ht0 d))) d) es \<and> mset es = mset (dict_entries d)"
proof -
  let ?e = "nat (ht_size_exp (ht0 d))"
  note e0 = dict_nonempty_table[OF wf ne]
  note t = ht_okD[OF dict_wfD(1)[OF wf] e0]
  have sz: "DICTHT_SIZE (ht_size_exp (ht0 d)) = 2 ^ ?e" using t(1) by (simp add: DICTHT_SIZE_def)
  have "ht1 d = dictReset" using dict_wf_idle[OF wf idle] by simp
  then have "mset (concat (map (\<lambda>i. ht_table (ht0 d) ! nth_bucket ?e i) [0..<2 ^ ?e])) = mset (dict_entries d)"
    using mset_buckets[OF _ t(3)] t(2) by (simp add: dict_entries_def)
  moreover have "nth_cursor ?e 0 = 0" by (simp add: nth_cursor_def)
  ultimately show ?thesis
    using scan_idle_from[OF wf ne idle, of "2 ^ ?e - 1"] unfolding sz by auto
qed

section \<open>Properties\<close>

text \<open>C23: The guarantee of \<open>dictScan\<close>. A key that is in the dictionary at every call of an iteration
  (started with cursor 0 and continued until 0 is returned) is handed to the callback at least
  once, even if between two calls the tables are resized, rehashed or changed in any other way; and
  only keys that were present at some call are handed out.\<close>
theorem dictScan_complete:
  assumes "scan_iteration 0 ds es" "\<forall>d \<in> set ds. dict_wf ty d"
  shows "(\<Inter>d \<in> set ds. dict_keys d) \<subseteq> dictGetKey ` set es \<and> dictGetKey ` set es \<subseteq> (\<Union>d \<in> set ds. dict_keys d)"
  using scan_iteration_covers[OF assms(1), of ty] scan_iteration_sound[OF assms] assms(2) by auto

text \<open>The dictionary \<open>rehashing_dict\<close> before its expansion began.\<close>

definition idle_dict :: "(int, int) dict" where
  "idle_dict = \<lparr>ht0 = \<lparr>ht_table = [[], [Normal 1 (Some 10), Normal 5 (Some 50)], [Normal 6 (Some 60)], []], ht_used = 3, ht_size_exp = 2\<rparr>,
     ht1 = dictReset, rehashidx = -1, pauserehash = 0, useStoredKeyApi = False, pauseAutoResize = 0\<rparr>"

lemma idle_dict_wf: "dict_wf int_type idle_dict" "dictSize idle_dict \<noteq> 0" "\<not> dictIsRehashing idle_dict"
  by (auto simp: dict_wf_def idle_dict_def ht_ok_def All_less_Suc bucket_ok_def chain_ok_def entry_ok_def int_type_def
      hash_idx_mod dict_entries_def dictSize_def ulong_def dictIsRehashing_def)

lemma rev_ul_pow: "n < 64 \<Longrightarrow> rev_ul (2 ^ n) = 2 ^ (63 - n)"
  by (rule bit_eqI) (auto simp: bit_rev_ul bit_simps)

lemma rev_ul_values:
  "rev_ul 1 = 9223372036854775808"
  "rev_ul 2 = 4611686018427387904"
  "rev_ul 3 = 13835058055282163712"
  "rev_ul 4 = 2305843009213693952"
  "rev_ul 5 = 11529215046068469760"
  "rev_ul 6 = 6917529027641081856"
  "rev_ul 7 = 16140901064495857664"
  using rev_ul_pow[of 0] rev_ul_pow[of 1] rev_ul_pow[of 2] rev_ul_or[of 1 2] rev_ul_or[of 1 4] rev_ul_or[of 2 4]
    rev_ul_or[of 1 6] by simp_all

lemma rev_ul_values':
  "rev_ul 9223372036854775808 = 1"
  "rev_ul 4611686018427387904 = 2"
  "rev_ul 13835058055282163712 = 3"
  "rev_ul 2305843009213693952 = 4"
  "rev_ul 11529215046068469760 = 5"
  "rev_ul 6917529027641081856 = 6"
  "rev_ul 16140901064495857664 = 7"
  by (simp_all flip: rev_ul_values)

lemma scan_next_values:
  "scan_next 3 0 = 2" "scan_next 7 2 = 6" "scan_next 7 6 = 1" "scan_next 7 1 = 5" "scan_next 7 5 = 3" "scan_next 7 3 = 7"
  "scan_next 7 7 = 0"
  unfolding scan_next_def rev_ul_or
  using rev_ul_unmasked[of 2 0] rev_ul_unmasked[of 3 0]
  by (simp_all add: rev_ul_values rev_ul_values' mask_eq_exp_minus_1)

lemma scan_values:
  "dictScan idle_dict 0 = Some (idle_dict, [], 2)"
  "dictScan rehashing_dict 2 = Some (rehashing_dict, [Normal 6 (Some 60)], 1)"
  "dictScan rehashing_dict 1 = Some (rehashing_dict, [Normal 1 (Some 10), Normal 5 (Some 50)], 3)"
  "dictScan rehashing_dict 3 = Some (rehashing_dict, [], 0)"
  by (simp_all add: dictScan_def idle_dict_def rehashing_dict_def dictSize_def ulong_def dictIsRehashing_def
      dictPauseRehashing_def dictResumeRehashing_def size_mask_def DICTHT_SIZE_MASK_def DICTHT_SIZE_def aref_def
      scan_next_values scan_expand.simps dictGetNext_def)

theorem dictScan_complete_witness:
  "\<exists>es. scan_iteration 0 [idle_dict, rehashing_dict, rehashing_dict, rehashing_dict] es \<and>
    {1, 5, 6} \<subseteq> dictGetKey ` set es"
proof -
  let ?ds = "[idle_dict, rehashing_dict, rehashing_dict, rehashing_dict]"
  have "scan_iteration 3 [rehashing_dict] []" using scan_last[OF scan_values(4)] .
  from scan_more[OF scan_values(3) _ this] have "\<exists>es. scan_iteration 1 [rehashing_dict, rehashing_dict] es" by auto
  then have "\<exists>es. scan_iteration 2 [rehashing_dict, rehashing_dict, rehashing_dict] es"
    using scan_more[OF scan_values(2)] by auto
  then obtain es where es: "scan_iteration 0 ?ds es" using scan_more[OF scan_values(1)] by auto
  have keys: "{1, 5, 6} \<subseteq> (\<Inter>d \<in> set ?ds. dict_keys d)"
    by (simp add: dict_keys_def dict_entries_def idle_dict_def rehashing_dict_def)
  have "\<forall>d \<in> set ?ds. dict_wf int_type d" using idle_dict_wf(1) rehashing_dict_wf by simp
  note c = dictScan_complete[OF es this]
  show ?thesis by (intro exI[of _ es] conjI es subset_trans[OF keys conjunct1[OF c]])
qed

text \<open>C24: An iteration over a dictionary that does not change, is not empty and is not rehashing ends after as many
  calls as the table has buckets, and hands out every entry exactly once.\<close>
theorem dictScan_terminates_exact:
  assumes "dict_wf ty d" "dictSize d \<noteq> 0" "\<not> dictIsRehashing d"
  shows "\<exists>es. scan_iteration 0 (replicate (DICTHT_SIZE (ht_size_exp (ht0 d))) d) es \<and> mset es = mset (dict_entries d)"
  by (rule scan_idle_exact[OF assms])

theorem dictScan_terminates_exact_witness:
  "\<exists>es. scan_iteration 0 (replicate 4 idle_dict) es \<and>
    mset es = {#Normal 1 (Some 10), Normal 5 (Some 50), Normal 6 (Some 60)#}"
proof -
  have "DICTHT_SIZE (ht_size_exp (ht0 idle_dict)) = 4"
    "mset (dict_entries idle_dict) = {#Normal 1 (Some 10), Normal 5 (Some 50), Normal 6 (Some 60)#}"
    by (simp_all add: idle_dict_def DICTHT_SIZE_def dict_entries_def)
  then show ?thesis using dictScan_terminates_exact[OF idle_dict_wf] by simp
qed

text \<open>C28: Each call of \<open>dictScan\<close> on a non-empty dictionary, rehashing or not, makes progress: it
  returns, leaves the dictionary as it was, and the cursor read with its bits reversed grows, unless the new
  cursor is 0 and the iteration over.\<close>
theorem dictScan_progress:
  assumes "dict_wf ty d" "dictSize d \<noteq> 0"
  shows "\<exists>es v'. dictScan d v = Some (d, es, v') \<and> (v' = 0 \<or> unat (rev_ul v) < unat (rev_ul v'))"
  using dictScan_ok[OF assms, of v] by (auto simp: cursor_end_def rcur_def split: if_splits)

theorem dictScan_progress_witness:
  "\<exists>es v'. dictScan rehashing_dict 2 = Some (rehashing_dict, es, v') \<and> (v' = 0 \<or> unat (rev_ul 2) < unat (rev_ul v'))"
  using dictScan_progress[OF rehashing_dict_wf, of 2]
  by (simp add: rehashing_dict_def dictSize_def ulong_def)

end
