(* ===== verification/Dict_Iter.thy ===== *)
theory Dict_Iter
  imports Dict_Scan
begin

text \<open>
  The iterator of \<open>dict.c\<close> and its fingerprint. The addresses of the two tables, which the fingerprint reads, are
  arguments. Safe and unsafe iterators visit every entry once, also during rehashing.
\<close>

section \<open>The iterator\<close>

record ('k, 'v) dictIterator =
  it_index :: int
  it_table :: nat
  it_safe :: bool
  it_entry :: "('k, 'v) chain"
  it_nextEntry :: "('k, 'v) chain"
  it_fingerprint :: "64 word"

text \<open>Tomas Wang's integer hash, one round of the loop of \<open>dictFingerprint\<close>.\<close>

definition fingerprint_mix :: "64 word \<Rightarrow> 64 word \<Rightarrow> 64 word" where
  "fingerprint_mix hash i = (
     let hash = hash + i;
         hash = NOT hash + push_bit 21 hash;
         hash = hash XOR drop_bit 24 hash;
         hash = (hash + push_bit 3 hash) + push_bit 8 hash;
         hash = hash XOR drop_bit 14 hash;
         hash = (hash + push_bit 2 hash) + push_bit 4 hash;
         hash = hash XOR drop_bit 28 hash
     in hash + push_bit 31 hash)"

definition dictFingerprint :: "64 word \<times> 64 word \<Rightarrow> ('k, 'v) dict \<Rightarrow> 64 word" where
  "dictFingerprint addr d = fold (\<lambda>i hash. fingerprint_mix hash i)
     [fst addr, word_of_int (ht_size_exp (ht0 d)), word_of_nat (ht_used (ht0 d)),
      snd addr, word_of_int (ht_size_exp (ht1 d)), word_of_nat (ht_used (ht1 d))] 0"

definition dictInitIterator :: "('k, 'v) dictIterator" where
  "dictInitIterator = \<lparr>it_index = -1, it_table = 0, it_safe = False, it_entry = [], it_nextEntry = [], it_fingerprint = 0\<rparr>"

definition dictInitSafeIterator :: "('k, 'v) dictIterator" where
  "dictInitSafeIterator = dictInitIterator\<lparr>it_safe := True\<rparr>"

definition dictResetIterator :: "64 word \<times> 64 word \<Rightarrow> ('k, 'v) dict \<Rightarrow> ('k, 'v) dictIterator \<Rightarrow> ('k, 'v) dict option" where
  "dictResetIterator addr d iter =
     (if \<not> (it_index iter = -1 \<and> it_table iter = 0) then
        if it_safe iter then Some (dictResumeRehashing d)
        else do { c_assert (it_fingerprint iter = dictFingerprint addr d); Some d }
      else Some d)"

text \<open>The first call: pause rehashing or take the fingerprint, and skip the buckets already rehashed.\<close>

definition iter_start :: "64 word \<times> 64 word \<Rightarrow> ('k, 'v) dict \<Rightarrow> ('k, 'v) dictIterator \<Rightarrow>
    ('k, 'v) dict \<times> ('k, 'v) dictIterator" where
  "iter_start addr d iter =
     (if it_index iter = -1 \<and> it_table iter = 0 then
        let (d, iter) = (if it_safe iter then (dictPauseRehashing d, iter)
                         else (d, iter\<lparr>it_fingerprint := dictFingerprint addr d\<rparr>))
        in (d, if dictIsRehashing d then iter\<lparr>it_index := rehashidx d - 1\<rparr> else iter)
      else (d, iter))"

text \<open>
  One turn of the loop of \<open>dictNext\<close>, up to the test of the entry: \<open>Inl\<close> when the tables are exhausted.
\<close>

definition iter_bucket :: "('k, 'v) dict \<Rightarrow> ('k, 'v) dictIterator \<Rightarrow>
    ((('k, 'v) dict \<times> ('k, 'v) dictIterator) + (('k, 'v) dict \<times> ('k, 'v) dictIterator)) option" where
  "iter_bucket d iter = do {
     let iter = iter\<lparr>it_index := it_index iter + 1\<rparr>;
     if it_index iter \<ge> int (DICTHT_SIZE (ht_size_exp (dict_ht d (it_table iter)))) then
       if dictIsRehashing d \<and> it_table iter = 0 then do {
         let iter = iter\<lparr>it_table := 1, it_index := 0\<rparr>;
         c \<leftarrow> aref (ht_table (dict_ht d (it_table iter))) (nat (it_index iter));
         Some (Inr (d, iter\<lparr>it_entry := c\<rparr>))
       }
       else Some (Inl (d, iter))
     else do {
       c \<leftarrow> aref (ht_table (dict_ht d (it_table iter))) (nat (it_index iter));
       Some (Inr (d, iter\<lparr>it_entry := c\<rparr>))
     }
   }"

definition iter_advance :: "64 word \<times> 64 word \<Rightarrow> ('k, 'v) dict \<Rightarrow> ('k, 'v) dictIterator \<Rightarrow>
    ((('k, 'v) dict \<times> ('k, 'v) dictIterator) + (('k, 'v) dict \<times> ('k, 'v) dictIterator)) option" where
  "iter_advance addr d iter =
     (if it_entry iter = [] then (let (d, iter) = iter_start addr d iter in iter_bucket d iter)
      else Some (Inr (d, iter\<lparr>it_entry := it_nextEntry iter\<rparr>)))"

partial_function (option) dictNext :: "64 word \<times> 64 word \<Rightarrow> ('k, 'v) dict \<Rightarrow> ('k, 'v) dictIterator \<Rightarrow>
    (('k, 'v) dict \<times> ('k, 'v) dictIterator \<times> ('k, 'v) dictEntry option) option" where
  "dictNext addr d iter =
     Option.bind (iter_advance addr d iter) (\<lambda>r.
       case r of
         Inl x \<Rightarrow> Some (fst x, snd x, None)
       | Inr x \<Rightarrow>
           (case it_entry (snd x) of
              [] \<Rightarrow> dictNext addr (fst x) (snd x)
            | de # rest \<Rightarrow> Some (fst x, (snd x)\<lparr>it_nextEntry := dictGetNext de rest\<rparr>, Some de)))"

text \<open>A client that calls \<open>dictNext\<close> until it returns \<open>NULL\<close>, at most \<open>n\<close> times.\<close>

fun iterate :: "64 word \<times> 64 word \<Rightarrow> nat \<Rightarrow> ('k, 'v) dict \<Rightarrow> ('k, 'v) dictIterator \<Rightarrow>
    (('k, 'v) dict \<times> ('k, 'v) dictIterator \<times> ('k, 'v) dictEntry list) option" where
  "iterate addr 0 d iter = None"
| "iterate addr (Suc n) d iter = do {
     (d, iter, r) \<leftarrow> dictNext addr d iter;
     case r of
       None \<Rightarrow> Some (d, iter, [])
     | Some de \<Rightarrow> do { (d, iter, des) \<leftarrow> iterate addr n d iter; Some (d, iter, de # des) }
   }"

section \<open>What remains to be visited\<close>

text \<open>The entries in the buckets after the current one.\<close>

definition buckets_rest :: "('k, 'v) dict \<Rightarrow> ('k, 'v) dictIterator \<Rightarrow> ('k, 'v) dictEntry list" where
  "buckets_rest d iter =
     concat (drop (nat (it_index iter + 1)) (ht_table (dict_ht d (it_table iter)))) @
     (if it_table iter = 0 then concat (ht_table (ht1 d)) else [])"

definition iter_rest :: "('k, 'v) dict \<Rightarrow> ('k, 'v) dictIterator \<Rightarrow> ('k, 'v) dictEntry list" where
  "iter_rest d iter = (if it_entry iter = [] then [] else it_nextEntry iter) @ buckets_rest d iter"

definition iter_placed :: "('k, 'v) dict \<Rightarrow> ('k, 'v) dictIterator \<Rightarrow> bool" where
  "iter_placed d iter \<longleftrightarrow> -1 \<le> it_index iter \<and> (it_table iter = 0 \<or> it_table iter = 1 \<and> dictIsRehashing d)"

definition iter_started :: "('k, 'v) dictType \<Rightarrow> ('k, 'v) dict \<Rightarrow> ('k, 'v) dictIterator \<Rightarrow> bool" where
  "iter_started ty d iter \<longleftrightarrow> iter_placed d iter \<and> 0 \<le> it_index iter \<and>
     (it_entry iter \<noteq> [] \<longrightarrow> chain_ok ty (it_nextEntry iter))"

definition buckets_left :: "('k, 'v) dict \<Rightarrow> ('k, 'v) dictIterator \<Rightarrow> nat" where
  "buckets_left d iter = length (ht_table (dict_ht d (it_table iter))) - nat (it_index iter + 1) +
     (if it_table iter = 0 then length (ht_table (ht1 d)) + 1 else 0)"

text \<open>The next bucket: the end, or a bucket whose entries come first among the remaining ones.\<close>

lemma iter_bucket_ok:
  assumes wf: "dict_wf ty d" and p: "iter_placed d iter"
  shows "(\<exists>iter'. iter_bucket d iter = Some (Inl (d, iter')) \<and> buckets_rest d iter = [] \<and> it_safe iter' = it_safe iter \<and>
      it_fingerprint iter' = it_fingerprint iter \<and> 0 \<le> it_index iter') \<or>
    (\<exists>iter'. iter_bucket d iter = Some (Inr (d, iter')) \<and> it_safe iter' = it_safe iter \<and>
      it_fingerprint iter' = it_fingerprint iter \<and> 0 \<le> it_index iter' \<and> iter_placed d iter' \<and>
      chain_ok ty (it_entry iter') \<and> buckets_rest d iter = it_entry iter' @ buckets_rest d iter' \<and>
      buckets_left d iter' < buckets_left d iter)"
proof -
  let ?t = "ht_table (dict_ht d (it_table iter))" and ?i = "nat (it_index iter + 1)"
  have i: "int ?i = it_index iter + 1" using p by (simp add: iter_placed_def)
  have size_t: "DICTHT_SIZE (ht_size_exp (dict_ht d (it_table iter))) = length ?t"
    by (rule ht_ok_size[OF ht_ok_dict_ht[OF wf]])
  show ?thesis
  proof (cases "?i < length ?t")
    case True
    have "?t ! ?i \<in> set ?t" by (rule nth_mem[OF True])
    then have "chain_ok ty (?t ! ?i)" using ht_ok_chains[OF ht_ok_dict_ht[OF wf]] by blast
    moreover have "drop ?i ?t = ?t ! ?i # drop (?i + 1) ?t" using Cons_nth_drop_Suc[OF True] by simp
    moreover have "nat (2 + it_index iter) = ?i + 1" using i by linarith
    ultimately show ?thesis using True p i size_t
      by (intro disjI2 exI[of _ "iter\<lparr>it_index := it_index iter + 1, it_entry := ?t ! ?i\<rparr>"])
        (auto simp: iter_bucket_def Let_def aref_in iter_placed_def buckets_rest_def buckets_left_def)
  next
    case False
    then have big: "int (length ?t) \<le> it_index iter + 1" using i by linarith
    show ?thesis
    proof (cases "dictIsRehashing d \<and> it_table iter = 0")
      case True
      note e1 = dict_wf_rehashing(2)[OF wf conjunct1[OF True]]
      let ?t1 = "ht_table (ht1 d)"
      have ne: "0 < length ?t1" using ht_okD(3)[OF dict_wfD(2)[OF wf] e1] by simp
      then have "chain_ok ty (?t1 ! 0)" using ht_ok_chains[OF dict_wfD(2)[OF wf]] nth_mem by blast
      moreover have "concat ?t1 = ?t1 ! 0 @ concat (drop 1 ?t1)" using ne by (cases ?t1) auto
      ultimately show ?thesis using big False True p size_t ne
        by (intro disjI2 exI[of _ "iter\<lparr>it_index := 0, it_table := 1, it_entry := ?t1 ! 0\<rparr>"])
          (auto simp: iter_bucket_def Let_def aref_in iter_placed_def buckets_rest_def buckets_left_def)
    next
      case over: False
      have "it_table iter = 0 \<Longrightarrow> ht_table (ht1 d) = []"
        using over dict_wf_idle[OF wf] by auto
      then show ?thesis using big False over p size_t
        by (intro disjI1) (auto simp: iter_bucket_def Let_def buckets_rest_def iter_placed_def)
    qed
  qed
qed

section \<open>Whole iterations\<close>

definition next_body :: "64 word \<times> 64 word \<Rightarrow>
    (('k, 'v) dict \<times> ('k, 'v) dictIterator) + (('k, 'v) dict \<times> ('k, 'v) dictIterator) \<Rightarrow>
    (('k, 'v) dict \<times> ('k, 'v) dictIterator \<times> ('k, 'v) dictEntry option) option" where
  "next_body addr r = (case r of
       Inl x \<Rightarrow> Some (fst x, snd x, None)
     | Inr x \<Rightarrow>
         (case it_entry (snd x) of
            [] \<Rightarrow> dictNext addr (fst x) (snd x)
          | de # rest \<Rightarrow> Some (fst x, (snd x)\<lparr>it_nextEntry := dictGetNext de rest\<rparr>, Some de)))"

lemma dictNext_body: "dictNext addr d iter = Option.bind (iter_advance addr d iter) (next_body addr)"
  unfolding next_body_def by (subst dictNext.simps) (rule refl)

text \<open>What a call returns when \<open>es\<close> is what remains.\<close>

definition next_post :: "('k, 'v) dictType \<Rightarrow> ('k, 'v) dict \<Rightarrow> ('k, 'v) dictIterator \<Rightarrow> ('k, 'v) dictEntry list \<Rightarrow>
    ('k, 'v) dictIterator \<Rightarrow> ('k, 'v) dictEntry option \<Rightarrow> bool" where
  "next_post ty d iter es iter' r \<longleftrightarrow> it_safe iter' = it_safe iter \<and> it_fingerprint iter' = it_fingerprint iter \<and>
     0 \<le> it_index iter' \<and>
     (case es of [] \<Rightarrow> r = None | e # es' \<Rightarrow> r = Some e \<and> iter_started ty d iter' \<and> iter_rest d iter' = es')"

lemma next_post_found:
  assumes "iter_placed d iter'" "0 \<le> it_index iter'" "chain_ok ty (de # rest)" "it_entry iter' = de # rest"
    "it_safe iter' = it_safe iter" "it_fingerprint iter' = it_fingerprint iter"
  shows "next_body addr (Inr (d, iter')) = Some (d, iter'\<lparr>it_nextEntry := rest\<rparr>, Some de) \<and>
    next_post ty d iter (de # rest @ buckets_rest d iter') (iter'\<lparr>it_nextEntry := rest\<rparr>) (Some de)"
  using assms chain_ok_next[OF assms(3)]
  by (auto simp: next_body_def next_post_def iter_started_def iter_placed_def iter_rest_def buckets_rest_def chain_ok_Cons)

lemma bucket_loop_ok:
  assumes wf: "dict_wf ty d"
  shows "iter_placed d iter \<Longrightarrow> \<exists>iter' r. Option.bind (iter_bucket d iter) (next_body addr) = Some (d, iter', r) \<and>
    next_post ty d iter (buckets_rest d iter) iter' r"
proof (induction iter rule: measure_induct_rule[of "buckets_left d"])
  case (less iter)
  from iter_bucket_ok[OF wf less.prems] show ?case
  proof (elim disjE exE conjE)
    fix iter' assume "iter_bucket d iter = Some (Inl (d, iter'))" "buckets_rest d iter = []"
      "it_safe iter' = it_safe iter" "it_fingerprint iter' = it_fingerprint iter" "0 \<le> it_index iter'"
    then show ?thesis by (simp add: next_body_def next_post_def)
  next
    fix iter' assume b: "iter_bucket d iter = Some (Inr (d, iter'))" "it_safe iter' = it_safe iter"
      "it_fingerprint iter' = it_fingerprint iter" "0 \<le> it_index iter'" "iter_placed d iter'"
      "chain_ok ty (it_entry iter')" "buckets_rest d iter = it_entry iter' @ buckets_rest d iter'"
      "buckets_left d iter' < buckets_left d iter"
    show ?thesis
    proof (cases "it_entry iter'")
      case Nil
      have start: "iter_start addr d iter' = (d, iter')" using b(4) by (simp add: iter_start_def)
      then have "next_body addr (Inr (d, iter')) = Option.bind (iter_bucket d iter') (next_body addr)"
        using Nil dictNext_body[of addr d iter'] by (simp add: next_body_def iter_advance_def)
      with less.IH[OF b(8,5)] b Nil show ?thesis by (auto simp: next_post_def)
    next
      case (Cons de rest)
      from next_post_found[OF b(5,4) _ Cons b(2,3), of ty addr] b(6) Cons b(1,7) show ?thesis by auto
    qed
  qed
qed

lemma dictNext_started:
  assumes wf: "dict_wf ty d" and st: "iter_started ty d iter"
  shows "\<exists>iter' r. dictNext addr d iter = Some (d, iter', r) \<and> next_post ty d iter (iter_rest d iter) iter' r"
proof -
  have p: "iter_placed d iter" "0 \<le> it_index iter" using st by (auto simp: iter_started_def)
  have start: "iter_start addr d it = (d, it)" if "0 \<le> it_index it" for it :: "('a, 'b) dictIterator"
    using that by (simp add: iter_start_def)
  have empty: "dictNext addr d it = Option.bind (iter_bucket d it) (next_body addr)"
    if "it_entry it = []" "0 \<le> it_index it" for it :: "('a, 'b) dictIterator"
    using that by (simp add: dictNext_body iter_advance_def start)
  show ?thesis
  proof (cases "it_entry iter = []")
    case True
    then show ?thesis using bucket_loop_ok[OF wf p(1), of addr] empty[OF True p(2)] by (simp add: iter_rest_def)
  next
    case False
    let ?it = "iter\<lparr>it_entry := it_nextEntry iter\<rparr>"
    have p': "iter_placed d ?it" "0 \<le> it_index ?it" using p by (auto simp: iter_placed_def)
    have rest: "buckets_rest d ?it = buckets_rest d iter" by (simp add: buckets_rest_def)
    have run: "dictNext addr d iter = next_body addr (Inr (d, ?it))"
      using False by (simp add: dictNext_body iter_advance_def)
    show ?thesis
    proof (cases "it_nextEntry iter")
      case Nil
      then have "next_body addr (Inr (d, ?it)) = Option.bind (iter_bucket d ?it) (next_body addr)"
        using empty[of ?it] p' by (simp add: next_body_def)
      then show ?thesis
        using bucket_loop_ok[OF wf p'(1), of addr] run rest False Nil by (auto simp: iter_rest_def next_post_def)
    next
      case (Cons de r)
      have "chain_ok ty (de # r)" using st False Cons by (simp add: iter_started_def)
      from next_post_found[OF p' this, of iter addr] Cons run rest False show ?thesis by (auto simp: iter_rest_def)
    qed
  qed
qed

lemma iterate_started:
  assumes wf: "dict_wf ty d"
  shows "iter_started ty d iter \<Longrightarrow> length (iter_rest d iter) < n \<Longrightarrow>
    \<exists>iter'. iterate addr n d iter = Some (d, iter', iter_rest d iter) \<and> it_safe iter' = it_safe iter \<and>
      it_fingerprint iter' = it_fingerprint iter \<and> 0 \<le> it_index iter'"
proof (induction n arbitrary: iter)
  case (Suc n)
  from dictNext_started[OF wf Suc.prems(1)] obtain iter1 r where
    r: "dictNext addr d iter = Some (d, iter1, r)" "next_post ty d iter (iter_rest d iter) iter1 r" by blast
  show ?case
  proof (cases "iter_rest d iter")
    case Nil
    then show ?thesis using r by (simp add: next_post_def)
  next
    case (Cons e es)
    then have s: "r = Some e" "iter_started ty d iter1" "iter_rest d iter1 = es" using r(2) by (auto simp: next_post_def)
    from Suc.IH[OF s(2)] Suc.prems(2) Cons s(3) r show ?thesis by (auto simp: s(1) next_post_def)
  qed
qed simp

text \<open>The buckets before the rehashing index are empty, so an iteration that skips them misses nothing.\<close>

lemma concat_drop_empty: "(\<And>i. i < n \<Longrightarrow> xs ! i = []) \<Longrightarrow> n \<le> length xs \<Longrightarrow> concat (drop n xs) = concat xs"
proof (induction n)
  case (Suc n)
  then have "drop n xs = xs ! n # drop (Suc n) xs" by (intro Cons_nth_drop_Suc[symmetric]) simp
  moreover have "concat (drop n xs) = concat xs" using Suc by simp
  ultimately show ?case using Suc.prems(1)[of n] by simp
qed simp

text \<open>The first call, of a safe or an unsafe iterator, starts on all entries.\<close>

lemma dictNext_first:
  assumes wf: "dict_wf ty d" and iter: "iter = dictInitIterator \<or> iter = dictInitSafeIterator"
  defines "d1 \<equiv> if it_safe iter then dictPauseRehashing d else d"
  shows "\<exists>iter2 r. dictNext addr d iter = Some (d1, iter2, r) \<and>
    next_post ty d1 (iter\<lparr>it_fingerprint := (if it_safe iter then 0 else dictFingerprint addr d)\<rparr>) (dict_entries d) iter2 r"
proof -
  define iter1 where "iter1 = iter\<lparr>it_fingerprint := (if it_safe iter then 0 else dictFingerprint addr d),
    it_index := (if dictIsRehashing d then rehashidx d - 1 else -1)\<rparr>"
  have i0: "it_index iter = -1" "it_table iter = 0" "it_entry iter = []" "it_fingerprint iter = 0"
    using iter by (auto simp: dictInitIterator_def dictInitSafeIterator_def)
  have d1: "dictIsRehashing d1 = dictIsRehashing d" "rehashidx d1 = rehashidx d" "ht0 d1 = ht0 d" "ht1 d1 = ht1 d"
    by (simp_all add: d1_def dictPauseRehashing_def dictIsRehashing_def)
  have wf1: "dict_wf ty d1"
    unfolding d1_def dictPauseRehashing_def using wf pause_wf[OF wf] by simp
  have start: "iter_start addr d iter = (d1, iter1)"
    using i0 d1(1,2) by (auto simp: iter_start_def d1_def iter1_def Let_def)
  have placed: "iter_placed d1 iter1"
    using dict_wf_rehashing(4)[OF wf] i0 by (auto simp: iter_placed_def iter1_def)
  have rest: "buckets_rest d1 iter1 = dict_entries d"
  proof (cases "dictIsRehashing d")
    case True
    note r = dict_wf_rehashing[OF wf True]
    have "concat (drop (nat (rehashidx d)) (ht_table (ht0 d))) = concat (ht_table (ht0 d))"
      using r(5,6) by (intro concat_drop_empty) auto
    then show ?thesis using True i0 d1 by (simp add: buckets_rest_def iter1_def dict_entries_def)
  next
    case False
    then show ?thesis using i0 d1 by (simp add: buckets_rest_def iter1_def dict_entries_def)
  qed
  have run: "dictNext addr d iter = Option.bind (iter_bucket d1 iter1) (next_body addr)"
    using i0 start by (simp add: dictNext_body iter_advance_def)
  have "next_post ty d1 iter1 es i r \<longleftrightarrow>
      next_post ty d1 (iter\<lparr>it_fingerprint := (if it_safe iter then 0 else dictFingerprint addr d)\<rparr>) es i r" for es i r
    by (simp add: next_post_def iter1_def)
  with bucket_loop_ok[OF wf1 placed, of addr] run show ?thesis by (simp add: rest)
qed

lemma iterate_all:
  assumes wf: "dict_wf ty d" and n: "length (dict_entries d) < n"
    and iter: "iter = dictInitIterator \<or> iter = dictInitSafeIterator"
    and p: "pauserehash d < 2 ^ 15 - 1"
  shows "\<exists>d' iter'. iterate addr n d iter = Some (d', iter', dict_entries d) \<and> dictResetIterator addr d' iter' = Some d \<and>
    d' = (if it_safe iter then dictPauseRehashing d else d)"
proof -
  define d1 where "d1 = (if it_safe iter then dictPauseRehashing d else d)"
  define fp where "fp = (if it_safe iter then 0 else dictFingerprint addr d)"
  have wf1: "dict_wf ty d1"
    unfolding d1_def dictPauseRehashing_def using wf pause_wf[OF wf] by simp
  from dictNext_first[OF wf iter, of addr] obtain iter2 r where
    r: "dictNext addr d iter = Some (d1, iter2, r)" "next_post ty d1 (iter\<lparr>it_fingerprint := fp\<rparr>) (dict_entries d) iter2 r"
    by (auto simp: d1_def fp_def)
  obtain m where m: "n = Suc m" using n by (cases n) auto
  have "\<exists>iter'. iterate addr n d iter = Some (d1, iter', dict_entries d) \<and> it_safe iter' = it_safe iter \<and>
      it_fingerprint iter' = fp \<and> 0 \<le> it_index iter'"
  proof (cases "dict_entries d")
    case Nil
    then show ?thesis using r m by (simp add: next_post_def)
  next
    case (Cons e es)
    then have s: "r = Some e" "iter_started ty d1 iter2" "iter_rest d1 iter2 = es" "it_safe iter2 = it_safe iter"
      "it_fingerprint iter2 = fp" using r(2) by (auto simp: next_post_def)
    from iterate_started[OF wf1 s(2), of m addr] n m Cons s r(1) show ?thesis by auto
  qed
  then obtain iter' where it: "iterate addr n d iter = Some (d1, iter', dict_entries d)" "it_safe iter' = it_safe iter"
    "it_fingerprint iter' = fp" "0 \<le> it_index iter'" by auto
  have "dictResetIterator addr d1 iter' = Some d"
    using it(2,3,4) pause_resume[of d] p by (auto simp: dictResetIterator_def d1_def fp_def)
  then show ?thesis using it(1) by (auto simp: d1_def)
qed

section \<open>Properties\<close>

text \<open>C29: A safe or an unsafe iterator over a dictionary that is not modified meanwhile returns every entry
  exactly once and then \<open>NULL\<close>, also in the middle of a rehashing; resetting it fails no assertion
  and leaves the dictionary, its pause count included, as it was.\<close>
theorem dictNext_visits_all:
  assumes "dict_wf ty d" "pauserehash d < 2 ^ 15 - 1" "iter = dictInitIterator \<or> iter = dictInitSafeIterator"
  shows "\<exists>d' iter'. iterate addr (length (dict_entries d) + 1) d iter = Some (d', iter', dict_entries d) \<and>
    dictResetIterator addr d' iter' = Some d \<and> (it_safe iter \<longrightarrow> pauserehash d' = pauserehash d + 1)"
  using iterate_all[OF assms(1) _ assms(3,2), of "length (dict_entries d) + 1" addr] assms(2)
  by (auto simp: dictPauseRehashing_def)

theorem dictNext_visits_all_witness:
  "\<exists>d' iter'. iterate (4096, 8192) 4 rehashing_dict dictInitSafeIterator =
      Some (d', iter', [Normal 1 (Some 10), Normal 5 (Some 50), Normal 6 (Some 60)]) \<and> pauserehash d' = 1 \<and>
    dictResetIterator (4096, 8192) d' iter' = Some rehashing_dict"
proof -
  have e: "dict_entries rehashing_dict = [Normal 1 (Some 10), Normal 5 (Some 50), Normal 6 (Some 60)]"
    "pauserehash rehashing_dict = 0" "it_safe dictInitSafeIterator"
    by (simp_all add: rehashing_dict_def dict_entries_def dictInitSafeIterator_def)
  have n: "length (dict_entries rehashing_dict) + 1 = 4" by (simp add: e(1))
  have p: "pauserehash rehashing_dict < 2 ^ 15 - 1" by (simp add: e(2))
  from dictNext_visits_all[OF rehashing_dict_wf p disjI2[OF refl], of "(4096, 8192)", unfolded n]
  show ?thesis using e by (auto simp del: iterate.simps)
qed

end
