(* ===== verification/Set_Type.thy ===== *)
theory Set_Type
  imports Intset Listpack_Props Dict_Iter
begin

text \<open>
  The set type of \<open>t_set.c\<close>: a set object in one of its three encodings, an intset, a listpack or a
  hash table without values, the conversions between them, the iterator over any of them and the
  operations the commands are built from. A member is a byte string; the encodings hold a member
  that is the canonical decimal form of a 64 bit integer as that integer.

  The parts of the server's state that the operations read are the record \<open>set_env\<close>: the three
  limits of the configuration, whether hash tables may be resized, the hash function of
  \<open>dictSdsHash\<close> and the addresses of the tables of a dictionary, which only the fingerprint of its
  iterator reads. A member argument is \<open>str\<close> (\<open>None\<close> for \<open>NULL\<close>) and \<open>llval\<close>; \<open>len\<close> is the length of
  \<open>str\<close>, and \<open>str_is_sds\<close>, which only decides who owns the memory of the string, is left out. The
  result \<open>None\<close> stands for a failed assertion or an access outside a table.
\<close>

section \<open>Set objects\<close>

datatype setobj =
    Set_INTSET intset                        \<comment> \<open>\<open>OBJ_ENCODING_INTSET\<close>\<close>
  | Set_LISTPACK "byte list"                 \<comment> \<open>\<open>OBJ_ENCODING_LISTPACK\<close>\<close>
  | Set_HT "(byte list, unit) dict"          \<comment> \<open>\<open>OBJ_ENCODING_HT\<close>\<close>

datatype obj_encoding = OBJ_ENCODING_INTSET | OBJ_ENCODING_LISTPACK | OBJ_ENCODING_HT

record set_env =
  set_max_intset_entries :: nat
  set_max_listpack_entries :: nat
  set_max_listpack_value :: nat
  set_can_resize :: dictResizeEnable
  dictSdsHash :: "byte list \<Rightarrow> 64 word"
  table_addr :: "64 word \<times> 64 word"

fun set_encoding_of :: "setobj \<Rightarrow> obj_encoding" where
  "set_encoding_of (Set_INTSET _) = OBJ_ENCODING_INTSET"
| "set_encoding_of (Set_LISTPACK _) = OBJ_ENCODING_LISTPACK"
| "set_encoding_of (Set_HT _) = OBJ_ENCODING_HT"

definition dictSdsKeyCompare :: "byte list \<Rightarrow> byte list \<Rightarrow> bool" where
  "dictSdsKeyCompare key1 key2 =
     (let l1 = length key1; l2 = length key2 in
      if l1 \<noteq> l2 then False else take l1 key1 = take l1 key2)"

definition setDictType :: "set_env \<Rightarrow> (byte list, unit) dictType" where
  "setDictType env =
     \<lparr>hashFunction = dictSdsHash env, keyDup = None, valDup = None, keyCompare = Some dictSdsKeyCompare,
      resizeAllowed = None, no_value = True, keys_are_odd = True, storedHashFunction = None,
      storedKeyCompare = None, odd_key = (\<lambda>_. True)\<rparr>"

definition createIntsetObject :: setobj where
  "createIntsetObject = Set_INTSET intsetNew"

definition createSetListpackObject :: setobj where
  "createSetListpackObject = Set_LISTPACK (lpNew 0)"

definition createSetObject :: setobj where
  "createSetObject = Set_HT dictCreate"

definition isSdsRepresentableAsLongLong :: "byte list \<Rightarrow> bool" where
  "isSdsRepresentableAsLongLong s = (string2ll s \<noteq> None)"

text \<open>\<open>ll2string\<close> into a buffer of \<open>LONG_STR_SIZE\<close> bytes, read back.\<close>

definition sdsfromlonglong :: "int \<Rightarrow> byte list" where
  "sdsfromlonglong v =
     (case ll2string (replicate LONG_STR_SIZE 0) LONG_STR_SIZE v of (buf, len) \<Rightarrow> take len buf)"

section \<open>The iterator\<close>

datatype setTypeIterator =
    Iter_HT "(byte list, unit) dictIterator"
  | Iter_INTSET nat
  | Iter_LISTPACK "nat option"

definition setTypeInitIterator :: "setobj \<Rightarrow> setTypeIterator" where
  "setTypeInitIterator subject =
     (case subject of
        Set_HT d \<Rightarrow> Iter_HT dictInitIterator
      | Set_INTSET is \<Rightarrow> Iter_INTSET 0
      | Set_LISTPACK lp \<Rightarrow> Iter_LISTPACK None)"

definition setTypeReleaseIterator :: "set_env \<Rightarrow> setobj \<Rightarrow> setTypeIterator \<Rightarrow> setobj option" where
  "setTypeReleaseIterator env subject si =
     (case (subject, si) of
        (Set_HT d, Iter_HT di) \<Rightarrow> map_option Set_HT (dictResetIterator (table_addr env) d di)
      | _ \<Rightarrow> Some subject)"

text \<open>
  The object, the iterator and the element, \<open>None\<close> for the end (\<open>-1\<close>). The element is \<open>LP_STR\<close> of
  the string, or \<open>LP_INT\<close> of the integer when \<open>*str\<close> is \<open>NULL\<close>.
\<close>

definition setTypeNext ::
  "set_env \<Rightarrow> setobj \<Rightarrow> setTypeIterator \<Rightarrow> (setobj \<times> setTypeIterator \<times> lp_value option) option" where
  "setTypeNext env subject si =
     (case (si, subject) of
        (Iter_HT di, Set_HT d) \<Rightarrow> do {
          (d, di, de) \<leftarrow> dictNext (table_addr env) d di;
          Some (Set_HT d, Iter_HT di, map_option (\<lambda>de. LP_STR (dictGetKey de)) de)
        }
      | (Iter_INTSET ii, Set_INTSET is) \<Rightarrow>
          Some (subject, Iter_INTSET (ii + 1), map_option LP_INT (intsetGet is ii))
      | (Iter_LISTPACK lpi, Set_LISTPACK lp) \<Rightarrow> do {
          lpi' \<leftarrow> (case lpi of None \<Rightarrow> lpFirst lp | Some p \<Rightarrow> lpNext lp p);
          (case lpi' of
             None \<Rightarrow> Some (subject, si, None)
           | Some p \<Rightarrow> Some (subject, Iter_LISTPACK (Some p), Some (lpGetValue (drop p lp))))
        }
      | _ \<Rightarrow> None)"

definition set_element_sds :: "lp_value \<Rightarrow> byte list" where
  "set_element_sds e = (case e of LP_STR s \<Rightarrow> s | LP_INT v \<Rightarrow> sdsfromlonglong v)"

definition setTypeNextObject ::
  "set_env \<Rightarrow> setobj \<Rightarrow> setTypeIterator \<Rightarrow> (setobj \<times> setTypeIterator \<times> byte list option) option" where
  "setTypeNextObject env subject si = do {
     (subject, si, e) \<leftarrow> setTypeNext env subject si;
     Some (subject, si, map_option set_element_sds e)
   }"

text \<open>
  The loop \<open>while (setTypeNext(si, ...) != -1) body\<close>, where \<open>body\<close> changes the local state of the
  caller and answers whether to go on.
\<close>

partial_function (option) set_foreach ::
  "set_env \<Rightarrow> ('a \<Rightarrow> lp_value \<Rightarrow> ('a \<times> bool) option) \<Rightarrow> setobj \<Rightarrow> setTypeIterator \<Rightarrow> 'a \<Rightarrow>
   (setobj \<times> setTypeIterator \<times> 'a) option" where
  "set_foreach env body subject si acc =
     Option.bind (setTypeNext env subject si) (\<lambda>r.
       case snd (snd r) of
         None \<Rightarrow> Some (fst r, fst (snd r), acc)
       | Some e \<Rightarrow> Option.bind (body acc e) (\<lambda>b.
           if snd b then set_foreach env body (fst r) (fst (snd r)) (fst b)
           else Some (fst r, fst (snd r), fst b)))"

text \<open>The whole loop: initialise the iterator, run to the end, release it.\<close>

definition set_iterate ::
  "set_env \<Rightarrow> ('a \<Rightarrow> lp_value \<Rightarrow> ('a \<times> bool) option) \<Rightarrow> setobj \<Rightarrow> 'a \<Rightarrow> (setobj \<times> 'a) option" where
  "set_iterate env body subject acc = do {
     (subject, si, acc) \<leftarrow> set_foreach env body subject (setTypeInitIterator subject) acc;
     subject \<leftarrow> setTypeReleaseIterator env subject si;
     Some (subject, acc)
   }"

section \<open>Size and conversion\<close>

definition setTypeSize :: "setobj \<Rightarrow> (setobj \<times> nat) option" where
  "setTypeSize subject =
     (case subject of
        Set_HT d \<Rightarrow> Some (subject, dictSize d)
      | Set_INTSET is \<Rightarrow> Some (subject, intsetLen is)
      | Set_LISTPACK lp \<Rightarrow> do { (lp, n) \<leftarrow> lpLength lp; Some (Set_LISTPACK lp, n) })"

definition dict_expand_for :: "bool option \<Rightarrow> (byte list, unit) dict \<Rightarrow> nat \<Rightarrow> ((byte list, unit) dict \<times> bool) option" where
  "dict_expand_for try_alloc d cap =
     (case try_alloc of
        None \<Rightarrow> do { (d, _) \<leftarrow> dictExpand d cap; Some (d, True) }
      | Some alloc_ok \<Rightarrow> dictTryExpand alloc_ok d cap)"

text \<open>
  \<open>setTypeConvertAndExpand\<close>: \<open>try_alloc\<close> is \<open>None\<close> for \<open>panic = 1\<close>, otherwise it says whether the
  allocation of the table succeeds. The result is the object and whether it is \<open>C_OK\<close>.
\<close>

definition setTypeConvertAndExpand ::
  "set_env \<Rightarrow> setobj \<Rightarrow> obj_encoding \<Rightarrow> nat \<Rightarrow> bool option \<Rightarrow> (setobj \<times> bool) option" where
  "setTypeConvertAndExpand env setobj enc cap try_alloc = do {
     c_assert (set_encoding_of setobj \<noteq> enc);
     (case enc of
        OBJ_ENCODING_HT \<Rightarrow> do {
          (d, expanded) \<leftarrow> dict_expand_for try_alloc dictCreate cap;
          if \<not> expanded then Some (setobj, False)
          else do {
            (_, d) \<leftarrow> set_iterate env (\<lambda>d e. do {
                (d, ok) \<leftarrow> dictAdd (set_can_resize env) (setDictType env) d (set_element_sds e) ();
                c_assert ok;
                Some (d, True)
              }) setobj d;
            Some (Set_HT d, True)
          }
        }
      | OBJ_ENCODING_LISTPACK \<Rightarrow> do {
          (setobj, n) \<leftarrow> setTypeSize setobj;
          let estcap = (case setobj of
              Set_INTSET is \<Rightarrow>
                if n > 0 then max (lpEstimateBytesRepeatedInteger (intsetMin is) cap)
                                  (lpEstimateBytesRepeatedInteger (intsetMax is) cap)
                else cap * 2
            | _ \<Rightarrow> cap * 2);
          (_, lp) \<leftarrow> set_iterate env (\<lambda>lp e. do {
              r \<leftarrow> (case e of LP_STR s \<Rightarrow> lpAppend lp s | LP_INT v \<Rightarrow> lpAppendInteger lp v);
              lp \<leftarrow> r;
              Some (lp, True)
            }) setobj (lpNew estcap);
          Some (Set_LISTPACK lp, True)
        }
      | OBJ_ENCODING_INTSET \<Rightarrow> None)
   }"

definition setTypeConvert :: "set_env \<Rightarrow> setobj \<Rightarrow> obj_encoding \<Rightarrow> setobj option" where
  "setTypeConvert env setobj enc = do {
     (setobj, n) \<leftarrow> setTypeSize setobj;
     (setobj, _) \<leftarrow> setTypeConvertAndExpand env setobj enc n None;
     Some setobj
   }"

definition setTypeCreate :: "set_env \<Rightarrow> byte list \<Rightarrow> nat \<Rightarrow> setobj option" where
  "setTypeCreate env value size_hint =
     (if isSdsRepresentableAsLongLong value \<and> size_hint \<le> set_max_intset_entries env then
        Some createIntsetObject
      else if size_hint \<le> set_max_listpack_entries env then Some createSetListpackObject
      else do { (d, _) \<leftarrow> dictExpand dictCreate size_hint; Some (Set_HT d) })"

definition setTypeMaybeConvert :: "set_env \<Rightarrow> setobj \<Rightarrow> nat \<Rightarrow> setobj option" where
  "setTypeMaybeConvert env set' size_hint =
     (if set_encoding_of set' = OBJ_ENCODING_LISTPACK \<and> size_hint > set_max_listpack_entries env \<or>
         set_encoding_of set' = OBJ_ENCODING_INTSET \<and> size_hint > set_max_intset_entries env
      then map_option fst (setTypeConvertAndExpand env set' OBJ_ENCODING_HT size_hint None)
      else Some set')"

definition intsetMaxEntries :: "set_env \<Rightarrow> nat" where
  "intsetMaxEntries env =
     (let max_entries = set_max_intset_entries env in
      if max_entries \<ge> 2 ^ 30 then 2 ^ 30 else max_entries)"

definition maybeConvertIntset :: "set_env \<Rightarrow> setobj \<Rightarrow> setobj option" where
  "maybeConvertIntset env subject =
     (case subject of
        Set_INTSET is \<Rightarrow>
          if intsetLen is > intsetMaxEntries env then setTypeConvert env subject OBJ_ENCODING_HT
          else Some subject
      | _ \<Rightarrow> None)"

definition maybeConvertToIntset :: "set_env \<Rightarrow> setobj \<Rightarrow> setobj option" where
  "maybeConvertToIntset env set' =
     (if set_encoding_of set' = OBJ_ENCODING_INTSET then Some set'
      else do {
        (set', n) \<leftarrow> setTypeSize set';
        if n > intsetMaxEntries env then Some set'
        else do {
          (_, is) \<leftarrow> set_iterate env (\<lambda>is e. do {
              llval \<leftarrow> (case e of LP_STR str \<Rightarrow> string2ll str | LP_INT v \<Rightarrow> Some v);
              let (is, success) = intsetAdd is llval;
              c_assert success;
              Some (is, True)
            }) set' intsetNew;
          Some (Set_INTSET is)
        }
      })"

section \<open>Adding, removing and testing a member\<close>

text \<open>The string a member argument stands for, through \<open>tmpbuf\<close> when \<open>str\<close> is \<open>NULL\<close>.\<close>

definition arg_bytes :: "byte list option \<Rightarrow> int \<Rightarrow> byte list" where
  "arg_bytes str llval = (case str of Some s \<Rightarrow> s | None \<Rightarrow> sdsfromlonglong llval)"

definition setTypeAdd_ht :: "set_env \<Rightarrow> (byte list, unit) dict \<Rightarrow> byte list \<Rightarrow> (setobj \<times> bool) option" where
  "setTypeAdd_ht env ht sdsval = do {
     (ht, position) \<leftarrow> dictFindPositionForInsert (set_can_resize env) (setDictType env) ht sdsval;
     (case position of
        Inr pos \<Rightarrow> do {
          (ht, _) \<leftarrow> dictInsertAtPosition (setDictType env) ht sdsval pos;
          Some (Set_HT ht, True)
        }
      | Inl _ \<Rightarrow> Some (Set_HT ht, False))
   }"

definition setTypeConvert_add :: "set_env \<Rightarrow> setobj \<Rightarrow> nat \<Rightarrow> byte list \<Rightarrow> (setobj \<times> bool) option" where
  "setTypeConvert_add env set' cap str = do {
     (set', _) \<leftarrow> setTypeConvertAndExpand env set' OBJ_ENCODING_HT cap None;
     (case set' of
        Set_HT d \<Rightarrow> do {
          (d, ok) \<leftarrow> dictAdd (set_can_resize env) (setDictType env) d str ();
          c_assert ok;
          Some (Set_HT d, True)
        }
      | _ \<Rightarrow> None)
   }"

definition setTypeAdd_listpack ::
  "set_env \<Rightarrow> byte list \<Rightarrow> byte list option \<Rightarrow> int \<Rightarrow> (setobj \<times> bool) option" where
  "setTypeAdd_listpack env lp arg llval = do {
     let str = arg_bytes arg llval;
     let len = length str;
     p \<leftarrow> lpFirst lp;
     p \<leftarrow> (case p of None \<Rightarrow> Some None | Some _ \<Rightarrow> lpFind lp p str len 0);
     if p = None then do {
       (lp, n) \<leftarrow> lpLength lp;
       if n < set_max_listpack_entries env \<and> len \<le> set_max_listpack_value env \<and> lpSafeToAdd (Some lp) len
       then do {
         r \<leftarrow> (if arg = None then lpAppendInteger lp llval else lpAppend lp str);
         lp \<leftarrow> r;
         Some (Set_LISTPACK lp, True)
       }
       else setTypeConvert_add env (Set_LISTPACK lp) (n + 1) str
     }
     else Some (Set_LISTPACK lp, False)
   }"

text \<open>A string that is no integer is added to an intset: its conversion to one of the other encodings.\<close>

definition setTypeAdd_intset_string :: "set_env \<Rightarrow> intset \<Rightarrow> byte list \<Rightarrow> (setobj \<times> bool) option" where
  "setTypeAdd_intset_string env is str = (
     let len = length str;
         n = intsetLen is;
         maxelelen = (if n \<noteq> 0 then max (sdigits10 (intsetMax is)) (sdigits10 (intsetMin is)) else 0);
         totsize = (if n \<noteq> 0 then max (lpEstimateBytesRepeatedInteger (intsetMax is) n)
                                       (lpEstimateBytesRepeatedInteger (intsetMin is) n) else 0) in
     if intsetLen is < set_max_listpack_entries env \<and> len \<le> set_max_listpack_value env \<and>
        maxelelen \<le> set_max_listpack_value env \<and> lpSafeToAdd None (totsize + len)
     then do {
       (set', _) \<leftarrow> setTypeConvertAndExpand env (Set_INTSET is) OBJ_ENCODING_LISTPACK (intsetLen is + 1) None;
       (case set' of
          Set_LISTPACK lp \<Rightarrow> do {
            r \<leftarrow> lpAppend lp str;
            lp \<leftarrow> r;
            Some (Set_LISTPACK (lpShrinkToFit lp), True)
          }
        | _ \<Rightarrow> None)
     }
     else setTypeConvert_add env (Set_INTSET is) (intsetLen is + 1) str)"

definition setTypeAdd_intset :: "set_env \<Rightarrow> intset \<Rightarrow> int \<Rightarrow> (setobj \<times> bool) option" where
  "setTypeAdd_intset env is value = (
     let (is, success) = intsetAdd is value in
     if success then do { set' \<leftarrow> maybeConvertIntset env (Set_INTSET is); Some (set', True) }
     else Some (Set_INTSET is, False))"

definition setTypeAddAux :: "set_env \<Rightarrow> setobj \<Rightarrow> byte list option \<Rightarrow> int \<Rightarrow> (setobj \<times> bool) option" where
  "setTypeAddAux env set' str llval =
     (case set' of
        Set_INTSET is \<Rightarrow>
          (case str of
             None \<Rightarrow> setTypeAdd_intset env is llval
           | Some s \<Rightarrow>
               (case string2ll s of
                  Some value \<Rightarrow> setTypeAdd_intset env is value
                | None \<Rightarrow> setTypeAdd_intset_string env is s))
      | Set_HT ht \<Rightarrow> setTypeAdd_ht env ht (arg_bytes str llval)
      | Set_LISTPACK lp \<Rightarrow> setTypeAdd_listpack env lp str llval)"

definition setTypeAdd :: "set_env \<Rightarrow> setobj \<Rightarrow> byte list \<Rightarrow> (setobj \<times> bool) option" where
  "setTypeAdd env subject value = setTypeAddAux env subject (Some value) 0"

definition setTypeRemoveAux :: "set_env \<Rightarrow> setobj \<Rightarrow> byte list option \<Rightarrow> int \<Rightarrow> (setobj \<times> bool) option" where
  "setTypeRemoveAux env setobj str llval =
     (case setobj of
        Set_INTSET is \<Rightarrow>
          (case (case str of None \<Rightarrow> Some llval | Some s \<Rightarrow> string2ll s) of
             Some v \<Rightarrow> let (is, success) = intsetRemove is v in Some (Set_INTSET is, success)
           | None \<Rightarrow> Some (setobj, False))
      | Set_HT d \<Rightarrow> do {
          (d, deleted) \<leftarrow> dictDelete (set_can_resize env) (setDictType env) d (arg_bytes str llval);
          Some (Set_HT d, deleted)
        }
      | Set_LISTPACK lp \<Rightarrow> do {
          p \<leftarrow> lpFirst lp;
          if p = None then Some (setobj, False)
          else do {
            p \<leftarrow> lpFind lp p (arg_bytes str llval) (length (arg_bytes str llval)) 0;
            (case p of
               None \<Rightarrow> Some (setobj, False)
             | Some p \<Rightarrow> do {
                 r \<leftarrow> lpDelete lp p;
                 (lp, _) \<leftarrow> r;
                 Some (Set_LISTPACK lp, True)
               })
          }
        })"

definition setTypeRemove :: "set_env \<Rightarrow> setobj \<Rightarrow> byte list \<Rightarrow> (setobj \<times> bool) option" where
  "setTypeRemove env setobj value = setTypeRemoveAux env setobj (Some value) 0"

definition setTypeIsMemberAux :: "set_env \<Rightarrow> setobj \<Rightarrow> byte list option \<Rightarrow> int \<Rightarrow> (setobj \<times> bool) option" where
  "setTypeIsMemberAux env set' str llval =
     (case set' of
        Set_INTSET is \<Rightarrow>
          (case (case str of None \<Rightarrow> Some llval | Some s \<Rightarrow> string2ll s) of
             Some v \<Rightarrow> Some (set', intsetFind is v)
           | None \<Rightarrow> Some (set', False))
      | Set_LISTPACK lp \<Rightarrow> do {
          p \<leftarrow> lpFirst lp;
          if p = None then Some (set', False)
          else do {
            r \<leftarrow> lpFind lp p (arg_bytes str llval) (length (arg_bytes str llval)) 0;
            Some (set', r \<noteq> None)
          }
        }
      | Set_HT d \<Rightarrow> do {
          (d, r) \<leftarrow> dictFind (set_can_resize env) (setDictType env) d (arg_bytes str llval);
          Some (Set_HT d, r \<noteq> None)
        })"

definition setTypeIsMember :: "set_env \<Rightarrow> setobj \<Rightarrow> byte list \<Rightarrow> (setobj \<times> bool) option" where
  "setTypeIsMember env subject value = setTypeIsMemberAux env subject (Some value) 0"

text \<open>\<open>setTypeDup\<close>, for the \<open>COPY\<close> command: the original (its iterator may touch it) and the copy.\<close>

definition setTypeDup :: "set_env \<Rightarrow> setobj \<Rightarrow> (setobj \<times> setobj) option" where
  "setTypeDup env ob =
     (case ob of
        Set_INTSET is \<Rightarrow>
          let sz = intsetBlobLen is in
          Some (ob, Set_INTSET (intset_of_blob (write_at 0 (read_at 0 sz (intset_to_blob is)) (realloc sz []))))
      | Set_LISTPACK lp \<Rightarrow> Some (ob, Set_LISTPACK (lpDup lp))
      | Set_HT d \<Rightarrow> do {
          (d', _) \<leftarrow> dictExpand dictCreate (dictSize d);
          set_iterate env (\<lambda>set' e. do {
              (set', _) \<leftarrow> setTypeAdd env set' (case e of LP_STR s \<Rightarrow> s | LP_INT v \<Rightarrow> []);
              Some (set', True)
            }) ob (Set_HT d')
        })"

end
