(* ===== verification/Set_Correct.thy ===== *)
theory Set_Correct
  imports Set_Type
begin

text \<open>
  The set objects as finite sets of byte strings: the representation of each encoding, the
  iterator, which visits every member once, the conversions, which keep the members, and the
  operations.
\<close>

section \<open>Members\<close>

lemma dictSdsKeyCompare_eq: "dictSdsKeyCompare = (=)"
  by (auto simp: dictSdsKeyCompare_def fun_eq_iff Let_def)

lemma setDictType_ok [simp]: "type_ok (setDictType env)" "no_value (setDictType env)"
  by (simp_all add: type_ok_def setDictType_def dictSdsKeyCompare_eq)

lemma sdsfromlonglong_eq: "is_int64 v \<Longrightarrow> sdsfromlonglong v = sdec v"
  using ll2string_correct[of v LONG_STR_SIZE "replicate LONG_STR_SIZE 0"] sdec_length_int64[of v]
  by (simp add: sdsfromlonglong_def)

lemma lp_text_of_string [simp]: "lp_text (lp_of_string s) = s"
  by (auto simp: lp_text_def lp_of_string_def lpStringToInt64_eq string2ll_iff split: option.splits)

lemma set_element_sds_text: "lp_ok e \<Longrightarrow> set_element_sds e = lp_text e"
  by (cases e) (simp_all add: set_element_sds_def lp_text_def sdsfromlonglong_eq)

text \<open>The members of an intset are the strings that \<open>string2ll\<close> accepts, by their values.\<close>

lemma string2ll_mem:
  assumes "intset_wf is"
  shows "s \<in> sdec ` set (intset_vals is) \<longleftrightarrow> (\<exists>v. string2ll s = Some v \<and> v \<in> set (intset_vals is))"
  using intset_vals_int64[OF assms] by (auto simp: string2ll_iff)

section \<open>Loops over a list of elements\<close>

fun fold_body :: "('a \<Rightarrow> 'e \<Rightarrow> ('a \<times> bool) option) \<Rightarrow> 'e list \<Rightarrow> 'a \<Rightarrow> 'a option" where
  "fold_body body [] acc = Some acc"
| "fold_body body (e # es) acc =
     Option.bind (body acc e) (\<lambda>b. if snd b then fold_body body es (fst b) else Some (fst b))"

text \<open>An invariant of the loop, given what has been visited and what is left.\<close>

lemma fold_body_inv:
  assumes "I xs acc"
    and "\<And>xs e ys acc. es = xs @ e # ys \<Longrightarrow> I xs acc \<Longrightarrow> \<exists>acc'. body acc e = Some (acc', True) \<and> I (xs @ [e]) acc'"
    and "es = xs @ ys"
  shows "\<exists>acc'. fold_body body ys acc = Some acc' \<and> I es acc'"
  using assms(1,3)
proof (induction ys arbitrary: xs acc)
  case (Cons e ys)
  from assms(2)[OF Cons.prems(2,1)] obtain acc' where a: "body acc e = Some (acc', True)" "I (xs @ [e]) acc'" by blast
  from Cons.IH[OF a(2)] Cons.prems(2) a(1) show ?case by simp
qed simp

section \<open>Representation\<close>

definition set_rep :: "set_env \<Rightarrow> setobj \<Rightarrow> lp_value list \<Rightarrow> bool" where
  "set_rep env ob es =
     (case ob of
        Set_INTSET is \<Rightarrow> intset_wf is \<and> es = map LP_INT (intset_vals is)
      | Set_LISTPACK lp \<Rightarrow> lp_rep lp es \<and> distinct (map lp_text es)
      | Set_HT d \<Rightarrow> dict_wf (setDictType env) d \<and> pauseAutoResize d \<le> 0 \<and>
          es = map (\<lambda>de. LP_STR (dictGetKey de)) (dict_entries d))"

lemma set_rep_simps [simp]:
  "set_rep env (Set_INTSET is) es \<longleftrightarrow> intset_wf is \<and> es = map LP_INT (intset_vals is)"
  "set_rep env (Set_LISTPACK lp) es \<longleftrightarrow> lp_rep lp es \<and> distinct (map lp_text es)"
  "set_rep env (Set_HT d) es \<longleftrightarrow> dict_wf (setDictType env) d \<and> pauseAutoResize d \<le> 0 \<and>
     es = map (\<lambda>de. LP_STR (dictGetKey de)) (dict_entries d)"
  by (simp_all add: set_rep_def)

lemma lp_text_simps [simp]: "lp_text (LP_INT v) = sdec v" "lp_text (LP_STR s) = s"
  by (simp_all add: lp_text_def)

lemma set_rep_distinct: "set_rep env ob es \<Longrightarrow> distinct (map lp_text es)"
proof (cases ob)
  case (Set_INTSET s)
  assume "set_rep env ob es"
  then have "sorted_wrt (<) (intset_vals s)" "es = map LP_INT (intset_vals s)"
    using Set_INTSET by (auto simp: intset_wfD)
  then show ?thesis
    by (auto simp: distinct_map strict_sorted_iff comp_def inj_on_def sdec_inj)
next
  case (Set_HT d)
  assume "set_rep env ob es"
  then have "es = map (\<lambda>de. LP_STR (dictGetKey de)) (dict_entries d)" "distinct (map dictGetKey (dict_entries d))"
    using Set_HT by (auto simp: dict_wf_def)
  then show ?thesis by (simp add: comp_def)
qed simp

lemma lp_rep_ok: "lp_rep lp es \<Longrightarrow> e \<in> set es \<Longrightarrow> lp_ok e"
  by (auto simp: lp_rep_def lp_fits_def)

text \<open>What the iterator has left, \<open>es\<close>, of the elements \<open>es0\<close>.\<close>

definition set_at :: "set_env \<Rightarrow> setobj \<Rightarrow> lp_value list \<Rightarrow> setTypeIterator \<Rightarrow> lp_value list \<Rightarrow> bool" where
  "set_at env ob es0 si es =
     (case ob of
        Set_INTSET is \<Rightarrow> (\<exists>xs. es0 = xs @ es \<and> si = Iter_INTSET (length xs))
      | Set_LISTPACK lp \<Rightarrow>
          (\<exists>xs. es0 = xs @ es \<and> si = Iter_LISTPACK (if xs = [] then None else Some (lp_off (butlast xs))))
      | Set_HT d \<Rightarrow>
          (\<exists>it. si = Iter_HT it \<and>
             (it = dictInitIterator \<and> es = es0 \<or>
              iter_started (setDictType env) d it \<and> es = map (\<lambda>de. LP_STR (dictGetKey de)) (iter_rest d it) \<and>
              \<not> it_safe it \<and> it_fingerprint it = dictFingerprint (table_addr env) d)))"

lemma set_at_init: "set_at env ob es (setTypeInitIterator ob) es"
  by (cases ob) (simp_all add: set_at_def setTypeInitIterator_def)

definition set_next_post :: "set_env \<Rightarrow> setobj \<Rightarrow> lp_value list \<Rightarrow> setTypeIterator \<Rightarrow> lp_value list \<Rightarrow> lp_value option \<Rightarrow> bool" where
  "set_next_post env ob es0 si es r \<longleftrightarrow>
     (case es of [] \<Rightarrow> r = None | e # es' \<Rightarrow> r = Some e \<and> set_at env ob es0 si es') \<and>
     setTypeReleaseIterator env ob si = Some ob"

lemma setTypeNext_intset:
  assumes "set_rep env (Set_INTSET is) es0" "set_at env (Set_INTSET is) es0 si es"
  shows "\<exists>si' r. setTypeNext env (Set_INTSET is) si = Some (Set_INTSET is, si', r) \<and>
    set_next_post env (Set_INTSET is) es0 si' es r"
proof -
  obtain xs where xs: "es0 = xs @ es" "si = Iter_INTSET (length xs)" using assms(2) by (auto simp: set_at_def)
  have es0: "es0 = map LP_INT (intset_vals is)" using assms(1) by simp
  then have len: "length es0 = is_length is" by simp
  show ?thesis
  proof (cases es)
    case Nil
    then show ?thesis using xs len
      by (simp add: setTypeNext_def intsetGet_def set_next_post_def setTypeReleaseIterator_def)
  next
    case (Cons e es')
    have i: "length xs < is_length is" using xs(1) len Cons by simp
    have "es0 ! length xs = LP_INT (intsetGetAt is (length xs))" using i by (simp add: es0 intset_vals_nth)
    then have "intsetGet is (length xs) = Some (intsetGetAt is (length xs))" "e = LP_INT (intsetGetAt is (length xs))"
      using i xs(1) Cons by (auto simp: intsetGet_def)
    then show ?thesis using xs Cons
      by (auto simp: setTypeNext_def set_next_post_def setTypeReleaseIterator_def set_at_def
          intro!: exI[of _ "xs @ [e]"])
  qed
qed

lemma setTypeNext_listpack:
  assumes "set_rep env (Set_LISTPACK lp) es0" "set_at env (Set_LISTPACK lp) es0 si es"
  shows "\<exists>si' r. setTypeNext env (Set_LISTPACK lp) si = Some (Set_LISTPACK lp, si', r) \<and>
    set_next_post env (Set_LISTPACK lp) es0 si' es r"
proof -
  obtain xs where xs: "es0 = xs @ es" "si = Iter_LISTPACK (if xs = [] then None else Some (lp_off (butlast xs)))"
    using assms(2) by (auto simp: set_at_def)
  obtain n sl where lp: "lp_fits es0" "lp = lp_image n es0 sl" using assms(1) by (auto elim: lp_repE)
  have step: "(case (if xs = [] then None else Some (lp_off (butlast xs))) of None \<Rightarrow> lpFirst lp | Some p \<Rightarrow> lpNext lp p) =
      Some (if es = [] then None else Some (lp_off xs))"
  proof (cases "xs = []")
    case True
    then show ?thesis using lp xs(1) lpFirst_image[OF lp(1), of n sl] by simp
  next
    case False
    then have "es0 = butlast xs @ last xs # es" using xs(1) by simp
    then show ?thesis using lpNext_image[of "butlast xs" "last xs" es n sl] lp False by simp
  qed
  show ?thesis
  proof (cases es)
    case Nil
    then show ?thesis using xs(2) step
      by (simp add: setTypeNext_def set_next_post_def setTypeReleaseIterator_def)
  next
    case (Cons e es')
    have "lpGetValue (drop (lp_off xs) lp) = e"
      using lp_image_entry(1)[of xs e es' n sl] lp xs(1) Cons by (simp add: lpGetValue_def lpGet_def)
    then show ?thesis using xs step Cons
      by (auto simp: setTypeNext_def set_next_post_def setTypeReleaseIterator_def set_at_def
          intro!: exI[of _ "xs @ [e]"])
  qed
qed

lemma set_next_post_ht:
  assumes "next_post (setDictType env) d it es it' r" "\<not> it_safe it"
    "it_fingerprint it = dictFingerprint (table_addr env) d"
  shows "set_next_post env (Set_HT d) es0 (Iter_HT it') (map (\<lambda>de. LP_STR (dictGetKey de)) es)
    (map_option (\<lambda>de. LP_STR (dictGetKey de)) r)"
  using assms
  by (cases es) (auto simp: next_post_def set_next_post_def setTypeReleaseIterator_def dictResetIterator_def set_at_def)

lemma setTypeNext_ht:
  assumes "set_rep env (Set_HT d) es0" "set_at env (Set_HT d) es0 si es"
  shows "\<exists>si' r. setTypeNext env (Set_HT d) si = Some (Set_HT d, si', r) \<and>
    set_next_post env (Set_HT d) es0 si' es r"
proof -
  have wf: "dict_wf (setDictType env) d" and es0: "es0 = map (\<lambda>de. LP_STR (dictGetKey de)) (dict_entries d)"
    using assms(1) by simp_all
  obtain it where it: "si = Iter_HT it" "it = dictInitIterator \<and> es = es0 \<or>
      iter_started (setDictType env) d it \<and> es = map (\<lambda>de. LP_STR (dictGetKey de)) (iter_rest d it) \<and>
      \<not> it_safe it \<and> it_fingerprint it = dictFingerprint (table_addr env) d"
    using assms(2) by (auto simp: set_at_def)
  from it(2) show ?thesis
  proof (elim disjE conjE)
    assume i: "it = dictInitIterator" "es = es0"
    have s: "\<not> it_safe (dictInitIterator :: (byte list, unit) dictIterator)" by (simp add: dictInitIterator_def)
    from dictNext_first[OF wf, of dictInitIterator "table_addr env"] s obtain it2 r where
      n: "dictNext (table_addr env) d dictInitIterator = Some (d, it2, r)"
        "next_post (setDictType env) d (dictInitIterator\<lparr>it_fingerprint := dictFingerprint (table_addr env) d\<rparr>)
          (dict_entries d) it2 r" by auto
    from set_next_post_ht[OF n(2), of es0] s n(1) i it(1) es0 show ?thesis by (simp add: setTypeNext_def)
  next
    assume i: "iter_started (setDictType env) d it" "es = map (\<lambda>de. LP_STR (dictGetKey de)) (iter_rest d it)"
      "\<not> it_safe it" "it_fingerprint it = dictFingerprint (table_addr env) d"
    from dictNext_started[OF wf i(1), of "table_addr env"] obtain it2 r where
      n: "dictNext (table_addr env) d it = Some (d, it2, r)"
        "next_post (setDictType env) d it (iter_rest d it) it2 r" by blast
    from set_next_post_ht[OF n(2) i(3,4), of es0] n(1) it(1) i(2) show ?thesis by (simp add: setTypeNext_def)
  qed
qed

lemma setTypeNext_ok:
  assumes "set_rep env ob es0" "set_at env ob es0 si es"
  shows "\<exists>si' r. setTypeNext env ob si = Some (ob, si', r) \<and> set_next_post env ob es0 si' es r"
  using assms setTypeNext_intset setTypeNext_listpack setTypeNext_ht by (cases ob) blast+

lemma set_foreach_ok:
  assumes rep: "set_rep env ob es0"
  shows "set_at env ob es0 si es \<Longrightarrow>
    \<exists>si'. set_foreach env body ob si acc = map_option (\<lambda>a. (ob, si', a)) (fold_body body es acc) \<and>
      setTypeReleaseIterator env ob si' = Some ob"
proof (induction es arbitrary: si acc)
  case Nil
  from setTypeNext_ok[OF rep Nil] obtain si' r where
    n: "setTypeNext env ob si = Some (ob, si', r)" "set_next_post env ob es0 si' [] r" by blast
  then show ?case by (subst set_foreach.simps) (simp add: set_next_post_def)
next
  case (Cons e es)
  from setTypeNext_ok[OF rep Cons.prems] obtain si' r where
    n: "setTypeNext env ob si = Some (ob, si', r)" "set_next_post env ob es0 si' (e # es) r" by blast
  then have r: "r = Some e" "set_at env ob es0 si' es" "setTypeReleaseIterator env ob si' = Some ob"
    by (simp_all add: set_next_post_def)
  show ?case
  proof (cases "body acc e")
    case None
    then show ?thesis using n(1) r by (subst set_foreach.simps) auto
  next
    case (Some b)
    from Cons.IH[OF r(2), of "fst b"] show ?thesis
      using n(1) r Some by (subst set_foreach.simps) auto
  qed
qed

text \<open>A whole loop over a set runs its body on the list of elements and leaves the set as it was.\<close>

lemma set_iterate_ok:
  assumes "set_rep env ob es"
  shows "set_iterate env body ob acc = map_option (\<lambda>a. (ob, a)) (fold_body body es acc)"
proof -
  from set_foreach_ok[OF assms set_at_init, of body acc] obtain si' where
    "set_foreach env body ob (setTypeInitIterator ob) acc = map_option (\<lambda>a. (ob, si', a)) (fold_body body es acc)"
    "setTypeReleaseIterator env ob si' = Some ob" by blast
  then show ?thesis by (cases "fold_body body es acc") (simp_all add: set_iterate_def)
qed

text \<open>The elements, as the iterator lists them.\<close>

definition set_items :: "set_env \<Rightarrow> setobj \<Rightarrow> lp_value list" where
  "set_items env ob = (case set_iterate env (\<lambda>acc e. Some (acc @ [e], True)) ob [] of Some (_, es) \<Rightarrow> es | None \<Rightarrow> [])"

definition set_elems :: "set_env \<Rightarrow> setobj \<Rightarrow> byte list set" where
  "set_elems env ob = lp_text ` set (set_items env ob)"

lemma fold_body_collect: "fold_body (\<lambda>acc e. Some (acc @ [e], True)) es acc = Some (acc @ es)"
  by (induction es arbitrary: acc) simp_all

lemma set_items_rep: "set_rep env ob es \<Longrightarrow> set_items env ob = es"
  using set_iterate_ok[of env ob es "\<lambda>acc e. Some (acc @ [e], True)" "[]"]
  by (simp add: set_items_def fold_body_collect)

lemma set_elems_rep: "set_rep env ob es \<Longrightarrow> set_elems env ob = lp_text ` set es"
  by (simp add: set_elems_def set_items_rep)

lemma card_set_elems: "set_rep env ob es \<Longrightarrow> card (set_elems env ob) = length es"
  using distinct_card[OF set_rep_distinct[of env ob es]] by (simp add: set_elems_rep)

lemma set_elems_ht: "dict_wf (setDictType env) d \<Longrightarrow> pauseAutoResize d \<le> 0 \<Longrightarrow> set_elems env (Set_HT d) = dict_keys d"
  using set_elems_rep[of env "Set_HT d"] by (auto simp: dict_keys_def image_image)

lemma set_elems_intset: "intset_wf is \<Longrightarrow> set_elems env (Set_INTSET is) = sdec ` set (intset_vals is)"
  using set_elems_rep[of env "Set_INTSET is"] by (auto simp: image_image)

end
