(* ===== verification/Set_Convert.thy ===== *)
theory Set_Convert
  imports Set_Correct
begin

text \<open>
  The conversions between the encodings: filling a hash table or a listpack with the elements of a
  set, the operations of listpacks as the set type uses them, and the size estimate that
  makes the conversion of an intset to a listpack safe.
\<close>

section \<open>Conversion to a hash table\<close>

lemma set_rep_sds: "set_rep env ob es \<Longrightarrow> e \<in> set es \<Longrightarrow> set_element_sds e = lp_text e"
proof (cases ob)
  case (Set_INTSET s)
  assume "set_rep env ob es" "e \<in> set es"
  then show ?thesis using Set_INTSET intset_vals_int64[of s] by (auto intro: set_element_sds_text)
next
  case (Set_LISTPACK lp)
  assume "set_rep env ob es" "e \<in> set es"
  then show ?thesis using Set_LISTPACK lp_rep_ok by (auto intro: set_element_sds_text)
qed (auto simp: set_element_sds_def)

lemma dict_frame_auto: "dict_frame d d' \<Longrightarrow> pauseAutoResize d \<le> 0 \<Longrightarrow> pauseAutoResize d' \<le> 0"
  by (simp add: dict_frame_def)

lemma dictAdd_set:
  assumes "dict_wf (setDictType env) d" "pauseAutoResize d \<le> 0" "card (dict_keys d) < 2 ^ 64 - 1"
  shows "\<exists>d'. dictAdd cr (setDictType env) d k () = Some (d', k \<notin> dict_keys d) \<and> dict_wf (setDictType env) d' \<and>
    pauseAutoResize d' \<le> 0 \<and> dict_keys d' = insert k (dict_keys d)"
proof -
  have "can_insert d" using assms(2) by (simp add: can_insert_def)
  from dictAdd_ok[OF setDictType_ok(1) assms(1) this, of cr k "()"] assms
  show ?thesis by (force simp: dict_keys_dom card_dict_keys[symmetric] dict_frame_auto)
qed

lemma dict_fill_ok:
  assumes wf: "dict_wf (setDictType env) d" "pauseAutoResize d \<le> 0"
    and es: "distinct (map lp_text es)" "\<And>e. e \<in> set es \<Longrightarrow> set_element_sds e = lp_text e"
    and new: "dict_keys d = {}" and room: "length es < 2 ^ 64"
  shows "\<exists>d'. fold_body (\<lambda>d e. do {
        (d, ok) \<leftarrow> dictAdd cr (setDictType env) d (set_element_sds e) ();
        c_assert ok;
        Some (d, True)
      }) es d = Some d' \<and> dict_wf (setDictType env) d' \<and> pauseAutoResize d' \<le> 0 \<and> dict_keys d' = lp_text ` set es"
proof -
  let ?I = "\<lambda>xs d. dict_wf (setDictType env) d \<and> pauseAutoResize d \<le> 0 \<and> dict_keys d = lp_text ` set xs"
  show ?thesis
  proof (rule fold_body_inv[where I = ?I and xs = "[]"])
    fix xs e ys d assume e: "es = xs @ e # ys" and I: "?I xs d"
    have "card (dict_keys d) \<le> length xs" using I card_image_le[of "set xs" lp_text] card_length[of xs] by simp
    then have "card (dict_keys d) < 2 ^ 64 - 1" using e room by simp
    moreover have "lp_text e \<notin> lp_text ` set xs" using es(1) e by auto
    ultimately show "\<exists>d'. (do { (d, ok) \<leftarrow> dictAdd cr (setDictType env) d (set_element_sds e) (); c_assert ok; Some (d, True) }) =
        Some (d', True) \<and> ?I (xs @ [e]) d'"
      using dictAdd_set[of env d cr "lp_text e"] I es(2)[of e] e by auto
  qed (use wf new in simp_all)
qed

lemma resized_empty:
  assumes "resize_ok ty dictCreate d"
  shows "dict_wf ty d" "pauseAutoResize d \<le> 0" "dict_keys d = {}"
proof -
  have k: "dict_keeps ty dictCreate d" using assms by (simp add: resize_ok_def)
  then show "dict_wf ty d" "dict_keys d = {}"
    using dict_keeps_keys[OF k] by (simp_all add: dict_keeps_def dict_keys_dom dictCreate_wf(2))
  show "pauseAutoResize d \<le> 0" using k by (simp add: dict_keeps_def dict_frame_def dictCreate_wf(5))
qed

lemma dictExpand_create:
  "\<exists>d ok. dictExpand dictCreate n = Some (d, ok) \<and> dict_wf ty d \<and> pauseAutoResize d \<le> 0 \<and> dict_keys d = {}"
  using dictExpand_ok[OF dictCreate_wf(1)[of ty], of n] resized_empty by blast

lemma dict_expand_for_ok:
  "\<exists>d ok. dict_expand_for ta dictCreate n = Some (d, ok) \<and> dict_wf ty d \<and> pauseAutoResize d \<le> 0 \<and> dict_keys d = {} \<and>
    (ta \<noteq> Some False \<longrightarrow> ok)"
proof (cases ta)
  case None
  then show ?thesis using dictExpand_create[of n ty] by (auto simp: dict_expand_for_def)
next
  case (Some a)
  from dictExpand_malloc_ok[OF dictCreate_wf(1), of "Some a" n] obtain d ok failed where
    d: "dictExpand_malloc (Some a) dictCreate n = Some (d, ok, failed)" "resize_ok ty dictCreate d" by blast
  have "a \<Longrightarrow> \<not> failed"
    using d(1) by (auto simp: dictExpand_malloc_def dictResize_def Let_def split: if_splits bind_splits)
  then show ?thesis using d Some resized_empty[OF d(2)] by (auto simp: dict_expand_for_def dictTryExpand_def)
qed

lemma setTypeConvert_ht_ok:
  assumes rep: "set_rep env ob es" and enc: "set_encoding_of ob \<noteq> OBJ_ENCODING_HT" and len: "length es < 2 ^ 64"
  shows "(\<exists>d. setTypeConvertAndExpand env ob OBJ_ENCODING_HT cap ta = Some (Set_HT d, True) \<and>
      dict_wf (setDictType env) d \<and> pauseAutoResize d \<le> 0 \<and> dict_keys d = lp_text ` set es) \<or>
    ta = Some False \<and> setTypeConvertAndExpand env ob OBJ_ENCODING_HT cap ta = Some (ob, False)"
proof -
  from dict_expand_for_ok[of ta cap "setDictType env"] obtain d ok where
    d: "dict_expand_for ta dictCreate cap = Some (d, ok)" "dict_wf (setDictType env) d" "pauseAutoResize d \<le> 0"
      "dict_keys d = {}" "ta \<noteq> Some False \<longrightarrow> ok" by blast
  note fill = dict_fill_ok[OF d(2,3) set_rep_distinct[OF rep] set_rep_sds[OF rep] d(4) len, of "set_can_resize env"]
  show ?thesis
    using d(1,5) enc fill by (cases ok) (auto simp: setTypeConvertAndExpand_def set_iterate_ok[OF rep])
qed

section \<open>Listpacks as sets\<close>

lemma lp_rep_total: "lp_rep lp es \<Longrightarrow> lpGetTotalBytes lp = lp_off es + 1"
  by (elim lp_repE) simp

lemma length_entry_of_string: "length (lp_entry (lp_of_string s)) \<le> length s + 10"
proof -
  have "length (lp_enc (lp_of_string s)) \<le> length s + 5 \<or> length (lp_enc (lp_of_string s)) \<le> 9"
    using lpEncodeIntegerGetType_length(2)
    by (auto simp: lp_of_string_def lp_enc_def lpEncodeString_def Let_def split: option.splits)
  moreover have "length (lpEncodeBacklen l) = 1" if "l \<le> 9" for l using that by (simp add: lpEncodeBacklen_def)
  ultimately show ?thesis using lpEncodeBacklen_length(2)[of "length (lp_enc (lp_of_string s))"]
    by (auto simp: length_lp_entry intro: add_mono le_trans)
qed

lemma lpInsert_end:
  assumes rep: "lp_rep lp es" and arg: "lp_arg a b [e]" and room: "lp_off es + length (lp_entry e) + 1 < 2 ^ 32"
  shows "\<exists>lp' q. lpInsert lp a b (lpGetTotalBytes lp - 1) LP_BEFORE = Some (Some (lp', q)) \<and> lp_rep lp' (es @ [e])"
  using lpInsert_rep[OF rep _ arg, of "length es" LP_BEFORE] room lp_rep_total[OF rep]
  by (auto simp: lp_put_def)

lemma lpAppend_rep:
  assumes "lp_rep lp es" "lp_off es + length s + 11 < 2 ^ 32"
  shows "\<exists>lp'. lpAppend lp s = Some (Some lp') \<and> lp_rep lp' (es @ [lp_of_string s])"
  using lpInsert_end[OF assms(1) arg_string[of s]] assms(2) length_entry_of_string[of s]
  by (auto simp: lpAppend_def Let_def)

lemma lpAppendInteger_rep:
  assumes "lp_rep lp es" "is_int64 v" "lp_off es + length (lp_entry (LP_INT v)) + 1 < 2 ^ 32"
  shows "\<exists>lp'. lpAppendInteger lp v = Some (Some lp') \<and> lp_rep lp' (es @ [LP_INT v])"
  using lpInsert_end[OF assms(1) arg_int[OF assms(2)] assms(3)]
  by (auto simp: lpAppendInteger_def lpInsertInteger_def Let_def)

lemma lpLength_rep:
  assumes "lp_rep lp es"
  shows "\<exists>lp'. lpLength lp = Some (lp', length es) \<and> lp_rep lp' es"
  using assms lpLength_image by (elim lp_repE) (blast intro: lp_repI)

lemma lp_find_None: "lp_find P 0 0 es = None \<longleftrightarrow> (\<forall>e \<in> set es. \<not> P e)"
  by (induction es) auto

lemma lpFirst_rep: "lp_rep lp es \<Longrightarrow> lpFirst lp = Some (if es = [] then None else Some (lp_off []))"
  using lpFirst_image by (elim lp_repE) blast

text \<open>
  The strings whose length the 32 bit parameter of \<open>lpFind\<close> does not truncate. The entries of a
  listpack are among them.
\<close>

definition sds_fits :: "byte list \<Rightarrow> bool" where
  "sds_fits s \<longleftrightarrow> length s < 2 ^ 32"

lemma sds_fits_take [simp]: "sds_fits s \<Longrightarrow> take (length s mod 4294967296) s = s"
  by (simp add: sds_fits_def)

lemma sds_fits_sdec: "is_int64 v \<Longrightarrow> sds_fits (sdec v)"
  using sdec_length_int64[of v] by (simp add: sds_fits_def LONG_STR_SIZE_def)

lemma sds_fits_entry: "lp_ok e \<Longrightarrow> sds_fits (lp_text e)"
  by (cases e) (auto simp: lp_ok_def sds_fits_sdec, simp add: sds_fits_def)

lemma lp_rep_fits: "lp_rep lp es \<Longrightarrow> e \<in> set es \<Longrightarrow> sds_fits (lp_text e)"
  by (elim lp_repE) (auto simp: lp_fits_def intro: sds_fits_entry)

lemma lpFind_rep:
  assumes "lp_rep lp es" "es \<noteq> []"
  shows "lpFind lp (Some (lp_off [])) s (length s) 0 =
    Some (map_option (\<lambda>i. lp_off (take i es)) (lp_find (\<lambda>e. lp_text e = take (length s mod 2 ^ 32) s) 0 0 es))"
  using assms(1) lpFind_from_image[of "[]" es _ _ s "length s" 0] assms(2) by (elim lp_repE) simp

lemma lpDelete_rep:
  assumes "lp_rep lp es" "i < length es"
  shows "\<exists>lp' q. lpDelete lp (lp_off (take i es)) = Some (Some (lp', q)) \<and> lp_rep lp' (take i es @ drop (Suc i) es)"
proof -
  obtain n sl where lp: "lp_fits es" "lp_numele_ok n es" "lp = lp_image n es sl" using assms(1) by (rule lp_repE)
  define xs b ys where "xs = take i es" and "b = es ! i" and "ys = drop (Suc i) es"
  have es: "es = xs @ b # ys" using assms(2) by (simp add: xs_def b_def ys_def id_take_nth_drop)
  from lpDelete_image[of xs b ys n sl] lp es obtain n' sl' where
    d: "lp_numele_ok n' (xs @ ys)" "lpDelete lp (lp_off xs) = Some (Some (lp_image n' (xs @ ys) sl', if ys = [] then None else Some (lp_off xs)))"
    by auto
  have "lp_fits (xs @ ys)" using lp(1) es by (auto simp: lp_fits_def)
  then show ?thesis using d by (auto simp: xs_def ys_def intro: lp_repI)
qed

section \<open>The integers of an intset in a listpack\<close>

lemma length_entry_int: "length (lp_entry (LP_INT v)) = lpEntrySizeInteger v"
  by (simp add: length_lp_entry lpEntrySizeInteger_def lp_enc_def Let_def)

lemma lpEntrySizeInteger_eq: "lpEntrySizeInteger v =
   (if 0 \<le> v \<and> v \<le> 127 then 2 else if -4096 \<le> v \<and> v \<le> 4095 then 3 else if -32768 \<le> v \<and> v \<le> 32767 then 4
    else if -8388608 \<le> v \<and> v \<le> 8388607 then 5 else if -2147483648 \<le> v \<and> v \<le> 2147483647 then 6 else 10)"
proof -
  have l: "length (lpEncodeIntegerGetType v) =
     (if 0 \<le> v \<and> v \<le> 127 then 1 else if -4096 \<le> v \<and> v \<le> 4095 then 2 else if -32768 \<le> v \<and> v \<le> 32767 then 3
      else if -8388608 \<le> v \<and> v \<le> 8388607 then 4 else if -2147483648 \<le> v \<and> v \<le> 2147483647 then 5 else 9)"
    unfolding lpEncodeIntegerGetType_eq if_distrib[of length] by (simp cong: if_cong)
  have "lpEntrySizeInteger v = length (lpEncodeIntegerGetType v) + 1"
    using lpEncodeIntegerGetType_length(2)[of v] by (simp add: lpEntrySizeInteger_def lpEncodeBacklen_def Let_def)
  then show ?thesis unfolding l by auto
qed

text \<open>The largest entry is the one of the least or of the greatest element.\<close>

lemma lpEntrySizeInteger_between:
  "mn \<le> v \<Longrightarrow> v \<le> mx \<Longrightarrow> lpEntrySizeInteger v \<le> max (lpEntrySizeInteger mn) (lpEntrySizeInteger mx)"
proof (cases "0 \<le> v")
  case True
  assume "v \<le> mx"
  with True have "lpEntrySizeInteger v \<le> lpEntrySizeInteger mx"
    unfolding lpEntrySizeInteger_eq by (auto split: if_splits)
  then show ?thesis by simp
next
  case False
  assume "mn \<le> v"
  with False have "lpEntrySizeInteger v \<le> lpEntrySizeInteger mn"
    unfolding lpEntrySizeInteger_eq by (auto split: if_splits)
  then show ?thesis by simp
qed

lemma dec_length_mono: "m \<le> n \<Longrightarrow> length (dec m) \<le> length (dec n)"
  using dec_length_le[of "length (dec n)" n] dec_length_le[of "length (dec n)" m] dec_nonempty[of n] by simp

lemma sdec_length_between:
  "mn \<le> v \<Longrightarrow> v \<le> mx \<Longrightarrow> length (sdec v) \<le> max (length (sdec mn)) (length (sdec mx))"
proof -
  assume v: "mn \<le> v" "v \<le> mx"
  have "length (dec (nat (- v))) \<le> length (dec (nat (- mn)))" "length (dec (nat v)) \<le> length (dec (nat mx))"
    using v by (intro dec_length_mono; linarith)+
  then show ?thesis using v by (cases "v < 0") (auto simp: sdec_def le_max_iff_disj)
qed

lemma intset_bounds:
  assumes "intset_wf is" "v \<in> set (intset_vals is)"
  shows "intsetMin is \<le> v" "v \<le> intsetMax is" "is_int64 (intsetMin is)" "is_int64 (intsetMax is)"
proof -
  let ?xs = "intset_vals is"
  have s: "sorted_wrt (<) ?xs" using intset_wfD[OF assms(1)] by blast
  obtain i where i: "i < length ?xs" "v = ?xs ! i" using assms(2) by (auto simp: in_set_conv_nth)
  have ends: "intsetMin is = ?xs ! 0" "intsetMax is = ?xs ! (length ?xs - 1)"
    using i(1) by (simp_all add: intsetMin_def intsetMax_def intset_vals_nth)
  have "sorted ?xs" using s by (simp add: strict_sorted_iff)
  then show "intsetMin is \<le> v" "v \<le> intsetMax is"
    using i ends sorted_nth_mono[of ?xs 0 i] sorted_nth_mono[of ?xs i "length ?xs - 1"] by auto
  have "?xs ! 0 \<in> set ?xs" "?xs ! (length ?xs - 1) \<in> set ?xs" using i(1) by (auto intro!: nth_mem)
  then show "is_int64 (intsetMin is)" "is_int64 (intsetMax is)" using intset_vals_int64[OF assms(1)] ends by auto
qed

lemma length_body_ints:
  "(\<And>v. v \<in> set vs \<Longrightarrow> length (lp_entry (LP_INT v)) \<le> k) \<Longrightarrow> length (lp_body (map LP_INT vs)) \<le> k * length vs"
proof (induction vs)
  case (Cons v vs)
  then have "length (lp_entry (LP_INT v)) \<le> k" "length (lp_body (map LP_INT vs)) \<le> k * length vs" by auto
  then show ?case by simp
qed simp

lemma intset_listpack_size:
  assumes wf: "intset_wf is"
  shows "lp_off (map LP_INT (intset_vals is)) + 1 \<le>
    max (lpEstimateBytesRepeatedInteger (intsetMax is) (is_length is)) (lpEstimateBytesRepeatedInteger (intsetMin is) (is_length is))"
proof -
  let ?k = "max (lpEntrySizeInteger (intsetMin is)) (lpEntrySizeInteger (intsetMax is))"
  have "length (lp_body (map LP_INT (intset_vals is))) \<le> ?k * length (intset_vals is)"
    using lpEntrySizeInteger_between intset_bounds(1,2)[OF wf] by (intro length_body_ints) (simp add: length_entry_int)
  then show ?thesis
    by (auto simp: lp_off_def lpEstimateBytesRepeatedInteger_def le_max_iff_disj nat_mult_max_left)
qed

lemma listpack_fill_ok:
  assumes vs: "\<And>v. v \<in> set vs \<Longrightarrow> is_int64 v" and room: "lp_off (map LP_INT vs) + 1 < 2 ^ 32"
  shows "\<exists>lp. fold_body (\<lambda>lp e. do {
        r \<leftarrow> (case e of LP_STR s \<Rightarrow> lpAppend lp s | LP_INT v \<Rightarrow> lpAppendInteger lp v);
        lp \<leftarrow> r;
        Some (lp, True)
      }) (map LP_INT vs) (lpNew cap) = Some lp \<and> lp_rep lp (map LP_INT vs)"
proof (rule fold_body_inv[where I = "\<lambda>xs lp. lp_rep lp xs" and xs = "[]"])
  fix xs e ys lp assume e: "map LP_INT vs = xs @ e # ys" and I: "lp_rep lp xs"
  have "e \<in> set (map LP_INT vs)" using e by simp
  then obtain v where v: "e = LP_INT v" "is_int64 v" using vs by auto
  have "lp_off xs + length (lp_entry e) + 1 < 2 ^ 32" using room e by simp
  from lpAppendInteger_rep[OF I v(2)] this v(1)
  show "\<exists>lp'. (do { r \<leftarrow> (case e of LP_STR s \<Rightarrow> lpAppend lp s | LP_INT v \<Rightarrow> lpAppendInteger lp v); lp \<leftarrow> r; Some (lp, True) }) =
      Some (lp', True) \<and> lp_rep lp' (xs @ [e])" by auto
qed (simp_all add: lpNew_rep)

lemma setTypeConvert_listpack_ok:
  assumes wf: "intset_wf is" and room: "lp_off (map LP_INT (intset_vals is)) + 1 < 2 ^ 32"
  shows "\<exists>lp. setTypeConvertAndExpand env (Set_INTSET is) OBJ_ENCODING_LISTPACK cap ta = Some (Set_LISTPACK lp, True) \<and>
    lp_rep lp (map LP_INT (intset_vals is))"
proof -
  have rep: "set_rep env (Set_INTSET is) (map LP_INT (intset_vals is))" using wf by simp
  define est where "est = (if intsetLen is > 0 then max (lpEstimateBytesRepeatedInteger (intsetMin is) cap)
      (lpEstimateBytesRepeatedInteger (intsetMax is) cap) else cap * 2)"
  from listpack_fill_ok[OF intset_vals_int64[OF wf] room, of est] show ?thesis
    by (auto simp: setTypeConvertAndExpand_def setTypeSize_def set_iterate_ok[OF rep] simp flip: est_def)
qed

end
