(* ===== verification/Set_Add.thy ===== *)
theory Set_Add
  imports Set_Convert
begin

text \<open>
  The invariant of a set object, with the limits each encoding keeps, and the addition of a member in every
  encoding, with the conversions it may cause.
\<close>

section \<open>The invariant\<close>

text \<open>
  The configured number of entries of an intset stays below the sizes at which the 32 bit
  arithmetic of \<open>intset.c\<close> wraps.
\<close>

definition env_ok :: "set_env \<Rightarrow> bool" where
  "env_ok env \<longleftrightarrow> set_max_intset_entries env < 2 ^ 29 - 1"

text \<open>
  The limits of the encodings. The strings of a hash table are shorter than \<open>2 ^ 32\<close>, since the
  set commands look them up in the listpacks of other sets.
\<close>

definition set_limits :: "set_env \<Rightarrow> setobj \<Rightarrow> lp_value list \<Rightarrow> bool" where
  "set_limits env ob es =
     (case ob of
        Set_INTSET _ \<Rightarrow> length es \<le> set_max_intset_entries env
      | Set_LISTPACK _ \<Rightarrow> length es \<le> set_max_listpack_entries env \<and>
          (\<forall>e \<in> set es. length (lp_text e) \<le> set_max_listpack_value env)
      | Set_HT _ \<Rightarrow> \<forall>e \<in> set es. sds_fits (lp_text e))"

definition set_inv :: "set_env \<Rightarrow> setobj \<Rightarrow> bool" where
  "set_inv env ob \<longleftrightarrow> env_ok env \<and> (\<exists>es. set_rep env ob es \<and> set_limits env ob es)"

lemma set_limits_simps [simp]:
  "set_limits env (Set_INTSET s) es \<longleftrightarrow> length es \<le> set_max_intset_entries env"
  "set_limits env (Set_LISTPACK lp) es \<longleftrightarrow> length es \<le> set_max_listpack_entries env \<and>
     (\<forall>e \<in> set es. length (lp_text e) \<le> set_max_listpack_value env)"
  "set_limits env (Set_HT d) es \<longleftrightarrow> (\<forall>e \<in> set es. sds_fits (lp_text e))"
  by (simp_all add: set_limits_def)

lemma intsetMaxEntries_eq: "env_ok env \<Longrightarrow> intsetMaxEntries env = set_max_intset_entries env"
  by (simp add: env_ok_def intsetMaxEntries_def)

lemma set_invI: "env_ok env \<Longrightarrow> set_rep env ob es \<Longrightarrow> set_limits env ob es \<Longrightarrow>
    set_inv env ob \<and> set_elems env ob = lp_text ` set es"
  by (auto simp: set_inv_def set_elems_rep)

lemma set_invI_ht:
  "env_ok env \<Longrightarrow> dict_wf (setDictType env) d \<Longrightarrow> pauseAutoResize d \<le> 0 \<Longrightarrow> dict_keys d = A \<Longrightarrow>
    (\<And>x. x \<in> A \<Longrightarrow> sds_fits x) \<Longrightarrow> set_inv env (Set_HT d) \<and> set_elems env (Set_HT d) = A"
  by (auto simp: set_inv_def set_elems_ht dict_keys_def)

lemma set_invI_intset:
  "env_ok env \<Longrightarrow> intset_wf is \<Longrightarrow> is_length is \<le> set_max_intset_entries env \<Longrightarrow>
    set_inv env (Set_INTSET is) \<and> set_elems env (Set_INTSET is) = sdec ` set (intset_vals is)"
  by (auto simp: set_inv_def set_elems_intset)

lemma set_rep_fits:
  assumes "set_rep env ob es" "set_limits env ob es" "e \<in> set es"
  shows "sds_fits (lp_text e)"
proof (cases ob)
  case (Set_INTSET s)
  then show ?thesis using assms intset_vals_int64[of s] by (auto intro!: sds_fits_sdec)
qed (use assms lp_rep_fits in auto)

lemma set_inv_fits: "set_inv env ob \<Longrightarrow> x \<in> set_elems env ob \<Longrightarrow> sds_fits x"
  using set_rep_fits by (auto simp: set_inv_def set_elems_rep)

text \<open>What an operation that yields the set \<open>A'\<close> and the answer \<open>b\<close> returns.\<close>

definition set_result :: "set_env \<Rightarrow> (setobj \<times> 'b) option \<Rightarrow> byte list set \<Rightarrow> 'b \<Rightarrow> bool" where
  "set_result env r A b \<longleftrightarrow> (\<exists>ob'. r = Some (ob', b) \<and> set_inv env ob' \<and> set_elems env ob' = A)"

lemma set_resultI: "set_inv env ob \<and> set_elems env ob = A \<Longrightarrow> set_result env (Some (ob, b)) A b"
  by (auto simp: set_result_def)

lemma lp_rep_length: "lp_rep lp es \<Longrightarrow> length es < 2 ^ 31"
  unfolding lp_rep_def using lp_fits_length by blast

lemma set_rep_length: "set_rep env ob es \<Longrightarrow> set_encoding_of ob \<noteq> OBJ_ENCODING_HT \<Longrightarrow> length es < 2 ^ 31"
proof (cases ob)
  case (Set_INTSET s)
  assume "set_rep env ob es"
  then show ?thesis using Set_INTSET intset_wfD(3)[of s] by simp
qed (use lp_rep_length in auto)

section \<open>Adding a member\<close>

lemma setTypeConvert_add_ok:
  assumes env: "env_ok env" and rep: "set_rep env ob es" and enc: "set_encoding_of ob \<noteq> OBJ_ENCODING_HT"
    and len: "length es < 2 ^ 64 - 1" and new: "s \<notin> lp_text ` set es"
    and lim: "set_limits env ob es" and fit: "sds_fits s"
  shows "set_result env (setTypeConvert_add env ob cap s) (insert s (lp_text ` set es)) True"
proof -
  have "length es < 2 ^ 64" using len by linarith
  from setTypeConvert_ht_ok[OF rep enc this, of cap None] obtain d where
    d: "setTypeConvertAndExpand env ob OBJ_ENCODING_HT cap None = Some (Set_HT d, True)"
      "dict_wf (setDictType env) d" "pauseAutoResize d \<le> 0" "dict_keys d = lp_text ` set es" by auto
  have "card (dict_keys d) < 2 ^ 64 - 1"
    using card_image_le[of "set es" lp_text] card_length[of es] len d(4) by simp
  from dictAdd_set[OF d(2,3) this, of "set_can_resize env" s] d(4) new obtain d' where
    d': "dictAdd (set_can_resize env) (setDictType env) d s () = Some (d', True)" "dict_wf (setDictType env) d'"
      "pauseAutoResize d' \<le> 0" "dict_keys d' = insert s (lp_text ` set es)" by auto
  then show ?thesis
    using d(1) set_invI_ht[OF env d'(2-4)] set_rep_fits[OF rep lim] fit by (auto simp: setTypeConvert_add_def set_result_def)
qed

lemma setTypeAdd_listpack_ok:
  assumes env: "env_ok env" and rep: "set_rep env (Set_LISTPACK lp) es" and lim: "set_limits env (Set_LISTPACK lp) es"
    and arg: "arg = None \<longrightarrow> is_int64 v" and fit: "sds_fits (arg_bytes arg v)"
  shows "set_result env (setTypeAdd_listpack env lp arg v) (insert (arg_bytes arg v) (lp_text ` set es))
    (arg_bytes arg v \<notin> lp_text ` set es)"
proof -
  define s where "s = arg_bytes arg v"
  have lp: "lp_rep lp es" "distinct (map lp_text es)" using rep by simp_all
  have found: "(case (if es = [] then None else Some (lp_off [])) of None \<Rightarrow> Some None
      | Some _ \<Rightarrow> lpFind lp (if es = [] then None else Some (lp_off [])) s (length s) 0) =
    Some (map_option (\<lambda>i. lp_off (take i es)) (lp_find (\<lambda>e. lp_text e = s) 0 0 es))"
    using lpFind_rep[OF lp(1), of s] fit by (simp add: s_def)
  obtain lp' where l: "lpLength lp = Some (lp', length es)" "lp_rep lp' es" using lpLength_rep[OF lp(1)] by blast
  let ?fits = "length es < set_max_listpack_entries env \<and> length s \<le> set_max_listpack_value env \<and> lpSafeToAdd (Some lp') (length s)"
  have run: "setTypeAdd_listpack env lp arg v =
      (if s \<in> lp_text ` set es then Some (Set_LISTPACK lp, False)
       else if ?fits then do {
         r \<leftarrow> (if arg = None then lpAppendInteger lp' v else lpAppend lp' s);
         lp \<leftarrow> r;
         Some (Set_LISTPACK lp, True)
       }
       else setTypeConvert_add env (Set_LISTPACK lp') (length es + 1) s)"
    using found lpFirst_rep[OF lp(1)] l(1) lp_find_None[of "\<lambda>e. lp_text e = s" es]
    by (auto simp: setTypeAdd_listpack_def Let_def simp flip: s_def)
  have e: "lp_text (if arg = None then LP_INT v else lp_of_string s) = s"
    using arg by (auto simp: s_def arg_bytes_def sdsfromlonglong_eq)
  show ?thesis
  proof (cases "s \<in> lp_text ` set es")
    case True
    then show ?thesis using run set_invI[OF env rep lim] by (auto simp: s_def[symmetric] insert_absorb intro!: set_resultI)
  next
    case new: False
    show ?thesis
    proof (cases ?fits)
      case True
      then have room: "lp_off es + 1 + length s \<le> 2 ^ 30"
        using lp_rep_total[OF l(2)] by (simp add: lpSafeToAdd_def LISTPACK_MAX_SAFETY_SIZE_def split: if_splits)
      have "length (lp_entry (LP_INT v)) \<le> 10" by (simp add: length_entry_int lpEntrySizeInteger_eq)
      then have "\<exists>lp2. (if arg = None then lpAppendInteger lp' v else lpAppend lp' s) = Some (Some lp2) \<and>
          lp_rep lp2 (es @ [if arg = None then LP_INT v else lp_of_string s])"
        using room arg lpAppendInteger_rep[OF l(2), of v] lpAppend_rep[OF l(2), of s] by auto
      then obtain lp2 where lp2: "(if arg = None then lpAppendInteger lp' v else lpAppend lp' s) = Some (Some lp2)"
        "lp_rep lp2 (es @ [if arg = None then LP_INT v else lp_of_string s])" by blast
      have rep2: "set_rep env (Set_LISTPACK lp2) (es @ [if arg = None then LP_INT v else lp_of_string s])"
        using lp2(2) lp(2) new e by (simp add: set_rep_simps del: lp_text_simps lp_text_of_string)
      have "set_limits env (Set_LISTPACK lp2) (es @ [if arg = None then LP_INT v else lp_of_string s])"
        using lim True e by (simp del: lp_text_simps lp_text_of_string)
      from set_invI[OF env rep2 this] show ?thesis
        using run new True lp2(1) e by (auto simp: s_def[symmetric] intro!: set_resultI simp del: lp_text_simps lp_text_of_string)
    next
      case False
      have "length es < 2 ^ 64 - 1" using lp_rep_length[OF lp(1)] by simp
      from setTypeConvert_add_ok[OF env _ _ this new, of "Set_LISTPACK lp'"] show ?thesis
        using run new False l(2) lp(2) lim fit by (auto simp: s_def[symmetric])
    qed
  qed
qed

lemma setTypeAdd_ht_ok:
  assumes env: "env_ok env" and d: "dict_wf (setDictType env) d" "pauseAutoResize d \<le> 0" "card (dict_keys d) < 2 ^ 64 - 1"
    and fit: "\<And>x. x \<in> insert s (dict_keys d) \<Longrightarrow> sds_fits x"
  shows "set_result env (setTypeAdd_ht env d s) (insert s (dict_keys d)) (s \<notin> dict_keys d)"
proof -
  have "can_insert d" using d(2) by (simp add: can_insert_def)
  from dictFindPositionForInsert_ok[OF setDictType_ok(1) d(1) this, of "set_can_resize env" s] obtain d1 r where
    r: "dictFindPositionForInsert (set_can_resize env) (setDictType env) d s = Some (d1, r)"
      "dict_keeps (setDictType env) d d1"
      "case r of Inl ref \<Rightarrow> s \<in> dict_keys d \<and> ref_of d1 s ref
       | Inr (t, i) \<Rightarrow> s \<notin> dict_keys d \<and> t = (if dictIsRehashing d1 then 1 else 0) \<and>
           ht_size_exp (dict_ht d1 t) \<noteq> -1 \<and> i = hash_idx (hashFunction (setDictType env) s) (ht_size_exp (dict_ht d1 t))"
    by blast
  have d1: "dict_wf (setDictType env) d1" "pauseAutoResize d1 \<le> 0" "dict_keys d1 = dict_keys d"
    using r(2) d(2) dict_keeps_keys[OF r(2)] by (auto simp: dict_keeps_def dict_frame_def)
  show ?thesis
  proof (cases r)
    case (Inl ref)
    then show ?thesis using r(1,3) set_invI_ht[OF env d1] fit
      by (auto simp: setTypeAdd_ht_def insert_absorb intro!: set_resultI)
  next
    case (Inr p)
    obtain t i where p: "p = (t, i)" by (cases p)
    have new: "s \<notin> dict_keys d1" and t: "t = (if dictIsRehashing d1 then 1 else 0)" "ht_size_exp (dict_ht d1 t) \<noteq> -1"
      "i = hash_idx (hashFunction (setDictType env) s) (ht_size_exp (dict_ht d1 t))"
      using r(3) Inr p d1(3) by auto
    have "size (dict_bag d1) < 2 ^ 64 - 1" using card_dict_keys[OF d1(1)] d1(3) d(3) by simp
    from dictInsertAtPosition_ok[OF setDictType_ok(1) d1(1) new t this] obtain d2 where
      d2: "dictInsertAtPosition (setDictType env) d1 s (t, i) = Some (d2, (t, i, 0))" "dict_wf (setDictType env) d2"
        "dict_bag d2 = add_mset (s, None) (dict_bag d1)" "dict_frame d1 d2" by blast
    have "dict_keys d2 = insert s (dict_keys d)" using d2(3) d1(3) by (simp add: dict_keys_bag)
    from set_invI_ht[OF env d2(2) dict_frame_auto[OF d2(4) d1(2)] this fit] show ?thesis
      using r(1) Inr p d2(1) new d1(3) by (auto simp: setTypeAdd_ht_def intro!: set_resultI)
  qed
qed

lemma set_invE_intset:
  assumes "set_inv env (Set_INTSET is)"
  shows "env_ok env" "intset_wf is" "is_length is \<le> set_max_intset_entries env"
    "set_elems env (Set_INTSET is) = sdec ` set (intset_vals is)"
  using assms by (auto simp: set_inv_def set_elems_intset)

lemma intset_room: "env_ok env \<Longrightarrow> n \<le> set_max_intset_entries env \<Longrightarrow> (n + 1) * 8 < 2 ^ 32"
  by (simp add: env_ok_def)

text \<open>An intset that may have grown by one element past the limit.\<close>

lemma maybeConvertIntset_ok:
  assumes env: "env_ok env" and wf: "intset_wf is"
  shows "\<exists>ob'. maybeConvertIntset env (Set_INTSET is) = Some ob' \<and> set_inv env ob' \<and>
    set_elems env ob' = sdec ` set (intset_vals is)"
proof (cases "is_length is \<le> set_max_intset_entries env")
  case True
  then show ?thesis
    using set_invI_intset[OF env wf] by (simp add: maybeConvertIntset_def intsetMaxEntries_eq[OF env] intsetLen_def)
next
  case False
  have rep: "set_rep env (Set_INTSET is) (map LP_INT (intset_vals is))" using wf by simp
  have len: "length (map LP_INT (intset_vals is)) < 2 ^ 64" using set_rep_length[OF rep] by simp
  from setTypeConvert_ht_ok[OF rep _ len, of "intsetLen is" None] obtain d where
    d: "setTypeConvertAndExpand env (Set_INTSET is) OBJ_ENCODING_HT (intsetLen is) None = Some (Set_HT d, True)"
      "dict_wf (setDictType env) d" "pauseAutoResize d \<le> 0" "dict_keys d = sdec ` set (intset_vals is)"
    by (auto simp: image_image)
  then show ?thesis
    using False set_invI_ht[OF env d(2-4)] sds_fits_sdec intset_vals_int64[OF wf]
    by (auto simp: maybeConvertIntset_def intsetMaxEntries_eq[OF env] setTypeConvert_def setTypeSize_def intsetLen_def)
qed

lemma setTypeAdd_intset_ok:
  assumes inv: "set_inv env (Set_INTSET is)" and v: "is_int64 v"
  shows "set_result env (setTypeAdd_intset env is v) (insert (sdec v) (set_elems env (Set_INTSET is)))
    (sdec v \<notin> set_elems env (Set_INTSET is))"
proof -
  note i = set_invE_intset[OF inv]
  note add = intsetAdd_correct[OF i(2) v intset_room[OF i(1,3)]]
  have mem: "sdec v \<in> sdec ` set (intset_vals is) \<longleftrightarrow> v \<in> set (intset_vals is)" by (auto simp: sdec_inj)
  obtain is' b where a: "intsetAdd is v = (is', b)" by (cases "intsetAdd is v")
  show ?thesis
  proof (cases b)
    case True
    from maybeConvertIntset_ok[OF i(1), of is'] add a obtain ob' where
      "maybeConvertIntset env (Set_INTSET is') = Some ob'" "set_inv env ob'" "set_elems env ob' = sdec ` set (intset_vals is')"
      by auto
    then show ?thesis using True a add mem i(4) by (auto simp: setTypeAdd_intset_def set_result_def)
  next
    case False
    then have "v \<in> set (intset_vals is)" using add(3) a by simp
    then have "intset_vals is' = intset_vals is" using add(2) a by (simp add: insert_sorted_def)
    moreover from this have "is_length is' = is_length is" by (metis length_intset_vals)
    ultimately show ?thesis
      using False a mem i set_invI_intset[OF i(1), of is'] add(1) \<open>v \<in> _\<close>
      by (auto simp: setTypeAdd_intset_def insert_absorb intro!: set_resultI)
  qed
qed

lemma setTypeAdd_intset_string_ok:
  assumes inv: "set_inv env (Set_INTSET is)" and s: "string2ll s = None" "sds_fits s"
  shows "set_result env (setTypeAdd_intset_string env is s) (insert s (set_elems env (Set_INTSET is))) True"
proof -
  note i = set_invE_intset[OF inv]
  let ?es = "map LP_INT (intset_vals is)"
  have rep: "set_rep env (Set_INTSET is) ?es" using i(2) by simp
  have new: "s \<notin> lp_text ` set ?es" using string2ll_mem[OF i(2), of s] s(1) by (auto simp: image_image)
  have elems: "set_elems env (Set_INTSET is) = lp_text ` set ?es" by (rule set_elems_rep[OF rep])
  define tot where "tot = (if intsetLen is \<noteq> 0 then max (lpEstimateBytesRepeatedInteger (intsetMax is) (intsetLen is))
      (lpEstimateBytesRepeatedInteger (intsetMin is) (intsetLen is)) else 0)"
  define wide where "wide = (if intsetLen is \<noteq> 0 then max (sdigits10 (intsetMax is)) (sdigits10 (intsetMin is)) else 0)"
  let ?fits = "intsetLen is < set_max_listpack_entries env \<and> length s \<le> set_max_listpack_value env \<and>
    wide \<le> set_max_listpack_value env \<and> lpSafeToAdd None (tot + length s)"
  show ?thesis
  proof (cases ?fits)
    case True
    have size_es: "lp_off ?es + length s + 1 \<le> 2 ^ 30 + 7"
      using True intset_listpack_size[OF i(2)]
      by (auto simp: tot_def lpSafeToAdd_def LISTPACK_MAX_SAFETY_SIZE_def intsetLen_def intset_vals_def split: if_splits)
    then have "lp_off ?es + 1 < 2 ^ 32" by simp
    from setTypeConvert_listpack_ok[OF i(2) this, of env "intsetLen is + 1" None] obtain lp where
      lp: "setTypeConvertAndExpand env (Set_INTSET is) OBJ_ENCODING_LISTPACK (intsetLen is + 1) None = Some (Set_LISTPACK lp, True)"
        "lp_rep lp ?es" by blast
    from lpAppend_rep[OF lp(2), of s] size_es obtain lp' where
      lp': "lpAppend lp s = Some (Some lp')" "lp_rep lp' (?es @ [lp_of_string s])" by auto
    have lp2: "lp_rep (lpShrinkToFit lp') (?es @ [lp_of_string s])"
      using lp'(2) by (elim lp_repE) (simp add: lpShrinkToFit_image lp_repI)
    have wide': "length (sdec v) \<le> wide" if "v \<in> set (intset_vals is)" for v
    proof -
      have "intsetLen is \<noteq> 0" using that by (auto simp: intsetLen_def intset_vals_def)
      then show ?thesis using sdec_length_between[OF intset_bounds(1,2)[OF i(2) that]] intset_bounds(3,4)[OF i(2) that]
        by (simp add: wide_def sdigits10_length max.commute)
    qed
    have rep2: "set_rep env (Set_LISTPACK (lpShrinkToFit lp')) (?es @ [lp_of_string s])"
      using lp2 set_rep_distinct[OF rep] new by (simp add: image_image)
    have lim: "set_limits env (Set_LISTPACK (lpShrinkToFit lp')) (?es @ [lp_of_string s])"
      using True wide' by (auto simp: intsetLen_def intro: le_trans)
    have "setTypeAdd_intset_string env is s = Some (Set_LISTPACK (lpShrinkToFit lp'), True)"
      using True lp(1) lp'(1) by (simp add: setTypeAdd_intset_string_def Let_def tot_def wide_def)
    then show ?thesis
      using set_invI[OF i(1) rep2 lim] unfolding elems by (auto intro!: set_resultI)
  next
    case False
    then have "setTypeAdd_intset_string env is s = setTypeConvert_add env (Set_INTSET is) (intsetLen is + 1) s"
      unfolding setTypeAdd_intset_string_def Let_def tot_def wide_def by (rule if_not_P)
    moreover have "length ?es < 2 ^ 64 - 1" using set_rep_length[OF rep] by simp
    ultimately show ?thesis
      using setTypeConvert_add_ok[OF i(1) rep _ _ new _ s(2), of "intsetLen is + 1"] i(3) unfolding elems by simp
  qed
qed

lemma setTypeAddAux_ok:
  assumes inv: "set_inv env ob" and arg: "str = None \<longrightarrow> is_int64 v" and fit: "sds_fits (arg_bytes str v)"
    and room: "card (set_elems env ob) < 2 ^ 64 - 1"
  shows "set_result env (setTypeAddAux env ob str v) (insert (arg_bytes str v) (set_elems env ob))
    (arg_bytes str v \<notin> set_elems env ob)"
proof (cases ob)
  case (Set_INTSET s)
  note i = set_invE_intset[OF inv[unfolded Set_INTSET]]
  show ?thesis
  proof (cases str)
    case None
    then show ?thesis using setTypeAdd_intset_ok[OF inv[unfolded Set_INTSET], of v] arg Set_INTSET
      by (simp add: setTypeAddAux_def arg_bytes_def sdsfromlonglong_eq)
  next
    case (Some t)
    show ?thesis
    proof (cases "string2ll t")
      case None
      then have "t \<notin> set_elems env ob" using string2ll_mem[OF i(2), of t] i(4) Set_INTSET by simp
      then show ?thesis using setTypeAdd_intset_string_ok[OF inv[unfolded Set_INTSET] None] fit Some None Set_INTSET
        by (simp add: setTypeAddAux_def arg_bytes_def)
    next
      case (Some n)
      then have "is_int64 n" "t = sdec n" by (simp_all add: string2ll_iff)
      then show ?thesis using setTypeAdd_intset_ok[OF inv[unfolded Set_INTSET], of n] \<open>str = Some t\<close> Some Set_INTSET
        by (simp add: setTypeAddAux_def arg_bytes_def)
    qed
  qed
next
  case (Set_LISTPACK lp)
  obtain es where es: "env_ok env" "set_rep env ob es" "set_limits env ob es" using inv by (auto simp: set_inv_def)
  then show ?thesis using setTypeAdd_listpack_ok[of env lp es str v] arg fit set_elems_rep[OF es(2)] Set_LISTPACK
    by (simp add: setTypeAddAux_def)
next
  case (Set_HT d)
  have d: "env_ok env" "dict_wf (setDictType env) d" "pauseAutoResize d \<le> 0" using inv Set_HT by (auto simp: set_inv_def)
  have keys: "set_elems env ob = dict_keys d" using set_elems_ht[OF d(2,3)] Set_HT by simp
  have "set_result env (setTypeAdd_ht env d (arg_bytes str v)) (insert (arg_bytes str v) (dict_keys d)) (arg_bytes str v \<notin> dict_keys d)"
    by (rule setTypeAdd_ht_ok[OF d]) (use room fit set_inv_fits[OF inv] keys in auto)
  then show ?thesis using keys Set_HT by (simp add: setTypeAddAux_def)
qed

end
