(* ===== verification/Set_Refine.thy ===== *)
theory Set_Refine
  imports Set_Add
begin

text \<open>
  Removal, membership, size, creation, conversion and copy of set objects, on the sets of members; the
  contract of \<open>Set_Interface\<close> for the set type, and the properties of sequences of operations.
\<close>

section \<open>Removing and testing a member\<close>

lemma set_invE:
  assumes "set_inv env ob"
  obtains es where "env_ok env" "set_rep env ob es" "set_limits env ob es" "set_elems env ob = lp_text ` set es"
  using assms by (auto simp: set_inv_def set_elems_rep)

lemma inj_sdec: "inj sdec"
  by (simp add: inj_def sdec_inj)

lemma lp_find_text: "lp_find (\<lambda>e. lp_text e = s) 0 0 es = None \<longleftrightarrow> s \<notin> lp_text ` set es"
  by (auto simp: lp_find_None)

lemma arg_value:
  assumes "str = None \<longrightarrow> is_int64 v"
  shows "(case str of None \<Rightarrow> Some v | Some s \<Rightarrow> string2ll s) = string2ll (arg_bytes str v)"
  using assms string2ll_iff[of "sdec v" v] by (cases str) (simp_all add: arg_bytes_def sdsfromlonglong_eq)

lemma setTypeRemove_listpack:
  fixes str :: "byte list option" and v :: int
  assumes rep: "set_rep env (Set_LISTPACK lp) es" and lim: "set_limits env (Set_LISTPACK lp) es" and env: "env_ok env"
  defines "t \<equiv> take (length (arg_bytes str v) mod 2 ^ 32) (arg_bytes str v)"
  shows "set_result env (setTypeRemoveAux env (Set_LISTPACK lp) str v) (lp_text ` set es - {t}) (t \<in> lp_text ` set es)"
proof (cases "lp_find (\<lambda>e. lp_text e = t) 0 0 es")
  case None
  then have "t \<notin> lp_text ` set es" by (auto simp: lp_find_None)
  moreover have "setTypeRemoveAux env (Set_LISTPACK lp) str v = Some (Set_LISTPACK lp, False)"
    using rep None[unfolded t_def] lpFirst_rep[of lp es] lpFind_rep[of lp es "arg_bytes str v"]
    by (cases "es = []") (simp_all add: setTypeRemoveAux_def)
  ultimately show ?thesis using set_invI[OF env rep lim] by (auto intro!: set_resultI)
next
  case (Some i)
  note f = lp_find_Some[OF Some]
  have lp: "lp_rep lp es" "distinct (map lp_text es)" using rep by simp_all
  define xs b ys where "xs = take i es" and "b = es ! i" and "ys = drop (Suc i) es"
  have es: "es = xs @ b # ys" using f by (simp add: xs_def b_def ys_def id_take_nth_drop)
  from lpDelete_rep[OF lp(1), of i] f obtain lp' q where
    d: "lpDelete lp (lp_off xs) = Some (Some (lp', q))" "lp_rep lp' (xs @ ys)" by (auto simp: xs_def ys_def)
  have ne: "es \<noteq> []" using f by auto
  have run: "setTypeRemoveAux env (Set_LISTPACK lp) str v = Some (Set_LISTPACK lp', True)"
    using lpFirst_rep[OF lp(1)] lpFind_rep[OF lp(1) ne, of "arg_bytes str v"] Some[unfolded t_def] d(1) ne
    by (simp add: setTypeRemoveAux_def xs_def)
  have dist: "distinct (map lp_text (xs @ b # ys))" using lp(2) es by simp
  have rep': "set_rep env (Set_LISTPACK lp') (xs @ ys)" using d(2) dist by simp
  have lim': "set_limits env (Set_LISTPACK lp') (xs @ ys)" using lim es by auto
  have "lp_text ` set (xs @ ys) = lp_text ` set es - {t}"
  proof -
    have b: "lp_text b = t" using f by (simp add: b_def)
    then have "t \<notin> lp_text ` set xs" "t \<notin> lp_text ` set ys" using dist by auto
    then show ?thesis unfolding es using b by (simp add: image_Un insert_Diff_if Un_Diff)
  qed
  moreover have "t \<in> lp_text ` set es" using f by (metis image_eqI nth_mem)
  ultimately show ?thesis using set_invI[OF env rep' lim'] run by (auto intro!: set_resultI)
qed

lemma setTypeRemove_intset:
  assumes inv: "set_inv env (Set_INTSET is)" and arg: "str = None \<longrightarrow> is_int64 v"
  shows "set_result env (setTypeRemoveAux env (Set_INTSET is) str v)
    (set_elems env (Set_INTSET is) - {arg_bytes str v}) (arg_bytes str v \<in> set_elems env (Set_INTSET is))"
proof -
  note i = set_invE_intset[OF inv]
  note mem = string2ll_mem[OF i(2), of "arg_bytes str v"]
  have run: "setTypeRemoveAux env (Set_INTSET is) str v =
      (case string2ll (arg_bytes str v) of
         Some n \<Rightarrow> Some (Set_INTSET (fst (intsetRemove is n)), snd (intsetRemove is n))
       | None \<Rightarrow> Some (Set_INTSET is, False))"
    by (simp add: setTypeRemoveAux_def arg_value[OF arg] split_beta Let_def cong: option.case_cong)
  show ?thesis
  proof (cases "string2ll (arg_bytes str v)")
    case None
    then show ?thesis using run mem i inv by (auto intro!: set_resultI)
  next
    case (Some n)
    then have n: "is_int64 n" "arg_bytes str v = sdec n" by (simp_all add: string2ll_iff)
    note r = intsetRemove_correct[OF i(2) n(1)]
    have d: "distinct (intset_vals is)" using intset_wfD(4)[OF i(2)] by (simp add: strict_sorted_iff)
    then have vals: "set (intset_vals (fst (intsetRemove is n))) = set (intset_vals is) - {n}" using r(2) by simp
    have "length (remove1 n (intset_vals is)) \<le> length (intset_vals is)" by (simp add: length_remove1)
    then have "is_length (fst (intsetRemove is n)) \<le> set_max_intset_entries env"
      using r(2) i(3) by (metis length_intset_vals le_trans)
    from set_invI_intset[OF i(1) r(1) this] have "set_result env
        (Some (Set_INTSET (fst (intsetRemove is n)), n \<in> set (intset_vals is))) (sdec ` (set (intset_vals is) - {n})) (n \<in> set (intset_vals is))"
      using vals by (intro set_resultI) simp
    then show ?thesis
      using run Some r(3) n i(4) by (simp add: image_set_diff[OF inj_sdec] inj_image_mem_iff[OF inj_sdec])
  qed
qed

lemma setTypeRemoveAux_ok:
  assumes inv: "set_inv env ob" and arg: "str = None \<longrightarrow> is_int64 v" and fit: "sds_fits (arg_bytes str v)"
  shows "set_result env (setTypeRemoveAux env ob str v) (set_elems env ob - {arg_bytes str v})
    (arg_bytes str v \<in> set_elems env ob)"
proof (cases ob)
  case (Set_INTSET s)
  then show ?thesis using setTypeRemove_intset inv arg by blast
next
  case (Set_LISTPACK lp)
  obtain es where es: "env_ok env" "set_rep env ob es" "set_limits env ob es" "set_elems env ob = lp_text ` set es"
    using inv by (rule set_invE)
  show ?thesis using setTypeRemove_listpack[of env lp es str v] es fit Set_LISTPACK by simp
next
  case (Set_HT d)
  have d: "env_ok env" "dict_wf (setDictType env) d" "pauseAutoResize d \<le> 0" using inv Set_HT by (auto simp: set_inv_def)
  from dictDelete_ok[OF setDictType_ok(1) d(2), of "set_can_resize env" "arg_bytes str v"] obtain d' he where
    r: "dictGenericDelete (set_can_resize env) (setDictType env) d (arg_bytes str v) = Some (d', he)"
      "dict_wf (setDictType env) d'" "dict_frame d d'" "he \<noteq> None \<longleftrightarrow> arg_bytes str v \<in> dict_keys d"
      "dict_map d' = (dict_map d)(arg_bytes str v := None)" by (auto split: option.splits)
  have "dict_keys d' = dict_keys d - {arg_bytes str v}" using r(5) by (simp add: dict_keys_dom)
  from set_invI_ht[OF d(1) r(2) dict_frame_auto[OF r(3) d(3)] this] show ?thesis
    using r(1,4) set_elems_ht[OF d(2,3)] set_inv_fits[OF inv] Set_HT by (auto simp: setTypeRemoveAux_def dictDelete_def intro!: set_resultI)
qed

lemma setTypeIsMemberAux_listpack:
  assumes lp: "lp_rep lp es"
  shows "setTypeIsMemberAux env (Set_LISTPACK lp) str v =
    Some (Set_LISTPACK lp, take (length (arg_bytes str v) mod 2 ^ 32) (arg_bytes str v) \<in> lp_text ` set es)"
  using lpFirst_rep[OF lp] lpFind_rep[OF lp, of "arg_bytes str v"]
  by (cases "es = []") (simp_all add: setTypeIsMemberAux_def lp_find_text flip: not_None_eq)

lemma setTypeIsMemberAux_ok:
  assumes inv: "set_inv env ob" and arg: "str = None \<longrightarrow> is_int64 v" and fit: "sds_fits (arg_bytes str v)"
  shows "set_result env (setTypeIsMemberAux env ob str v) (set_elems env ob) (arg_bytes str v \<in> set_elems env ob)"
proof (cases ob)
  case (Set_INTSET s)
  note i = set_invE_intset[OF inv[unfolded Set_INTSET]]
  have "setTypeIsMemberAux env ob str v = Some (ob, arg_bytes str v \<in> set_elems env ob)"
  proof (cases "string2ll (arg_bytes str v)")
    case (Some n)
    then have "is_int64 n" by (simp add: string2ll_iff)
    with Some show ?thesis using Set_INTSET string2ll_mem[OF i(2), of "arg_bytes str v"] i(4) intsetFind_correct[OF i(2), of n]
      by (simp add: setTypeIsMemberAux_def arg_value[OF arg])
  qed (use Set_INTSET string2ll_mem[OF i(2), of "arg_bytes str v"] i(4) in \<open>simp add: setTypeIsMemberAux_def arg_value[OF arg]\<close>)
  then show ?thesis using inv by (auto simp: set_result_def)
next
  case (Set_LISTPACK lp)
  obtain es where es: "set_rep env ob es" "set_elems env ob = lp_text ` set es" using inv by (rule set_invE)
  then have lp: "lp_rep lp es" using Set_LISTPACK by simp
  have "setTypeIsMemberAux env ob str v = Some (ob, arg_bytes str v \<in> set_elems env ob)"
    using Set_LISTPACK setTypeIsMemberAux_listpack[OF lp, of env str v] fit es(2) by simp
  then show ?thesis using inv by (auto simp: set_result_def)
next
  case (Set_HT d)
  have d: "env_ok env" "dict_wf (setDictType env) d" "pauseAutoResize d \<le> 0" using inv Set_HT by (auto simp: set_inv_def)
  from dictFind_ok[OF setDictType_ok(1) d(2), of "set_can_resize env" "arg_bytes str v"] obtain d' r where
    r: "dictFind (set_can_resize env) (setDictType env) d (arg_bytes str v) = Some (d', r)"
      "dict_keeps (setDictType env) d d'" "r \<noteq> None \<longleftrightarrow> arg_bytes str v \<in> dict_keys d" by (auto split: option.splits)
  have "dict_wf (setDictType env) d'" "pauseAutoResize d' \<le> 0" "dict_keys d' = dict_keys d"
    using r(2) d(3) dict_keeps_keys[OF r(2)] by (auto simp: dict_keeps_def dict_frame_def)
  from set_invI_ht[OF d(1) this] show ?thesis
    using r(1,3) set_elems_ht[OF d(2,3)] set_inv_fits[OF inv] Set_HT by (auto simp: setTypeIsMemberAux_def intro!: set_resultI)
qed

lemma set_rep_length64:
  assumes "set_rep env ob es"
  shows "length es < 2 ^ 64"
proof (cases "set_encoding_of ob = OBJ_ENCODING_HT")
  case True
  then obtain d where d: "ob = Set_HT d" by (cases ob) auto
  have "length (dict_entries d) < 2 ^ 64" using assms d dictSize_entries[of "setDictType env" d]
    by (metis set_rep_simps(3) dictSize_def ulong_def mod_less_divisor zero_less_numeral zero_less_power)
  then show ?thesis using assms d by simp
qed (use set_rep_length[OF assms] in simp)

lemma setTypeSize_rep:
  assumes "set_rep env ob es" "length es < 2 ^ 64"
  shows "\<exists>ob'. setTypeSize ob = Some (ob', length es) \<and> set_rep env ob' es \<and> set_encoding_of ob' = set_encoding_of ob"
proof (cases ob)
  case (Set_LISTPACK lp)
  then show ?thesis using assms lpLength_rep[of lp es] by (auto simp: setTypeSize_def)
next
  case (Set_HT d)
  then show ?thesis using assms dictSize_entries[of "setDictType env" d] by (simp add: setTypeSize_def)
qed (use assms in \<open>simp add: setTypeSize_def intsetLen_def\<close>)

lemma setTypeSize_ok:
  assumes inv: "set_inv env ob"
  shows "set_result env (setTypeSize ob) (set_elems env ob) (card (set_elems env ob))"
proof -
  obtain es where es: "env_ok env" "set_rep env ob es" "set_limits env ob es" "set_elems env ob = lp_text ` set es"
    using inv by (rule set_invE)
  from setTypeSize_rep[OF es(2) set_rep_length64[OF es(2)]] obtain ob' where
    "setTypeSize ob = Some (ob', length es)" "set_rep env ob' es" "set_encoding_of ob' = set_encoding_of ob" by blast
  moreover from this have "set_limits env ob' es" using es(3) by (cases ob; cases ob') auto
  ultimately show ?thesis
    using set_invI[OF es(1), of ob' es] card_set_elems[OF es(2)] es(4) by (auto intro!: set_resultI)
qed

section \<open>Creation, conversion, copy\<close>

lemma set_inv_empty:
  assumes "env_ok env"
  shows "set_inv env createIntsetObject \<and> set_elems env createIntsetObject = {}"
    "set_inv env (Set_LISTPACK (lpNew n)) \<and> set_elems env (Set_LISTPACK (lpNew n)) = {}"
  using set_invI_intset[OF assms intset_wf_New(1)] intset_wf_New(2) set_invI[OF assms, of "Set_LISTPACK (lpNew n)" "[]"]
  by (simp_all add: createIntsetObject_def lpNew_rep intsetNew_def)

lemma setTypeCreate_ok:
  assumes "env_ok env"
  shows "\<exists>ob. setTypeCreate env val hint = Some ob \<and> set_inv env ob \<and> set_elems env ob = {}"
  using set_inv_empty[OF assms] dictExpand_create[of hint "setDictType env"] set_invI_ht[OF assms]
  by (fastforce simp: setTypeCreate_def createSetListpackObject_def)

lemma setTypeConvertAndExpand_ht:
  assumes "set_inv env ob" "set_encoding_of ob \<noteq> OBJ_ENCODING_HT"
  shows "set_result env (setTypeConvertAndExpand env ob OBJ_ENCODING_HT cap ta) (set_elems env ob) True \<or>
    ta = Some False \<and> setTypeConvertAndExpand env ob OBJ_ENCODING_HT cap ta = Some (ob, False)"
proof -
  obtain es where es: "env_ok env" "set_rep env ob es" "set_elems env ob = lp_text ` set es" using assms(1) by (rule set_invE)
  have "length es < 2 ^ 64" using set_rep_length[OF es(2) assms(2)] by simp
  from setTypeConvert_ht_ok[OF es(2) assms(2) this, of cap ta] show ?thesis
    using set_invI_ht[OF es(1)] es(3) set_inv_fits[OF assms(1)] by (auto simp: set_result_def)
qed

lemma setTypeConvertAndExpand_enc:
  assumes "set_inv env ob" "setTypeConvertAndExpand env ob OBJ_ENCODING_HT cap ta = Some (ob', True)"
    "set_encoding_of ob \<noteq> OBJ_ENCODING_HT"
  shows "set_encoding_of ob' = OBJ_ENCODING_HT"
proof -
  obtain es where es: "set_rep env ob es" using assms(1) by (rule set_invE)
  have "length es < 2 ^ 64" using set_rep_length[OF es assms(3)] by simp
  from setTypeConvert_ht_ok[OF es assms(3) this, of cap ta] assms(2) show ?thesis by auto
qed

lemma setTypeConvert_intset_listpack:
  assumes inv: "set_inv env ob" and ob: "ob = Set_INTSET is \<and> card (set_elems env ob) < 2 ^ 28"
  shows "\<exists>lp. setTypeConvertAndExpand env ob OBJ_ENCODING_LISTPACK cap ta = Some (Set_LISTPACK lp, True) \<and>
    lp_rep lp (map LP_INT (intset_vals is)) \<and> set_elems env (Set_LISTPACK lp) = set_elems env ob"
proof -
  let ?es = "map LP_INT (intset_vals is)"
  have ob': "ob = Set_INTSET is" using ob by simp
  note i = set_invE_intset[OF inv[unfolded ob']]
  have rep: "set_rep env ob ?es" using i(2) ob' by simp
  have len: "length (intset_vals is) < 2 ^ 28" using card_set_elems[OF rep] conjunct2[OF ob] ob' by simp
  have "length (lp_body ?es) \<le> 10 * length (intset_vals is)"
    by (rule length_body_ints) (simp add: length_entry_int lpEntrySizeInteger_eq)
  then have "lp_off ?es + 1 < 2 ^ 32" using len by (simp add: lp_off_def)
  from setTypeConvert_listpack_ok[OF i(2) this, of env cap ta] obtain lp where
    lp: "setTypeConvertAndExpand env ob OBJ_ENCODING_LISTPACK cap ta = Some (Set_LISTPACK lp, True)" "lp_rep lp ?es"
    using ob' by blast
  have "set_rep env (Set_LISTPACK lp) ?es" using lp(2) set_rep_distinct[OF rep] by simp
  then show ?thesis using lp set_elems_rep set_elems_rep[OF rep] by metis
qed

lemma setTypeMaybeConvert_ok:
  assumes "set_inv env ob"
  shows "\<exists>ob'. setTypeMaybeConvert env ob hint = Some ob' \<and> set_inv env ob' \<and> set_elems env ob' = set_elems env ob"
  using setTypeConvertAndExpand_ht[OF assms, of hint None] assms by (auto simp: setTypeMaybeConvert_def set_result_def ex_bool_eq)

lemma length_insert_sorted: "length (insert_sorted v xs) = length xs + (if v \<in> set xs then 0 else 1)"
proof -
  have "length (take n xs @ v # drop n xs) = length xs + 1" for n by (metis append_take_drop_id length_append length_Cons add_Suc_right Suc_eq_plus1)
  then show ?thesis by (simp add: insert_sorted_def)
qed

text \<open>Adding the elements of a set that has only integers to an intset.\<close>

lemma intset_fill_ok:
  assumes es: "distinct (map lp_text es)" "\<And>e. e \<in> set es \<Longrightarrow> \<exists>v. string2ll (lp_text e) = Some v"
    and len: "length es * 8 < 2 ^ 32"
  shows "\<exists>is. fold_body (\<lambda>is e. do {
        llval \<leftarrow> (case e of LP_STR str \<Rightarrow> string2ll str | LP_INT v \<Rightarrow> Some v);
        let (is, success) = intsetAdd is llval;
        c_assert success;
        Some (is, True)
      }) es intsetNew = Some is \<and> intset_wf is \<and> is_length is = length es \<and> sdec ` set (intset_vals is) = lp_text ` set es"
proof -
  let ?I = "\<lambda>xs is. intset_wf is \<and> is_length is = length xs \<and> sdec ` set (intset_vals is) = lp_text ` set xs"
  show ?thesis
  proof (rule fold_body_inv[where I = ?I and xs = "[]"])
    fix xs e ys "is" assume e: "es = xs @ e # ys" and I: "?I xs is"
    from es(2)[of e] e obtain v where v: "string2ll (lp_text e) = Some v" by auto
    then have v': "is_int64 v" "lp_text e = sdec v" by (simp_all add: string2ll_iff)
    have arg: "(case e of LP_STR str \<Rightarrow> string2ll str | LP_INT v \<Rightarrow> Some v) = Some v"
      using v v'(2) by (cases e) (simp_all add: sdec_inj)
    have "lp_text e \<notin> lp_text ` set xs" using es(1) e by auto
    then have new: "v \<notin> set (intset_vals is)" using I v'(2) by (auto simp: image_iff)
    have room: "(is_length is + 1) * 8 < 2 ^ 32" using I len e by simp
    note add = intsetAdd_correct[OF conjunct1[OF I] v'(1) room]
    obtain is' b where a: "intsetAdd is v = (is', b)" by (cases "intsetAdd is v")
    have "is_length is' = is_length is + 1"
      using add(2) a length_insert_sorted[of v "intset_vals is"] new length_intset_vals[of is'] by simp
    then have "?I (xs @ [e]) is'" using add(1,2) a I v'(2) by auto
    then show "\<exists>is'. (do {
        llval \<leftarrow> (case e of LP_STR str \<Rightarrow> string2ll str | LP_INT v \<Rightarrow> Some v);
        let (is, success) = intsetAdd is llval;
        c_assert success;
        Some (is, True)
      }) = Some (is', True) \<and> ?I (xs @ [e]) is'"
      using arg a add(3) new by simp
  next
    have "is_length intsetNew = 0" by (simp add: intsetNew_def)
    then show "?I [] intsetNew" by (simp add: intset_wf_New)
  qed simp
qed

lemma maybeConvertToIntset_ok:
  assumes inv: "set_inv env ob" and ints: "\<And>s. s \<in> set_elems env ob \<Longrightarrow> string2ll s \<noteq> None"
  shows "\<exists>ob'. maybeConvertToIntset env ob = Some ob' \<and> set_inv env ob' \<and> set_elems env ob' = set_elems env ob \<and>
    (card (set_elems env ob) \<le> set_max_intset_entries env \<longrightarrow> set_encoding_of ob' = OBJ_ENCODING_INTSET)"
proof (cases "set_encoding_of ob = OBJ_ENCODING_INTSET")
  case True
  then show ?thesis using inv by (simp add: maybeConvertToIntset_def)
next
  case enc: False
  from setTypeSize_ok[OF inv] obtain ob1 where
    ob1: "setTypeSize ob = Some (ob1, card (set_elems env ob))" "set_inv env ob1" "set_elems env ob1 = set_elems env ob"
    by (auto simp: set_result_def)
  obtain es where es: "env_ok env" "set_rep env ob1 es" "set_elems env ob1 = lp_text ` set es" using ob1(2) by (rule set_invE)
  have card: "card (set_elems env ob) = length es" using card_set_elems[OF es(2)] ob1(3) by simp
  show ?thesis
  proof (cases "length es \<le> set_max_intset_entries env")
    case False
    then show ?thesis using enc ob1 card by (simp add: maybeConvertToIntset_def intsetMaxEntries_eq[OF es(1)])
  next
    case True
    then have "length es * 8 < 2 ^ 32" using es(1) by (simp add: env_ok_def)
    moreover have "\<exists>v. string2ll (lp_text e) = Some v" if "e \<in> set es" for e using ints[of "lp_text e"] that es(3) ob1(3) by auto
    ultimately obtain s where s: "fold_body (\<lambda>is e. do {
        llval \<leftarrow> (case e of LP_STR str \<Rightarrow> string2ll str | LP_INT v \<Rightarrow> Some v);
        let (is, success) = intsetAdd is llval;
        c_assert success;
        Some (is, True)
      }) es intsetNew = Some s" "intset_wf s" "is_length s = length es" "sdec ` set (intset_vals s) = lp_text ` set es"
      using intset_fill_ok[OF set_rep_distinct[OF es(2)]] by blast
    have "maybeConvertToIntset env ob = Some (Set_INTSET s)"
      using enc ob1(1) True card s(1) by (simp add: maybeConvertToIntset_def intsetMaxEntries_eq[OF es(1)] set_iterate_ok[OF es(2)])
    then show ?thesis using set_invI_intset[OF es(1) s(2)] True s(3,4) es(3) ob1(3) by simp
  qed
qed

lemma setTypeDup_intset:
  assumes "intset_wf is"
  shows "intset_of_blob (write_at 0 (read_at 0 (intsetBlobLen is) (intset_to_blob is)) (realloc (intsetBlobLen is) [])) = is"
proof -
  have "length (intset_to_blob is) = intsetBlobLen is"
    using intset_wfD(2)[OF assms] by (simp add: intset_to_blob_def intsetBlobLen_def)
  then have "write_at 0 (read_at 0 (intsetBlobLen is) (intset_to_blob is)) (realloc (intsetBlobLen is) []) = intset_to_blob is"
    by (simp add: write_at_def read_at_def)
  then show ?thesis using intset_blob_roundtrip[OF assms] by simp
qed

lemma lpDup_rep: "lp_rep lp es \<Longrightarrow> lp_rep (lpDup lp) es"
proof (elim lp_repE)
  fix n sl assume es: "lp_fits es" "lp_numele_ok n es" and lp: "lp = lp_image n es sl"
  have "take (lp_off es + 1) (lp_image n es sl) = lp_image n es []" "length (lp_image n es []) = lp_off es + 1"
    "length (lp_image n es sl) = lp_off es + 1 + length sl"
    by (simp_all add: lp_image_def lp_off_def)
  then have "lpDup lp = lp_image n es []"
    using es lp by (simp add: lpDup_def lpBytes_def write_at_def read_at_def Let_def)
  then show ?thesis using lp_repI[OF es, of "[]"] by simp
qed

lemma setTypeDup_ok:
  assumes inv: "set_inv env ob"
  shows "\<exists>ob'. setTypeDup env ob = Some (ob, ob') \<and> set_inv env ob' \<and> set_elems env ob' = set_elems env ob \<and>
    set_encoding_of ob' = set_encoding_of ob"
proof (cases ob)
  case (Set_INTSET s)
  then show ?thesis using inv setTypeDup_intset set_invE_intset(2) by (simp add: setTypeDup_def Let_def)
next
  case (Set_LISTPACK lp)
  obtain es where es: "env_ok env" "set_rep env ob es" "set_limits env ob es" "set_elems env ob = lp_text ` set es"
    using inv by (rule set_invE)
  have "set_rep env (Set_LISTPACK (lpDup lp)) es" using es(2) Set_LISTPACK lpDup_rep by simp
  from set_invI[OF es(1) this] es Set_LISTPACK show ?thesis by (simp add: setTypeDup_def)
next
  case (Set_HT d)
  obtain es where es: "env_ok env" "set_rep env ob es" "set_elems env ob = lp_text ` set es" using inv by (rule set_invE)
  from dictExpand_create[of "dictSize d" "setDictType env"] obtain d1 ok where
    d1: "dictExpand dictCreate (dictSize d) = Some (d1, ok)" "dict_wf (setDictType env) d1" "pauseAutoResize d1 \<le> 0" "dict_keys d1 = {}"
    by blast
  let ?body = "\<lambda>set' e. do {
      (set', _) \<leftarrow> setTypeAdd env set' (case e of LP_STR s \<Rightarrow> s | LP_INT v \<Rightarrow> []);
      Some (set', True)
    }"
  let ?I = "\<lambda>xs ob'. set_inv env ob' \<and> set_encoding_of ob' = OBJ_ENCODING_HT \<and> set_elems env ob' = lp_text ` set xs"
  have len: "length es < 2 ^ 64" by (rule set_rep_length64[OF es(2)])
  have "\<exists>ob'. fold_body ?body es (Set_HT d1) = Some ob' \<and> ?I es ob'"
  proof (rule fold_body_inv[where I = ?I and xs = "[]"])
    fix xs e ys ob' assume e: "es = xs @ e # ys" and I: "?I xs ob'"
    have "e \<in> set es" using e by simp
    then obtain s where s: "e = LP_STR s" using es(2) Set_HT by auto
    have "card (lp_text ` set xs) \<le> length xs" using card_image_le[of "set xs" lp_text] card_length[of xs] by simp
    then have room: "card (set_elems env ob') < 2 ^ 64 - 1" using I e len by simp
    obtain d' where d': "ob' = Set_HT d'" using I by (cases ob') auto
    have "sds_fits s" using set_inv_fits[OF inv, of s] s \<open>e \<in> set es\<close> es(3) by force
    with setTypeAddAux_ok[of env ob' "Some s" 0] I room obtain ob2 b where
      a: "setTypeAddAux env ob' (Some s) 0 = Some (ob2, b)" "set_inv env ob2" "set_elems env ob2 = insert s (lp_text ` set xs)"
      by (auto simp: set_result_def arg_bytes_def)
    have "set_encoding_of ob2 = OBJ_ENCODING_HT"
      using a(1) d' by (auto simp: setTypeAddAux_def setTypeAdd_ht_def split: bind_splits sum.splits)
    then show "\<exists>acc'. ?body ob' e = Some (acc', True) \<and> ?I (xs @ [e]) acc'"
      using a s by (simp add: setTypeAdd_def)
  qed (use set_invI_ht[OF es(1) d1(2-4)] in simp_all)
  then show ?thesis using Set_HT d1(1) es(3) by (auto simp: setTypeDup_def set_iterate_ok[OF es(2)[unfolded Set_HT]])
qed

section \<open>Sequences of operations\<close>

text \<open>A sequence of calls of \<open>setTypeAdd\<close> and \<open>setTypeRemove\<close> with the result of each.\<close>

fun set_run :: "set_env \<Rightarrow> setobj \<Rightarrow> byte list set_update list \<Rightarrow> (setobj \<times> bool list) option" where
  "set_run env ob [] = Some (ob, [])"
| "set_run env ob (u # us) = do {
     (ob, b) \<leftarrow> (case u of Add x \<Rightarrow> setTypeAdd env ob x | Remove x \<Rightarrow> setTypeRemove env ob x);
     (ob, bs) \<leftarrow> set_run env ob us;
     Some (ob, b # bs)
   }"

lemma set_resultD: "set_result env r A b \<Longrightarrow> r = Some (fst (the r), b) \<and> set_inv env (fst (the r)) \<and> set_elems env (fst (the r)) = A"
  by (auto simp: set_result_def)

lemma set_result_the:
  "set_result env r A b \<Longrightarrow> set_inv env (fst (the r)) \<and> set_elems env (fst (the r)) = A \<and> snd (the r) = b"
  by (auto simp: set_result_def)

lemma setTypeAdd_ok:
  "set_inv env ob \<Longrightarrow> sds_fits s \<Longrightarrow> card (set_elems env ob) < 2 ^ 64 - 1 \<Longrightarrow>
    set_result env (setTypeAdd env ob s) (insert s (set_elems env ob)) (s \<notin> set_elems env ob)"
  using setTypeAddAux_ok[of env ob "Some s" 0] by (simp add: setTypeAdd_def arg_bytes_def)

lemma setTypeRemove_ok:
  "set_inv env ob \<Longrightarrow> sds_fits s \<Longrightarrow> set_result env (setTypeRemove env ob s) (set_elems env ob - {s}) (s \<in> set_elems env ob)"
  using setTypeRemoveAux_ok[of env ob "Some s" 0] by (simp add: setTypeRemove_def arg_bytes_def)

lemma setTypeIsMember_ok:
  "set_inv env ob \<Longrightarrow> sds_fits s \<Longrightarrow> set_result env (setTypeIsMember env ob s) (set_elems env ob) (s \<in> set_elems env ob)"
  using setTypeIsMemberAux_ok[of env ob "Some s" 0] by (simp add: setTypeIsMember_def arg_bytes_def)

lemma set_elems_finite: "finite (set_elems env ob)"
  by (simp add: set_elems_def)

interpretation sset: set_encoding "set_inv env" "set_elems env" sds_fits "2 ^ 64 - 1"
  "\<lambda>ob s. the (setTypeAdd env ob s)" "\<lambda>ob s. the (setTypeRemove env ob s)"
  "\<lambda>ob s. snd (the (setTypeIsMember env ob s))" for env
  by unfold_locales
    (simp_all add: set_elems_finite set_result_the[OF setTypeAdd_ok] set_result_the[OF setTypeRemove_ok]
      set_result_the[OF setTypeIsMember_ok])

lemma set_run_updates:
  assumes "set_inv env ob" "\<forall>u \<in> set us. \<forall>x \<in> set_set_update u. sds_fits x" "card (set_elems env ob) + length us \<le> 2 ^ 64 - 1"
  shows "set_run env ob us = Some (run_updates (\<lambda>ob s. the (setTypeAdd env ob s)) (\<lambda>ob s. the (setTypeRemove env ob s)) ob us)"
  using assms
proof (induction us arbitrary: ob)
  case (Cons u us)
  define r where "r = (case u of Add x \<Rightarrow> setTypeAdd env ob x | Remove x \<Rightarrow> setTypeRemove env ob x)"
  have "\<exists>A b. set_result env r A b \<and> card A \<le> card (set_elems env ob) + 1"
  proof (cases u)
    case (Add x)
    then show ?thesis using setTypeAdd_ok[of env ob x] Cons.prems card_insert_le_m1[of "card (set_elems env ob) + 1" "set_elems env ob" x]
      by (auto simp: r_def)
  next
    case (Remove x)
    then show ?thesis using setTypeRemove_ok[of env ob x] Cons.prems card_Diff1_le[of "set_elems env ob" x]
      by (auto simp: r_def intro: le_trans)
  qed
  then obtain ob1 b where r: "r = Some (ob1, b)" "set_inv env ob1" "card (set_elems env ob1) \<le> card (set_elems env ob) + 1"
    by (auto simp: set_result_def)
  have IH: "set_run env ob1 us =
      Some (run_updates (\<lambda>ob s. the (setTypeAdd env ob s)) (\<lambda>ob s. the (setTypeRemove env ob s)) ob1 us)"
    using Cons.IH[OF r(2)] r(3) Cons.prems(2,3) by simp
  have "(case u of Add x \<Rightarrow> the (setTypeAdd env ob x) | Remove x \<Rightarrow> the (setTypeRemove env ob x)) = (ob1, b)"
    using r(1) by (cases u) (simp_all add: r_def)
  with IH r(1)[unfolded r_def] show ?case by (simp add: split_beta)
qed simp

lemma set_run_ok:
  assumes "set_inv env ob" "\<forall>u \<in> set us. \<forall>x \<in> set_set_update u. sds_fits x" "card (set_elems env ob) + length us \<le> 2 ^ 64 - 1"
  shows "set_result env (set_run env ob us) (fst (run_updates spec_add spec_rem (set_elems env ob) us))
    (snd (run_updates spec_add spec_rem (set_elems env ob) us))"
proof -
  let ?r = "run_updates (\<lambda>ob s. the (setTypeAdd env ob s)) (\<lambda>ob s. the (setTypeRemove env ob s)) ob us"
  have "set_inv env (fst ?r)" "(set_elems env (fst ?r), snd ?r) = run_updates spec_add spec_rem (set_elems env ob) us"
    using sset.updates_refine[OF assms] by auto
  then show ?thesis using set_run_updates[OF assms] by (auto simp: set_result_def prod_eq_iff)
qed

section \<open>Properties\<close>

text \<open>A small configuration: conversions happen early.\<close>

definition small_env :: set_env where
  "small_env = \<lparr>set_max_intset_entries = 1, set_max_listpack_entries = 2, set_max_listpack_value = 3,
     set_can_resize = DICT_RESIZE_ENABLE, dictSdsHash = (\<lambda>s. word_of_nat (length s)), table_addr = (4096, 8192)\<rparr>"

lemma small_env_ok: "env_ok small_env"
  by (simp add: env_ok_def small_env_def)

lemma small_intset: "\<exists>is. set_inv small_env (Set_INTSET is) \<and> set_elems small_env (Set_INTSET is) = {[49]}"
proof -
  have v: "is_int64 1" "sdec 1 = [49]" by (simp_all add: range_simps sdec_def dec.simps)
  have "(is_length intsetNew + 1) * 8 < 2 ^ 32" by (simp add: intsetNew_def)
  note a = intsetAdd_correct[OF intset_wf_New(1) v(1) this]
  have vals: "intset_vals (fst (intsetAdd intsetNew 1)) = [1]"
    using a(2) intset_wf_New(2) by (simp add: insert_sorted_def)
  then have "is_length (fst (intsetAdd intsetNew 1)) = 1" by (metis length_intset_vals length_Cons list.size(3) One_nat_def)
  then show ?thesis using set_invI_intset[OF small_env_ok a(1)] vals v(2) by (auto simp: small_env_def)
qed

text \<open>C30: A set object behaves as a set of byte strings, whatever encodings it passes through. A set is created and
  any sequence of fewer than \<open>2 ^ 64\<close> calls of \<open>setTypeAdd\<close> and \<open>setTypeRemove\<close> is run on it: no assertion fails,
  each call reports exactly whether it changed the set, and afterwards \<open>setTypeIsMember\<close> and \<open>setTypeSize\<close> answer
  for the resulting set. The strings are shorter than \<open>2 ^ 32\<close> bytes, where \<open>lpFind\<close> truncates their length, and the
  configured limit \<open>set-max-intset-entries\<close> is below \<open>2 ^ 29 - 1\<close>, where the arithmetic of \<open>intset.c\<close> wraps.\<close>
theorem setType_refines_set:
  assumes "set_max_intset_entries env < 2 ^ 29 - 1" "length us < 2 ^ 64"
    and "\<forall>u \<in> set us. \<forall>x \<in> set_set_update u. length x < 2 ^ 32"
  defines "spec \<equiv> run_updates spec_add spec_rem {} us"
  shows "\<exists>ob ob'. setTypeCreate env val hint = Some ob \<and> set_run env ob us = Some (ob', snd spec) \<and>
    (\<forall>x. length x < 2 ^ 32 \<longrightarrow> (\<exists>ob''. setTypeIsMember env ob' x = Some (ob'', x \<in> fst spec))) \<and>
    (\<exists>ob''. setTypeSize ob' = Some (ob'', card (fst spec)))"
proof -
  have env: "env_ok env" and fit: "\<forall>u \<in> set us. \<forall>x \<in> set_set_update u. sds_fits x"
    using assms(1,3) by (simp_all add: env_ok_def sds_fits_def)
  from setTypeCreate_ok[OF env, of val hint] obtain ob where
    ob: "setTypeCreate env val hint = Some ob" "set_inv env ob" "set_elems env ob = {}" by blast
  from set_run_ok[OF ob(2) fit] assms(2) ob(3) obtain ob' where
    ob': "set_run env ob us = Some (ob', snd spec)" "set_inv env ob'" "set_elems env ob' = fst spec"
    by (auto simp: set_result_def spec_def)
  have "\<exists>ob''. setTypeIsMember env ob' x = Some (ob'', x \<in> fst spec)" if "length x < 2 ^ 32" for x
    using setTypeIsMember_ok[OF ob'(2), of x] ob'(3) that by (auto simp: set_result_def sds_fits_def)
  moreover have "\<exists>ob''. setTypeSize ob' = Some (ob'', card (fst spec))"
    using setTypeSize_ok[OF ob'(2)] ob'(3) by (auto simp: set_result_def)
  ultimately show ?thesis using ob(1) ob'(1) by blast
qed

theorem setType_refines_set_witness:
  "\<exists>ob ob'. setTypeCreate small_env [49] 1 = Some ob \<and>
    set_run small_env ob [Add [49], Add [97], Add [49], Add [98], Remove [97], Remove [97]] =
      Some (ob', [True, True, False, True, True, False]) \<and>
    (\<exists>ob''. setTypeIsMember small_env ob' [98] = Some (ob'', True)) \<and>
    (\<exists>ob''. setTypeSize ob' = Some (ob'', 2))"
proof -
  define us :: "byte list set_update list" where
    "us = [Add [49], Add [97], Add [49], Add [98], Remove [97], Remove [97]]"
  have e: "set_max_intset_entries small_env < 2 ^ 29 - 1" by (simp add: small_env_def)
  have l: "length us < 2 ^ 64" "\<forall>u \<in> set us. \<forall>x \<in> set_set_update u. length x < 2 ^ 32" by (simp_all add: us_def)
  have spec: "run_updates spec_add spec_rem {} us = ({[49], [98]}, [True, True, False, True, True, False])"
    by (auto simp: us_def spec_add_def spec_rem_def)
  have card: "card {[49], [98] :: byte list} = 2" by simp
  from setType_refines_set[OF e l, of "[49]" 1, unfolded spec fst_conv snd_conv card] obtain ob ob' where
    r: "setTypeCreate small_env [49] 1 = Some ob" "set_run small_env ob us = Some (ob', [True, True, False, True, True, False])"
      "\<forall>x. length x < 2 ^ 32 \<longrightarrow> (\<exists>ob''. setTypeIsMember small_env ob' x = Some (ob'', x \<in> {[49], [98]}))"
      "\<exists>ob''. setTypeSize ob' = Some (ob'', 2)" by blast
  have "\<exists>ob''. setTypeIsMember small_env ob' [98] = Some (ob'', True)" using r(3)[rule_format, of "[98]"] by simp
  then show ?thesis using r(1,2,4) unfolding us_def by blast
qed

text \<open>C31: The encodings keep their limits: after any sequence of fewer than \<open>2 ^ 64\<close> additions and removals of strings
  shorter than \<open>2 ^ 32\<close> bytes, a set that is an intset has only integers and at most \<open>set_max_intset_entries\<close> of
  them, and a set that is a listpack has at most \<open>set_max_listpack_entries\<close> members, none longer than
  \<open>set_max_listpack_value\<close>. The configured limit on intsets is below \<open>2 ^ 29 - 1\<close>.\<close>
theorem setType_encoding_limits:
  assumes "set_max_intset_entries env < 2 ^ 29 - 1" "length us < 2 ^ 64"
    and "\<forall>u \<in> set us. \<forall>x \<in> set_set_update u. length x < 2 ^ 32"
    and "setTypeCreate env val hint = Some ob" "set_run env ob us = Some (ob', bs)"
  shows "(set_encoding_of ob' = OBJ_ENCODING_INTSET \<longrightarrow>
      card (set_elems env ob') \<le> set_max_intset_entries env \<and> (\<forall>s \<in> set_elems env ob'. string2ll s \<noteq> None)) \<and>
    (set_encoding_of ob' = OBJ_ENCODING_LISTPACK \<longrightarrow>
      card (set_elems env ob') \<le> set_max_listpack_entries env \<and>
      (\<forall>s \<in> set_elems env ob'. length s \<le> set_max_listpack_value env))"
proof -
  have env: "env_ok env" and fit: "\<forall>u \<in> set us. \<forall>x \<in> set_set_update u. sds_fits x"
    using assms(1,3) by (simp_all add: env_ok_def sds_fits_def)
  have "set_inv env ob" "set_elems env ob = {}" using setTypeCreate_ok[OF env, of val hint] assms(4) by auto
  from set_run_ok[OF this(1) fit] this(2) assms(2,5) have inv: "set_inv env ob'" by (auto simp: set_result_def)
  then obtain es where es: "set_rep env ob' es" "set_limits env ob' es" "set_elems env ob' = lp_text ` set es"
    by (rule set_invE)
  have card: "card (set_elems env ob') = length es" by (rule card_set_elems[OF es(1)])
  show ?thesis
  proof (cases ob')
    case (Set_INTSET s)
    note i = set_invE_intset[OF inv[unfolded Set_INTSET]]
    have "\<forall>x \<in> set_elems env ob'. string2ll x \<noteq> None"
      using string2ll_mem[OF i(2)] i(4) Set_INTSET by (metis option.distinct(1))
    then show ?thesis using card es Set_INTSET by simp
  qed (use card es in auto)
qed

theorem setType_encoding_limits_witness:
  "\<exists>ob ob'. setTypeCreate small_env [49] 1 = Some ob \<and> set_run small_env ob [Add [49], Add [97]] = Some (ob', [True, True]) \<and>
    (set_encoding_of ob' = OBJ_ENCODING_LISTPACK \<longrightarrow> card (set_elems small_env ob') \<le> 2)"
proof -
  from setTypeCreate_ok[OF small_env_ok, of "[49]" 1] obtain ob where
    ob: "setTypeCreate small_env [49] 1 = Some ob" "set_inv small_env ob" "set_elems small_env ob = {}" by blast
  from set_run_ok[OF ob(2), of "[Add [49], Add [97]]"] ob(3) obtain ob' where
    r: "set_run small_env ob [Add [49], Add [97]] = Some (ob', [True, True])"
    by (auto simp: set_result_def spec_add_def sds_fits_def)
  have m: "set_max_listpack_entries small_env = 2" "set_max_intset_entries small_env < 2 ^ 29 - 1" by (simp_all add: small_env_def)
  from setType_encoding_limits[OF m(2) _ _ ob(1) r] ob(1) r m(1) show ?thesis by auto
qed

text \<open>Outside the bound on the length of the strings: in a listpack, a member is looked up as its prefix.\<close>

lemma setTypeAdd_listpack_found:
  assumes lp: "lp_rep lp es" and found: "take (length s mod 2 ^ 32) s \<in> lp_text ` set es"
  shows "setTypeAdd env (Set_LISTPACK lp) s = Some (Set_LISTPACK lp, False)"
proof -
  have ne: "es \<noteq> []" and some: "lp_find (\<lambda>e. lp_text e = take (length s mod 2 ^ 32) s) 0 0 es \<noteq> None"
    using found by (auto simp: lp_find_None)
  then obtain i where "lp_find (\<lambda>e. lp_text e = take (length s mod 2 ^ 32) s) 0 0 es = Some i" by blast
  then show ?thesis using lpFirst_rep[OF lp] lpFind_rep[OF lp ne, of s] ne
    by (simp add: setTypeAdd_def setTypeAddAux_def setTypeAdd_listpack_def arg_bytes_def Let_def)
qed

text \<open>C33: a string of \<open>2 ^ 32\<close> bytes more than a member \<open>x\<close> of a listpack, with \<open>x\<close> as a prefix, is taken for \<open>x\<close>: it is not in the set, but
  \<open>setTypeIsMember\<close> says that it is, \<open>setTypeAdd\<close> does not add it, and \<open>setTypeRemove\<close> removes \<open>x\<close> instead.\<close>
theorem setType_truncates_long_strings:
  assumes "set_inv env (Set_LISTPACK lp)" "x \<in> set_elems env (Set_LISTPACK lp)" "length y = 2 ^ 32"
  shows "x @ y \<notin> set_elems env (Set_LISTPACK lp) \<and>
    setTypeIsMember env (Set_LISTPACK lp) (x @ y) = Some (Set_LISTPACK lp, True) \<and>
    setTypeAdd env (Set_LISTPACK lp) (x @ y) = Some (Set_LISTPACK lp, False) \<and>
    (\<exists>ob'. setTypeRemove env (Set_LISTPACK lp) (x @ y) = Some (ob', True) \<and>
       set_elems env ob' = set_elems env (Set_LISTPACK lp) - {x})"
proof -
  obtain es where es: "env_ok env" "set_rep env (Set_LISTPACK lp) es" "set_limits env (Set_LISTPACK lp) es"
    "set_elems env (Set_LISTPACK lp) = lp_text ` set es"
    using assms(1) by (rule set_invE)
  have lp: "lp_rep lp es" using es(2) by simp
  have "length x < 2 ^ 32" using set_inv_fits[OF assms(1,2)] by (simp add: sds_fits_def)
  then have t: "take (length (x @ y) mod 2 ^ 32) (x @ y) = x" using assms(3) by simp
  have "\<not> sds_fits (x @ y)" using assms(3) by (simp add: sds_fits_def)
  moreover have "setTypeIsMember env (Set_LISTPACK lp) (x @ y) = Some (Set_LISTPACK lp, True)"
    using setTypeIsMemberAux_listpack[OF lp, of env "Some (x @ y)" 0] t assms(2) es(4)
    by (simp only: setTypeIsMember_def arg_bytes_def option.case)
  moreover have "setTypeAdd env (Set_LISTPACK lp) (x @ y) = Some (Set_LISTPACK lp, False)"
    by (rule setTypeAdd_listpack_found[OF lp]) (use t assms(2) es(4) in simp)
  moreover have "set_result env (setTypeRemove env (Set_LISTPACK lp) (x @ y)) (lp_text ` set es - {x}) True"
    using setTypeRemove_listpack[OF es(2,3,1), of "Some (x @ y)" 0] t assms(2) es(4)
    by (simp only: setTypeRemove_def arg_bytes_def option.case)
  ultimately show ?thesis using set_inv_fits[OF assms(1)] es(4) by (auto simp: set_result_def)
qed

theorem setType_truncates_long_strings_witness:
  "[97] @ replicate (2 ^ 32) 0 \<notin> set_elems small_env (Set_LISTPACK lp_example) \<and>
   setTypeIsMember small_env (Set_LISTPACK lp_example) ([97] @ replicate (2 ^ 32) 0) = Some (Set_LISTPACK lp_example, True)"
proof -
  have rep: "set_rep small_env (Set_LISTPACK lp_example) [LP_INT 5, LP_STR [97]]"
    using lp_example_rep by (simp add: sdec_def dec.simps)
  have lim: "set_limits small_env (Set_LISTPACK lp_example) [LP_INT 5, LP_STR [97]]"
    by (simp add: small_env_def sdec_def dec.simps)
  from set_invI[OF small_env_ok rep lim] have i: "set_inv small_env (Set_LISTPACK lp_example)"
    "[97] \<in> set_elems small_env (Set_LISTPACK lp_example)" by simp_all
  note t = setType_truncates_long_strings[OF i length_replicate[of "2 ^ 32" 0]]
  show ?thesis by (intro conjI conjunct1[OF t] conjunct1[OF conjunct2[OF t]])
qed

text \<open>C32: The conversions keep the members: of a well-formed set, \<open>setTypeConvertAndExpand\<close> to a hash table either
  yields the same set or, when the allocation fails and must not panic, leaves the set alone; from an intset of fewer than
  \<open>2 ^ 28\<close> elements to a listpack it yields the same set, in the order of the intset; \<open>setTypeMaybeConvert\<close> yields the
  same set for every size hint; \<open>setTypeDup\<close> yields an equal set in the same encoding; and
  a set of integers that fits becomes an intset by \<open>maybeConvertToIntset\<close>.\<close>
theorem setType_conversions_keep:
  assumes inv: "set_inv env ob"
  shows "(set_encoding_of ob \<noteq> OBJ_ENCODING_HT \<longrightarrow>
      (\<exists>ob'. setTypeConvertAndExpand env ob OBJ_ENCODING_HT cap ta = Some (ob', True) \<and>
        set_inv env ob' \<and> set_elems env ob' = set_elems env ob \<and> set_encoding_of ob' = OBJ_ENCODING_HT) \<or>
      ta = Some False \<and> setTypeConvertAndExpand env ob OBJ_ENCODING_HT cap ta = Some (ob, False)) \<and>
    (\<forall>is. ob = Set_INTSET is \<and> card (set_elems env ob) < 2 ^ 28 \<longrightarrow>
      (\<exists>lp. setTypeConvertAndExpand env ob OBJ_ENCODING_LISTPACK cap ta = Some (Set_LISTPACK lp, True) \<and>
        lp_rep lp (map LP_INT (intset_vals is)) \<and> set_elems env (Set_LISTPACK lp) = set_elems env ob)) \<and>
    (\<exists>ob'. setTypeMaybeConvert env ob hint = Some ob' \<and> set_inv env ob' \<and> set_elems env ob' = set_elems env ob) \<and>
    (\<exists>ob'. setTypeDup env ob = Some (ob, ob') \<and> set_inv env ob' \<and> set_elems env ob' = set_elems env ob \<and>
      set_encoding_of ob' = set_encoding_of ob) \<and>
    ((\<forall>s \<in> set_elems env ob. string2ll s \<noteq> None) \<and> card (set_elems env ob) \<le> set_max_intset_entries env \<longrightarrow>
      (\<exists>is. maybeConvertToIntset env ob = Some (Set_INTSET is) \<and> set_elems env (Set_INTSET is) = set_elems env ob))"
  (is "?convert \<and> ?listpack \<and> ?maybe \<and> ?dup \<and> ?intset")
proof (intro conjI)
  show ?convert using setTypeConvertAndExpand_ht[OF inv, of cap ta] setTypeConvertAndExpand_enc[OF inv, of cap ta] unfolding set_result_def by blast
  show ?listpack using setTypeConvert_intset_listpack[OF inv] by blast
  show ?maybe by (rule setTypeMaybeConvert_ok[OF inv])
  show ?dup by (rule setTypeDup_ok[OF inv])
  show ?intset
  proof
    assume "(\<forall>s \<in> set_elems env ob. string2ll s \<noteq> None) \<and> card (set_elems env ob) \<le> set_max_intset_entries env"
    with maybeConvertToIntset_ok[OF inv] obtain ob' where
      "maybeConvertToIntset env ob = Some ob'" "set_elems env ob' = set_elems env ob" "set_encoding_of ob' = OBJ_ENCODING_INTSET"
      by blast
    then show "\<exists>is. maybeConvertToIntset env ob = Some (Set_INTSET is) \<and> set_elems env (Set_INTSET is) = set_elems env ob"
      by (cases ob') auto
  qed
qed

theorem setType_conversions_keep_witness:
  "\<exists>is. set_inv small_env (Set_INTSET is) \<and> set_elems small_env (Set_INTSET is) = {[49]} \<and>
     (\<exists>d. setTypeConvertAndExpand small_env (Set_INTSET is) OBJ_ENCODING_HT 4 None = Some (Set_HT d, True) \<and>
        set_elems small_env (Set_HT d) = {[49]}) \<and>
     (\<exists>lp. setTypeConvertAndExpand small_env (Set_INTSET is) OBJ_ENCODING_LISTPACK 4 None = Some (Set_LISTPACK lp, True) \<and>
        set_elems small_env (Set_LISTPACK lp) = {[49]}) \<and>
     (\<exists>ob'. setTypeMaybeConvert small_env (Set_INTSET is) 5 = Some ob' \<and> set_elems small_env ob' = {[49]}) \<and>
     (\<exists>ob'. setTypeDup small_env (Set_INTSET is) = Some (Set_INTSET is, ob') \<and> set_elems small_env ob' = {[49]})"
proof -
  from small_intset obtain s where s: "set_inv small_env (Set_INTSET s)" "set_elems small_env (Set_INTSET s) = {[49]}" by blast
  note c = setType_conversions_keep[OF s(1), of 4 None 5]
  have "\<exists>d. ob' = Set_HT d" if "set_encoding_of ob' = OBJ_ENCODING_HT" for ob' using that by (cases ob') simp_all
  with c[THEN conjunct1] s(2) have "\<exists>d. setTypeConvertAndExpand small_env (Set_INTSET s) OBJ_ENCODING_HT 4 None = Some (Set_HT d, True) \<and>
      set_elems small_env (Set_HT d) = {[49]}" by fastforce
  moreover have "card (set_elems small_env (Set_INTSET s)) < 2 ^ 28" using s(2) by simp
  ultimately show ?thesis using c s by (intro exI[of _ s] conjI) auto
qed

end
