(* ===== verification/Keyspace.thy ===== *)
theory Keyspace
  imports Set_Refine
begin

text \<open>
  The keyspace of \<open>db.c\<close> with the watched keys of \<open>multi.c\<close>: lookup with lazy expiration, addition,
  replacement and deletion of keys, their expire times, and the notification of the clients that
  watch a key. The state is one database. Its tables \<open>keys\<close> and \<open>expires\<close>, which \<open>kvstore.c\<close> keeps in
  hash tables, are maps (a dictionary of \<open>dict.c\<close> refines a map, theory \<open>Dict_Refine\<close>). A value of
  another type than a set is opaque, of type \<open>'o\<close>; a queued command is of type \<open>'q\<close>.

  A \<open>watchedKey\<close> is linked both in the list of its client and in the list of the key. It
  is stored in the list of the key; the list of the client holds the key. Keyspace
  events, access times, statistics of hits and misses, and the tracking table of client side caching are left out.
\<close>

section \<open>State\<close>

type_synonym key = "byte list"

datatype 'o robj = OBJ_SET setobj | OBJ_OTHER 'o

record watchedKey =
  wk_client :: nat
  wk_expired :: bool

record 'q client =
  cl_multi :: bool                \<comment> \<open>\<open>CLIENT_MULTI\<close>\<close>
  cl_dirty_cas :: bool            \<comment> \<open>\<open>CLIENT_DIRTY_CAS\<close>\<close>
  cl_dirty_exec :: bool           \<comment> \<open>\<open>CLIENT_DIRTY_EXEC\<close>\<close>
  cl_master :: bool               \<comment> \<open>\<open>CLIENT_MASTER\<close>\<close>
  cl_commands :: "'q list"        \<comment> \<open>\<open>mstate.commands\<close>\<close>
  cl_watched_keys :: "key list"

record ('o, 'q) server =
  db_keys :: "key \<Rightarrow> 'o robj option"
  db_expires :: "key \<Rightarrow> int option"
  db_watched_keys :: "key \<Rightarrow> watchedKey list"    \<comment> \<open>\<open>[]\<close> for a key without an entry\<close>
  clients :: "nat \<Rightarrow> 'q client"
  current_client :: nat
  watching_clients :: int
  dirty :: int
  stat_expiredkeys :: int
  also_propagate :: "key list"                     \<comment> \<open>the deletions propagated to replicas and AOF\<close>
  mstime :: int                                    \<comment> \<open>\<open>commandTimeSnapshot()\<close>\<close>
  loading :: bool
  lazy_expire_disabled :: bool
  masterhost :: bool
  repl_slave_ro :: bool
  expire_paused :: bool

section \<open>Watched keys\<close>

definition upd_client :: "nat \<Rightarrow> ('q client \<Rightarrow> 'q client) \<Rightarrow> ('o, 'q) server \<Rightarrow> ('o, 'q) server" where
  "upd_client c f s = s\<lparr>clients := (clients s)(c := f (clients s c))\<rparr>"

text \<open>\<open>listUnlinkNode\<close> of the node of client \<open>c\<close> in the list of the key.\<close>

definition unlink_watched :: "nat \<Rightarrow> key \<Rightarrow> ('o, 'q) server \<Rightarrow> ('o, 'q) server" where
  "unlink_watched c k s = s\<lparr>db_watched_keys := (db_watched_keys s)
     (k := filter (\<lambda>wk. wk_client wk \<noteq> c) (db_watched_keys s k))\<rparr>"

definition unwatchAllKeys :: "nat \<Rightarrow> ('o, 'q) server \<Rightarrow> ('o, 'q) server" where
  "unwatchAllKeys c s =
     (if cl_watched_keys (clients s c) = [] then s
      else let s = fold (unlink_watched c) (cl_watched_keys (clients s c)) s;
               s = upd_client c (\<lambda>cl. cl\<lparr>cl_watched_keys := []\<rparr>) s
           in s\<lparr>watching_clients := watching_clients s - 1\<rparr>)"

definition dbFind :: "('o, 'q) server \<Rightarrow> key \<Rightarrow> 'o robj option" where
  "dbFind s key = db_keys s key"

definition clear_expired :: "nat \<Rightarrow> key \<Rightarrow> ('o, 'q) server \<Rightarrow> ('o, 'q) server" where
  "clear_expired c k s = s\<lparr>db_watched_keys := (db_watched_keys s)
     (k := map (\<lambda>wk. if wk_client wk = c then wk\<lparr>wk_expired := False\<rparr> else wk) (db_watched_keys s k))\<rparr>"

text \<open>
  The loop of \<open>touchWatchedKey\<close> over the clients that watch the key. The iterator holds the next node
  before the current one may be unlinked. A client for which the key was already expired when it was watched
  ends the loop, unless the key is gone.
\<close>

fun touch_loop :: "key \<Rightarrow> watchedKey list \<Rightarrow> ('o, 'q) server \<Rightarrow> ('o, 'q) server" where
  "touch_loop key [] s = s"
| "touch_loop key (wk # wks) s =
     (if wk_expired wk then
        if dbFind s key = None then touch_loop key wks (clear_expired (wk_client wk) key s)
        else s
      else touch_loop key wks
        (unwatchAllKeys (wk_client wk) (upd_client (wk_client wk) (\<lambda>cl. cl\<lparr>cl_dirty_cas := True\<rparr>) s)))"

definition touchWatchedKey :: "key \<Rightarrow> ('o, 'q) server \<Rightarrow> ('o, 'q) server" where
  "touchWatchedKey key s = touch_loop key (db_watched_keys s key) s"

definition signalModifiedKey :: "key \<Rightarrow> ('o, 'q) server \<Rightarrow> ('o, 'q) server" where
  "signalModifiedKey key s = touchWatchedKey key s"

section \<open>Expiration\<close>

definition removeExpire :: "key \<Rightarrow> ('o, 'q) server \<Rightarrow> ('o, 'q) server \<times> bool" where
  "removeExpire key s = (s\<lparr>db_expires := (db_expires s)(key := None)\<rparr>, db_expires s key \<noteq> None)"

definition setExpire :: "key \<Rightarrow> int \<Rightarrow> ('o, 'q) server \<Rightarrow> ('o, 'q) server option" where
  "setExpire key when s = do {
     c_assert (dbFind s key \<noteq> None);
     Some (s\<lparr>db_expires := (db_expires s)(key \<mapsto> when)\<rparr>)
   }"

definition getExpire :: "('o, 'q) server \<Rightarrow> key \<Rightarrow> int" where
  "getExpire s key = (case db_expires s key of None \<Rightarrow> -1 | Some when \<Rightarrow> when)"

definition keyIsExpired :: "('o, 'q) server \<Rightarrow> key \<Rightarrow> bool" where
  "keyIsExpired s key =
     (if loading s then False
      else let when = getExpire s key in
        if when < 0 then False
        else mstime s > when)"

definition dbGenericDelete :: "key \<Rightarrow> ('o, 'q) server \<Rightarrow> ('o, 'q) server \<times> bool" where
  "dbGenericDelete key s =
     (case dbFind s key of
        Some val \<Rightarrow> (s\<lparr>db_expires := (db_expires s)(key := None), db_keys := (db_keys s)(key := None)\<rparr>, True)
      | None \<Rightarrow> (s, False))"

definition dbDelete :: "key \<Rightarrow> ('o, 'q) server \<Rightarrow> ('o, 'q) server \<times> bool" where
  "dbDelete key s = dbGenericDelete key s"

definition propagateDeletion :: "key \<Rightarrow> ('o, 'q) server \<Rightarrow> ('o, 'q) server" where
  "propagateDeletion key s = s\<lparr>also_propagate := also_propagate s @ [key]\<rparr>"

definition deleteExpiredKeyAndPropagate :: "key \<Rightarrow> ('o, 'q) server \<Rightarrow> ('o, 'q) server" where
  "deleteExpiredKeyAndPropagate key s = (
     let s = fst (dbGenericDelete key s);
         s = signalModifiedKey key s;
         s = propagateDeletion key s
     in s\<lparr>stat_expiredkeys := stat_expiredkeys s + 1\<rparr>)"

datatype keyStatus = KEY_VALID | KEY_EXPIRED | KEY_DELETED

definition expireIfNeeded :: "key \<Rightarrow> bool \<Rightarrow> bool \<Rightarrow> ('o, 'q) server \<Rightarrow> ('o, 'q) server \<times> keyStatus" where
  "expireIfNeeded key force_delete avoid_delete s =
     (if lazy_expire_disabled s then (s, KEY_VALID)
      else if \<not> keyIsExpired s key then (s, KEY_VALID)
      else if masterhost s \<and> cl_master (clients s (current_client s)) then (s, KEY_VALID)
      else if masterhost s \<and> \<not> force_delete then (s, KEY_EXPIRED)
      else if avoid_delete then (s, KEY_EXPIRED)
      else if expire_paused s then (s, KEY_EXPIRED)
      else (deleteExpiredKeyAndPropagate key s, KEY_DELETED))"

section \<open>Lookup, addition, replacement\<close>

definition lookupKey :: "key \<Rightarrow> bool \<Rightarrow> bool \<Rightarrow> ('o, 'q) server \<Rightarrow> ('o, 'q) server \<times> 'o robj option" where
  "lookupKey key write noexpire s =
     (case dbFind s key of
        None \<Rightarrow> (s, None)
      | Some val \<Rightarrow>
          let is_ro_replica = masterhost s \<and> repl_slave_ro s;
              (s, status) = expireIfNeeded key (write \<and> \<not> is_ro_replica) noexpire s
          in if status \<noteq> KEY_VALID then (s, None) else (s, Some val))"

definition lookupKeyRead :: "key \<Rightarrow> ('o, 'q) server \<Rightarrow> ('o, 'q) server \<times> 'o robj option" where
  "lookupKeyRead key s = lookupKey key False False s"

definition lookupKeyWrite :: "key \<Rightarrow> ('o, 'q) server \<Rightarrow> ('o, 'q) server \<times> 'o robj option" where
  "lookupKeyWrite key s = lookupKey key True False s"

definition dbAdd :: "key \<Rightarrow> 'o robj \<Rightarrow> ('o, 'q) server \<Rightarrow> ('o, 'q) server option" where
  "dbAdd key val s = do {
     c_assert (dbFind s key = None);
     Some (s\<lparr>db_keys := (db_keys s)(key \<mapsto> val)\<rparr>)
   }"

definition dbSetValue :: "key \<Rightarrow> 'o robj \<Rightarrow> ('o, 'q) server \<Rightarrow> ('o, 'q) server option" where
  "dbSetValue key val s = do {
     c_assert (dbFind s key \<noteq> None);
     Some (s\<lparr>db_keys := (db_keys s)(key \<mapsto> val)\<rparr>)
   }"

text \<open>\<open>setKey\<close> with flags \<open>0\<close>.\<close>

definition setKey :: "key \<Rightarrow> 'o robj \<Rightarrow> ('o, 'q) server \<Rightarrow> ('o, 'q) server option" where
  "setKey key val s = do {
     let (s, found) = lookupKeyWrite key s;
     s \<leftarrow> (if found = None then dbAdd key val s else dbSetValue key val s);
     let (s, _) = removeExpire key s;
     Some (signalModifiedKey key s)
   }"

section \<open>Commands on keys\<close>

datatype reply_error =
    WRONGTYPE | NOKEY | SYNTAX | NOT_AN_INTEGER | NUMKEYS_RANGE | NUMKEYS_ARGS | LIMIT_RANGE
  | INVALID_EXPIRE | INCOMPATIBLE_OPTIONS | BUSYKEY | INVALID_TTL | BAD_PAYLOAD
  | NESTED_MULTI | WITHOUT_MULTI | WATCH_IN_MULTI | EXECABORT | NOPERM | REJECTED

datatype reply =
    RInt int | RBulk "byte list" | RArray nat | RSetLen nat | RNull | RNullArray | ROk | RQueued | RErr reply_error

definition add_dirty :: "int \<Rightarrow> ('o, 'q) server \<Rightarrow> ('o, 'q) server" where
  "add_dirty n s = s\<lparr>dirty := dirty s + n\<rparr>"

fun del_loop :: "key list \<Rightarrow> ('o, 'q) server \<Rightarrow> int \<Rightarrow> ('o, 'q) server \<times> int" where
  "del_loop [] s numdel = (s, numdel)"
| "del_loop (key # keys) s numdel = (
     case expireIfNeeded key False False s of (s, status) \<Rightarrow>
       if status = KEY_DELETED then del_loop keys s numdel
       else case dbGenericDelete key s of (s, deleted) \<Rightarrow>
         if deleted then del_loop keys (add_dirty 1 (signalModifiedKey key s)) (numdel + 1)
         else del_loop keys s numdel)"

definition delGenericCommand :: "key list \<Rightarrow> ('o, 'q) server \<Rightarrow> (('o, 'q) server \<times> reply list) option" where
  "delGenericCommand argv s = (case del_loop argv s 0 of (s, numdel) \<Rightarrow> Some (s, [RInt numdel]))"

fun exists_loop :: "key list \<Rightarrow> ('o, 'q) server \<Rightarrow> int \<Rightarrow> ('o, 'q) server \<times> int" where
  "exists_loop [] s cnt = (s, cnt)"
| "exists_loop (key # keys) s cnt = (
     case lookupKey key False False s of (s, v) \<Rightarrow> exists_loop keys s (if v \<noteq> None then cnt + 1 else cnt))"

definition existsCommand :: "key list \<Rightarrow> ('o, 'q) server \<Rightarrow> (('o, 'q) server \<times> reply list) option" where
  "existsCommand argv s = (case exists_loop argv s 0 of (s, cnt) \<Rightarrow> Some (s, [RInt cnt]))"

definition renameGenericCommand :: "key \<Rightarrow> key \<Rightarrow> bool \<Rightarrow> ('o, 'q) server \<Rightarrow> (('o, 'q) server \<times> reply list) option" where
  "renameGenericCommand src dst nx s = do {
     let samekey = (src = dst);
     let (s, v) = lookupKeyWrite src s;
     (case v of
        None \<Rightarrow> Some (s, [RErr NOKEY])
      | Some val \<Rightarrow>
          if samekey then Some (s, [if nx then RInt 0 else ROk])
          else do {
            let expire = getExpire s src;
            let (s, d) = lookupKeyWrite dst s;
            if d \<noteq> None \<and> nx then Some (s, [RInt 0])
            else do {
              let s = (if d \<noteq> None then fst (dbDelete dst s) else s);
              s \<leftarrow> dbAdd dst val s;
              s \<leftarrow> (if expire \<noteq> -1 then setExpire dst expire s else Some s);
              let s = fst (dbDelete src s);
              let s = signalModifiedKey src s;
              let s = signalModifiedKey dst s;
              Some (add_dirty 1 s, [if nx then RInt 1 else ROk])
            }
          })
   }"

end
