(* ===== verification/Watch.thy ===== *)
theory Watch
  imports Keyspace
begin

text \<open>
  The watched keys stay consistent: a client has a key in its list exactly when it has one node in
  the list of the key. Touching a key marks and unlinks exactly the clients that watch it, as long as no client
  watches a key that was expired already. Each operation of the keyspace touches every key whose value or expire time it
  changes.
\<close>

section \<open>Consistency of the two lists\<close>

definition watch_inv :: "('o, 'q) server \<Rightarrow> bool" where
  "watch_inv s \<longleftrightarrow>
     (\<forall>c k. k \<in> set (cl_watched_keys (clients s c)) \<longleftrightarrow> c \<in> wk_client ` set (db_watched_keys s k)) \<and>
     (\<forall>k. distinct (map wk_client (db_watched_keys s k))) \<and>
     (\<forall>c. distinct (cl_watched_keys (clients s c)))"

definition none_expired :: "('o, 'q) server \<Rightarrow> bool" where
  "none_expired s \<longleftrightarrow> (\<forall>k. \<forall>wk \<in> set (db_watched_keys s k). \<not> wk_expired wk)"

definition watch_ok :: "('o, 'q) server \<Rightarrow> bool" where
  "watch_ok s \<longleftrightarrow> watch_inv s \<and> none_expired s"

lemma fold_unlink:
  "fold (unlink_watched c) ks s = s\<lparr>db_watched_keys := \<lambda>k. if k \<in> set ks
     then filter (\<lambda>wk. wk_client wk \<noteq> c) (db_watched_keys s k) else db_watched_keys s k\<rparr>"
proof (induction ks arbitrary: s)
  case (Cons k ks)
  let ?f = "\<lambda>s k'. filter (\<lambda>wk. wk_client wk \<noteq> c) (db_watched_keys s k')"
  have "(\<lambda>k'. if k' \<in> set ks then ?f (unlink_watched c k s) k' else db_watched_keys (unlink_watched c k s) k') =
      (\<lambda>k'. if k' \<in> set (k # ks) then ?f s k' else db_watched_keys s k')"
    by (auto simp: unlink_watched_def fun_eq_iff)
  moreover have "(unlink_watched c k s)\<lparr>db_watched_keys := F\<rparr> = s\<lparr>db_watched_keys := F\<rparr>" for F
    by (simp add: unlink_watched_def)
  ultimately show ?case using Cons[of "unlink_watched c k s"] by simp
qed simp

text \<open>Of a consistent state, unwatching all keys of a client removes it from every list.\<close>

lemma unwatchAllKeys_eq:
  assumes "watch_inv s"
  shows "\<exists>n. unwatchAllKeys c s = s\<lparr>db_watched_keys := \<lambda>k. filter (\<lambda>wk. wk_client wk \<noteq> c) (db_watched_keys s k),
     clients := (clients s)(c := (clients s c)\<lparr>cl_watched_keys := []\<rparr>), watching_clients := n\<rparr>"
proof -
  have un: "filter (\<lambda>wk. wk_client wk \<noteq> c) (db_watched_keys s k) = db_watched_keys s k"
    if "k \<notin> set (cl_watched_keys (clients s c))" for k
    using that assms by (auto simp: watch_inv_def filter_id_conv)
  show ?thesis
  proof (cases "cl_watched_keys (clients s c) = []")
    case True
    then have "(clients s)(c := (clients s c)\<lparr>cl_watched_keys := []\<rparr>) = clients s" by (auto simp: fun_eq_iff)
    then show ?thesis using True un by (intro exI[of _ "watching_clients s"]) (simp add: unwatchAllKeys_def)
  next
    case False
    have "(\<lambda>k. if k \<in> set (cl_watched_keys (clients s c)) then filter (\<lambda>wk. wk_client wk \<noteq> c) (db_watched_keys s k)
        else db_watched_keys s k) = (\<lambda>k. filter (\<lambda>wk. wk_client wk \<noteq> c) (db_watched_keys s k))"
      using un by auto
    then show ?thesis using False by (auto simp: unwatchAllKeys_def fold_unlink upd_client_def Let_def)
  qed
qed

text \<open>
  The clients that watch a key of \<open>K\<close> are marked and watch nothing any more; the others are as before.
\<close>

definition touched :: "key set \<Rightarrow> ('o, 'q) server \<Rightarrow> ('o, 'q) server \<Rightarrow> bool" where
  "touched K s s' \<longleftrightarrow> watch_ok s' \<and>
     (\<forall>c. clients s' c = (if set (cl_watched_keys (clients s c)) \<inter> K \<noteq> {}
        then (clients s c)\<lparr>cl_dirty_cas := True, cl_watched_keys := []\<rparr> else clients s c))"

lemma touched_trans: "touched K s s' \<Longrightarrow> touched K' s' s'' \<Longrightarrow> touched (K \<union> K') s s''"
  by (auto simp: touched_def)

lemma touched_refl:
  "watch_ok s \<Longrightarrow> db_watched_keys s' = db_watched_keys s \<Longrightarrow> clients s' = clients s \<Longrightarrow> touched {} s s'"
  by (simp add: touched_def watch_ok_def watch_inv_def none_expired_def)

lemma touched_keys: "touched {} s s' \<Longrightarrow> clients s' = clients s"
  by (auto simp: touched_def fun_eq_iff)

lemma touched_ok: "touched K s s' \<Longrightarrow> watch_ok s'"
  by (simp add: touched_def)

text \<open>What no touching changes.\<close>

definition same_data :: "('o, 'q) server \<Rightarrow> ('o, 'q) server \<Rightarrow> bool" where
  "same_data s s' \<longleftrightarrow> db_keys s' = db_keys s \<and> db_expires s' = db_expires s \<and> current_client s' = current_client s \<and>
     dirty s' = dirty s \<and> also_propagate s' = also_propagate s \<and> stat_expiredkeys s' = stat_expiredkeys s \<and>
     mstime s' = mstime s \<and> loading s' = loading s \<and>
     lazy_expire_disabled s' = lazy_expire_disabled s \<and> masterhost s' = masterhost s \<and> repl_slave_ro s' = repl_slave_ro s \<and>
     expire_paused s' = expire_paused s"

lemma same_data_refl [simp]: "same_data s s"
  by (simp add: same_data_def)

lemma same_data_trans: "same_data s s' \<Longrightarrow> same_data s' s'' \<Longrightarrow> same_data s s''"
  by (simp add: same_data_def)

lemma mark_client_ok:
  fixes c :: nat
  assumes "watch_ok s"
  defines "s' \<equiv> unwatchAllKeys c (upd_client c (\<lambda>cl. cl\<lparr>cl_dirty_cas := True\<rparr>) s)"
  shows "watch_ok s'" "same_data s s'"
    "clients s' = (clients s)(c := (clients s c)\<lparr>cl_dirty_cas := True, cl_watched_keys := []\<rparr>)"
    "db_watched_keys s' = (\<lambda>k. filter (\<lambda>wk. wk_client wk \<noteq> c) (db_watched_keys s k))"
proof -
  let ?s = "upd_client c (\<lambda>cl. cl\<lparr>cl_dirty_cas := True\<rparr>) s"
  have inv: "watch_inv ?s" using assms(1) by (auto simp: watch_ok_def watch_inv_def upd_client_def)
  from unwatchAllKeys_eq[OF inv, of c] obtain n where
    eq: "s' = ?s\<lparr>db_watched_keys := \<lambda>k. filter (\<lambda>wk. wk_client wk \<noteq> c) (db_watched_keys ?s k),
      clients := (clients ?s)(c := (clients ?s c)\<lparr>cl_watched_keys := []\<rparr>), watching_clients := n\<rparr>"
    unfolding s'_def by blast
  show c: "clients s' = (clients s)(c := (clients s c)\<lparr>cl_dirty_cas := True, cl_watched_keys := []\<rparr>)"
    and w: "db_watched_keys s' = (\<lambda>k. filter (\<lambda>wk. wk_client wk \<noteq> c) (db_watched_keys s k))"
    by (simp_all add: eq upd_client_def)
  show "same_data s s'" by (simp add: eq upd_client_def same_data_def)
  have w0: "\<And>c k. k \<in> set (cl_watched_keys (clients s c)) \<longleftrightarrow> c \<in> wk_client ` set (db_watched_keys s k)"
    "\<And>k. distinct (map wk_client (db_watched_keys s k))" "\<And>c. distinct (cl_watched_keys (clients s c))"
    "none_expired s"
    using assms(1) by (simp_all add: watch_ok_def watch_inv_def)
  show "watch_ok s'"
    using w0(3,4) by (auto simp: watch_ok_def watch_inv_def none_expired_def c w w0(1) distinct_map_filter[OF w0(2)])
qed

lemma touch_loop_ok:
  "watch_ok s \<Longrightarrow> \<forall>wk \<in> set wks. \<not> wk_expired wk \<Longrightarrow>
    watch_ok (touch_loop key wks s) \<and> same_data s (touch_loop key wks s) \<and>
    (\<forall>c. clients (touch_loop key wks s) c = (if c \<in> wk_client ` set wks
       then (clients s c)\<lparr>cl_dirty_cas := True, cl_watched_keys := []\<rparr> else clients s c))"
proof (induction wks arbitrary: s)
  case (Cons wk wks)
  let ?s = "unwatchAllKeys (wk_client wk) (upd_client (wk_client wk) (\<lambda>cl. cl\<lparr>cl_dirty_cas := True\<rparr>) s)"
  note m = mark_client_ok[OF Cons.prems(1), of "wk_client wk"]
  have "touch_loop key (wk # wks) s = touch_loop key wks ?s" using Cons.prems(2) by simp
  with Cons.IH[OF m(1)] Cons.prems(2) m(2,3) show ?case by (auto intro: same_data_trans)
qed simp

lemma signalModifiedKey_ok:
  assumes "watch_ok s"
  shows "touched {key} s (signalModifiedKey key s)" "same_data s (signalModifiedKey key s)"
proof -
  have "\<forall>wk \<in> set (db_watched_keys s key). \<not> wk_expired wk" using assms by (auto simp: watch_ok_def none_expired_def)
  note t = touch_loop_ok[OF assms this, of key]
  have "c \<in> wk_client ` set (db_watched_keys s key) \<longleftrightarrow> key \<in> set (cl_watched_keys (clients s c))" for c
    using assms by (auto simp: watch_ok_def watch_inv_def)
  with t show "touched {key} s (signalModifiedKey key s)" "same_data s (signalModifiedKey key s)"
    by (auto simp: touched_def signalModifiedKey_def touchWatchedKey_def)
qed

section \<open>Operations of the keyspace\<close>

text \<open>The parts of the state that only the environment changes.\<close>

definition same_env :: "('o, 'q) server \<Rightarrow> ('o, 'q) server \<Rightarrow> bool" where
  "same_env s s' \<longleftrightarrow> current_client s' = current_client s \<and> mstime s' = mstime s \<and> loading s' = loading s \<and>
     lazy_expire_disabled s' = lazy_expire_disabled s \<and> masterhost s' = masterhost s \<and> repl_slave_ro s' = repl_slave_ro s \<and>
     expire_paused s' = expire_paused s"

lemma same_env_refl [simp]: "same_env s s"
  by (simp add: same_env_def)

lemma same_env_trans: "same_env s s' \<Longrightarrow> same_env s' s'' \<Longrightarrow> same_env s s''"
  by (simp add: same_env_def)

lemma same_data_env: "same_data s s' \<Longrightarrow> same_env s s'"
  by (simp add: same_data_def same_env_def)

text \<open>An operation that changes at most the keys in \<open>K\<close>, and touches them all.\<close>

definition effect :: "key set \<Rightarrow> ('o, 'q) server \<Rightarrow> ('o, 'q) server \<Rightarrow> bool" where
  "effect K s s' \<longleftrightarrow> touched K s s' \<and> same_env s s' \<and>
     (\<forall>k. k \<notin> K \<longrightarrow> db_keys s' k = db_keys s k \<and> db_expires s' k = db_expires s k)"

lemma effect_refl: "watch_ok s \<Longrightarrow> effect {} s s"
  by (simp add: effect_def touched_refl)

lemma effect_trans: "effect K s s' \<Longrightarrow> effect K' s' s'' \<Longrightarrow> effect (K \<union> K') s s''"
  using touched_trans[of K s s' K' s''] same_env_trans[of s s' s''] by (simp add: effect_def)

lemma effect_ok: "effect K s s' \<Longrightarrow> watch_ok s'"
  unfolding effect_def using touched_ok by blast

text \<open>A change of the data at one key, followed by touching it.\<close>

lemma change_touch:
  assumes ok: "watch_ok s" and "db_watched_keys s1 = db_watched_keys s" "clients s1 = clients s" "same_env s s1"
    and data: "\<And>k. k \<noteq> key \<Longrightarrow> db_keys s1 k = db_keys s k \<and> db_expires s1 k = db_expires s k"
  shows "effect {key} s (signalModifiedKey key s1)" "same_data s1 (signalModifiedKey key s1)"
proof -
  have t: "touched {} s s1" by (rule touched_refl) (use assms in auto)
  note m = signalModifiedKey_ok[OF touched_ok[OF t], of key]
  show "same_data s1 (signalModifiedKey key s1)" by (rule m(2))
  have "touched {key} s (signalModifiedKey key s1)" using touched_trans[OF t m(1)] by simp
  moreover have "same_env s (signalModifiedKey key s1)" by (rule same_env_trans[OF assms(4) same_data_env[OF m(2)]])
  moreover have "db_keys (signalModifiedKey key s1) = db_keys s1" "db_expires (signalModifiedKey key s1) = db_expires s1"
    using m(2) by (simp_all add: same_data_def)
  ultimately show "effect {key} s (signalModifiedKey key s1)" using data by (simp add: effect_def)
qed

lemma watch_ok_cong:
  "db_watched_keys s' = db_watched_keys s \<Longrightarrow> clients s' = clients s \<Longrightarrow> watch_ok s' \<longleftrightarrow> watch_ok s"
  by (simp add: watch_ok_def watch_inv_def none_expired_def)

lemma effect_cong:
  assumes "effect K s s'" "db_watched_keys s'' = db_watched_keys s'" "clients s'' = clients s'" "same_env s' s''"
    "db_keys s'' = db_keys s'" "db_expires s'' = db_expires s'"
  shows "effect K s s''"
proof -
  have "touched K s s''" using assms(1) watch_ok_cong[OF assms(2,3)] unfolding effect_def touched_def assms(3) by simp
  then show ?thesis using assms(1,4) same_env_trans unfolding effect_def assms(5,6) by blast
qed

lemma effect_counters:
  assumes "effect K s s'"
  shows "effect K s (s'\<lparr>dirty := n\<rparr>)" "effect K s (s'\<lparr>also_propagate := ps\<rparr>)" "effect K s (s'\<lparr>stat_expiredkeys := n\<rparr>)"
  by (rule effect_cong[OF assms]; simp add: same_env_def)+

lemma effect_add_dirty: "effect K s s' \<Longrightarrow> effect K s (add_dirty n s')"
  by (simp add: add_dirty_def effect_counters)

lemma deleteExpired_ok:
  assumes "watch_ok s"
  shows "effect {key} s (deleteExpiredKeyAndPropagate key s)" "db_keys (deleteExpiredKeyAndPropagate key s) key = None"
    "db_keys s key \<noteq> None \<Longrightarrow> db_expires (deleteExpiredKeyAndPropagate key s) key = None"
proof -
  let ?s = "fst (dbGenericDelete key s)"
  have *: "db_watched_keys ?s = db_watched_keys s" "clients ?s = clients s" "same_env s ?s" "db_keys ?s key = None"
    "\<And>k. k \<noteq> key \<Longrightarrow> db_keys ?s k = db_keys s k \<and> db_expires ?s k = db_expires s k"
    by (auto simp: dbGenericDelete_def dbFind_def same_env_def split: option.splits)
  note m = change_touch[OF assms *(1-3,5)]
  show "effect {key} s (deleteExpiredKeyAndPropagate key s)"
    using m(1) by (auto simp: deleteExpiredKeyAndPropagate_def propagateDeletion_def Let_def intro!: effect_counters)
  show "db_keys (deleteExpiredKeyAndPropagate key s) key = None"
    using m(2) *(4) by (simp add: deleteExpiredKeyAndPropagate_def propagateDeletion_def Let_def same_data_def)
  assume "db_keys s key \<noteq> None"
  then have "db_expires ?s key = None" by (auto simp: dbGenericDelete_def dbFind_def)
  then show "db_expires (deleteExpiredKeyAndPropagate key s) key = None"
    using m(2) by (simp add: deleteExpiredKeyAndPropagate_def propagateDeletion_def Let_def same_data_def)
qed

text \<open>
  Writes are accepted: a replica that is read only takes them from its master alone, and none are processed while
  expiration is paused.
\<close>

definition can_write :: "('o, 'q) server \<Rightarrow> bool" where
  "can_write s \<longleftrightarrow> \<not> expire_paused s \<and> (masterhost s \<and> repl_slave_ro s \<longrightarrow> cl_master (clients s (current_client s)))"

text \<open>A lookup deletes the key if it must, and otherwise changes nothing.\<close>

lemma expireIfNeeded_ok:
  assumes ok: "watch_ok s" and e: "expireIfNeeded key f a s = (s', st)"
  shows "st = KEY_DELETED \<and> effect {key} s s' \<and> db_keys s' key = None \<and> (db_keys s key \<noteq> None \<longrightarrow> db_expires s' key = None) \<or>
    st \<noteq> KEY_DELETED \<and> s' = s"
  using e deleteExpired_ok[OF ok, of key] by (auto simp: expireIfNeeded_def split: if_splits)

text \<open>A lookup that deletes the key.\<close>

definition lookup_deletes :: "key \<Rightarrow> ('o, 'q) server \<Rightarrow> ('o, 'q) server \<Rightarrow> bool" where
  "lookup_deletes key s s' \<longleftrightarrow> effect {key} s s' \<and> db_keys s key \<noteq> None \<and> db_keys s' key = None \<and> db_expires s' key = None"

lemma lookupKey_ok:
  assumes ok: "watch_ok s" and l: "lookupKey key w n s = (s', v)"
  shows "v = None \<and> lookup_deletes key s s' \<or> s' = s \<and> (v = None \<or> v = db_keys s key)"
proof (cases "dbFind s key")
  case None
  then show ?thesis using l by (auto simp: lookupKey_def)
next
  case (Some val)
  obtain s1 st where e: "expireIfNeeded key (w \<and> \<not> (masterhost s \<and> repl_slave_ro s)) n s = (s1, st)" by fastforce
  then have "s' = s1" "v = (if st \<noteq> KEY_VALID then None else Some val)"
    using l Some by (auto simp: lookupKey_def Let_def split: if_splits)
  then show ?thesis using expireIfNeeded_ok[OF ok e] Some by (auto simp: dbFind_def lookup_deletes_def split: if_splits)
qed

lemma lookupKeyWrite_ok:
  assumes ok: "watch_ok s" and w: "can_write s" and l: "lookupKeyWrite key s = (s', v)"
  shows "(lookup_deletes key s s' \<or> s' = s) \<and> v = db_keys s' key"
proof (cases "dbFind s key")
  case None
  then show ?thesis using l by (auto simp: lookupKeyWrite_def lookupKey_def dbFind_def)
next
  case (Some val)
  obtain s1 st where e: "expireIfNeeded key (\<not> (masterhost s \<and> repl_slave_ro s)) False s = (s1, st)" by fastforce
  have st: "st \<noteq> KEY_EXPIRED" using e w by (auto simp: expireIfNeeded_def can_write_def split: if_splits)
  have "s' = s1" "v = (if st \<noteq> KEY_VALID then None else Some val)"
    using l Some e by (auto simp: lookupKeyWrite_def lookupKey_def Let_def split: if_splits)
  then show ?thesis using expireIfNeeded_ok[OF ok e] Some st by (cases st) (auto simp: dbFind_def lookup_deletes_def)
qed

lemma can_write_effect: "effect K s s' \<Longrightarrow> can_write s' \<longleftrightarrow> can_write s"
  by (auto simp: can_write_def effect_def same_env_def touched_def split: if_splits)

end
