(* ===== verification/Set_Commands.thy ===== *)
theory Set_Commands
  imports Watch
begin

text \<open>
  The set commands of \<open>t_set.c\<close> on the keyspace. A set object is changed in place: the
  command stores the changed object back under its key. The pointers \<open>sets[j]\<close> of the commands on
  several sets are the keys of the sets, \<open>NULL\<close> is \<open>None\<close>. The comparison functions for \<open>qsort\<close> read
  the sizes of the sets; the function \<open>qsort\<close> of the C library is an argument.
\<close>

section \<open>Access to set objects\<close>

definition set_at_key :: "('o, 'q) server \<Rightarrow> key \<Rightarrow> setobj option" where
  "set_at_key s k = (case db_keys s k of Some (OBJ_SET ob) \<Rightarrow> Some ob | _ \<Rightarrow> None)"

definition store_set :: "key \<Rightarrow> setobj \<Rightarrow> ('o, 'q) server \<Rightarrow> ('o, 'q) server" where
  "store_set k ob s = s\<lparr>db_keys := (db_keys s)(k \<mapsto> OBJ_SET ob)\<rparr>"

text \<open>\<open>checkType\<close> against \<open>OBJ_SET\<close>: whether the error is replied.\<close>

definition checkType_set :: "'o robj option \<Rightarrow> bool" where
  "checkType_set v = (case v of Some (OBJ_OTHER _) \<Rightarrow> True | _ \<Rightarrow> False)"

section \<open>Commands on one set\<close>

fun sadd_loop :: "set_env \<Rightarrow> setobj \<Rightarrow> byte list list \<Rightarrow> int \<Rightarrow> (setobj \<times> int) option" where
  "sadd_loop env ob [] added = Some (ob, added)"
| "sadd_loop env ob (x # xs) added = do {
     (ob, b) \<leftarrow> setTypeAdd env ob x;
     sadd_loop env ob xs (if b then added + 1 else added)
   }"

definition saddCommand :: "set_env \<Rightarrow> key \<Rightarrow> byte list list \<Rightarrow> ('o, 'q) server \<Rightarrow> (('o, 'q) server \<times> reply list) option" where
  "saddCommand env key args s = do {
     let (s, v) = lookupKeyWrite key s;
     if checkType_set v then Some (s, [RErr WRONGTYPE])
     else do {
       s \<leftarrow> (case v of
           None \<Rightarrow> do {
             ob \<leftarrow> setTypeCreate env (args ! 0) (length args);
             dbAdd key (OBJ_SET ob) s
           }
         | Some _ \<Rightarrow> do {
             ob \<leftarrow> set_at_key s key;
             ob \<leftarrow> setTypeMaybeConvert env ob (length args);
             Some (store_set key ob s)
           });
       ob \<leftarrow> set_at_key s key;
       (ob, added) \<leftarrow> sadd_loop env ob args 0;
       let s = store_set key ob s;
       let s = (if added \<noteq> 0 then signalModifiedKey key s else s);
       Some (add_dirty added s, [RInt added])
     }
   }"

text \<open>The loop of \<open>SREM\<close>: the set, the number of deletions, and whether the set became empty.\<close>

fun srem_loop :: "set_env \<Rightarrow> setobj \<Rightarrow> byte list list \<Rightarrow> int \<Rightarrow> (setobj \<times> int \<times> bool) option" where
  "srem_loop env ob [] deleted = Some (ob, deleted, False)"
| "srem_loop env ob (x # xs) deleted = do {
     (ob, b) \<leftarrow> setTypeRemove env ob x;
     if b then do {
       (ob, n) \<leftarrow> setTypeSize ob;
       if n = 0 then Some (ob, deleted + 1, True)
       else srem_loop env ob xs (deleted + 1)
     }
     else srem_loop env ob xs deleted
   }"

definition sremCommand :: "set_env \<Rightarrow> key \<Rightarrow> byte list list \<Rightarrow> ('o, 'q) server \<Rightarrow> (('o, 'q) server \<times> reply list) option" where
  "sremCommand env key args s = do {
     let (s, v) = lookupKeyWrite key s;
     if v = None then Some (s, [RInt 0])
     else if checkType_set v then Some (s, [RErr WRONGTYPE])
     else do {
       ob \<leftarrow> set_at_key s key;
       (ob, deleted, keyremoved) \<leftarrow> srem_loop env ob args 0;
       let s = store_set key ob s;
       let s = (if keyremoved then fst (dbDelete key s) else s);
       let s = (if deleted \<noteq> 0 then add_dirty deleted (signalModifiedKey key s) else s);
       Some (s, [RInt deleted])
     }
   }"

text \<open>The second half of \<open>SMOVE\<close>, once the element is removed from the source.\<close>

definition smove_add :: "set_env \<Rightarrow> key \<Rightarrow> key \<Rightarrow> byte list \<Rightarrow> 'o robj option \<Rightarrow> ('o, 'q) server \<Rightarrow>
    (('o, 'q) server \<times> reply list) option" where
  "smove_add env srckey dstkey ele dstset s = do {
     s \<leftarrow> (if dstset = None then do { ob \<leftarrow> setTypeCreate env ele 1; dbAdd dstkey (OBJ_SET ob) s } else Some s);
     let s = signalModifiedKey srckey s;
     let s = add_dirty 1 s;
     dst \<leftarrow> set_at_key s dstkey;
     (dst, added) \<leftarrow> setTypeAdd env dst ele;
     let s = store_set dstkey dst s;
     let s = (if added then signalModifiedKey dstkey (add_dirty 1 s) else s);
     Some (s, [RInt 1])
   }"

definition smoveCommand :: "set_env \<Rightarrow> key \<Rightarrow> key \<Rightarrow> byte list \<Rightarrow> ('o, 'q) server \<Rightarrow> (('o, 'q) server \<times> reply list) option" where
  "smoveCommand env srckey dstkey ele s = do {
     let (s, srcset) = lookupKeyWrite srckey s;
     let (s, dstset) = lookupKeyWrite dstkey s;
     if srcset = None then Some (s, [RInt 0])
     else if checkType_set srcset \<or> checkType_set dstset then Some (s, [RErr WRONGTYPE])
     else do {
       src \<leftarrow> set_at_key s srckey;
       if srckey = dstkey then do {
         (src, b) \<leftarrow> setTypeIsMember env src ele;
         Some (store_set srckey src s, [RInt (if b then 1 else 0)])
       }
       else do {
         (src, removed) \<leftarrow> setTypeRemove env src ele;
         let s = store_set srckey src s;
         if \<not> removed then Some (s, [RInt 0])
         else do {
           (src, n) \<leftarrow> setTypeSize src;
           let s = store_set srckey src s;
           let s = (if n = 0 then fst (dbDelete srckey s) else s);
           smove_add env srckey dstkey ele dstset s
         }
       }
     }
   }"

definition sismemberCommand :: "set_env \<Rightarrow> key \<Rightarrow> byte list \<Rightarrow> ('o, 'q) server \<Rightarrow> (('o, 'q) server \<times> reply list) option" where
  "sismemberCommand env key ele s = do {
     let (s, v) = lookupKeyRead key s;
     if v = None then Some (s, [RInt 0])
     else if checkType_set v then Some (s, [RErr WRONGTYPE])
     else do {
       ob \<leftarrow> set_at_key s key;
       (ob, b) \<leftarrow> setTypeIsMember env ob ele;
       Some (store_set key ob s, [RInt (if b then 1 else 0)])
     }
   }"

fun smismember_loop :: "set_env \<Rightarrow> setobj \<Rightarrow> byte list list \<Rightarrow> (setobj \<times> reply list) option" where
  "smismember_loop env ob [] = Some (ob, [])"
| "smismember_loop env ob (x # xs) = do {
     (ob, b) \<leftarrow> setTypeIsMember env ob x;
     (ob, rs) \<leftarrow> smismember_loop env ob xs;
     Some (ob, RInt (if b then 1 else 0) # rs)
   }"

definition smismemberCommand :: "set_env \<Rightarrow> key \<Rightarrow> byte list list \<Rightarrow> ('o, 'q) server \<Rightarrow> (('o, 'q) server \<times> reply list) option" where
  "smismemberCommand env key args s = do {
     let (s, v) = lookupKeyRead key s;
     if v \<noteq> None \<and> checkType_set v then Some (s, [RErr WRONGTYPE])
     else if v = None then Some (s, RArray (length args) # map (\<lambda>_. RInt 0) args)
     else do {
       ob \<leftarrow> set_at_key s key;
       (ob, rs) \<leftarrow> smismember_loop env ob args;
       Some (store_set key ob s, RArray (length args) # rs)
     }
   }"

definition scardCommand :: "key \<Rightarrow> ('o, 'q) server \<Rightarrow> (('o, 'q) server \<times> reply list) option" where
  "scardCommand key s = do {
     let (s, v) = lookupKeyRead key s;
     if v = None then Some (s, [RInt 0])
     else if checkType_set v then Some (s, [RErr WRONGTYPE])
     else do {
       ob \<leftarrow> set_at_key s key;
       (ob, n) \<leftarrow> setTypeSize ob;
       Some (store_set key ob s, [RInt (int n)])
     }
   }"

section \<open>Commands on several sets\<close>

text \<open>The lookups: the keys of the sets, \<open>None\<close> for a missing one, or no list for a wrong type.\<close>

fun lookup_sets :: "key list \<Rightarrow> ('o, 'q) server \<Rightarrow> ('o, 'q) server \<times> key option list option" where
  "lookup_sets [] s = (s, Some [])"
| "lookup_sets (k # ks) s = (
     case lookupKeyRead k s of (s, v) \<Rightarrow>
       if checkType_set v then (s, None)
       else case lookup_sets ks s of (s, sets) \<Rightarrow>
         (s, map_option (\<lambda>sets. (if v = None then None else Some k) # sets) sets))"

text \<open>The sizes the comparison functions read; a missing set counts \<open>0\<close>.\<close>

fun set_sizes :: "key option list \<Rightarrow> ('o, 'q) server \<Rightarrow> (('o, 'q) server \<times> nat list) option" where
  "set_sizes [] s = Some (s, [])"
| "set_sizes (None # ks) s = do { (s, ns) \<leftarrow> set_sizes ks s; Some (s, 0 # ns) }"
| "set_sizes (Some k # ks) s = do {
     ob \<leftarrow> set_at_key s k;
     (ob, n) \<leftarrow> setTypeSize ob;
     (s, ns) \<leftarrow> set_sizes ks (store_set k ob s);
     Some (s, n # ns)
   }"

type_synonym sized = "nat \<times> key option"

definition qsortCompareSetsByCardinality :: "sized \<Rightarrow> sized \<Rightarrow> int" where
  "qsortCompareSetsByCardinality s1 s2 = (if fst s1 > fst s2 then 1 else if fst s1 < fst s2 then -1 else 0)"

definition qsortCompareSetsByRevCardinality :: "sized \<Rightarrow> sized \<Rightarrow> int" where
  "qsortCompareSetsByRevCardinality s1 s2 =
     (let first = fst s1; second = fst s2 in if first < second then 1 else if first > second then -1 else 0)"

type_synonym qsort_fn = "(sized \<Rightarrow> sized \<Rightarrow> int) \<Rightarrow> sized list \<Rightarrow> sized list"

definition sort_sets :: "qsort_fn \<Rightarrow> (sized \<Rightarrow> sized \<Rightarrow> int) \<Rightarrow> key option list \<Rightarrow> ('o, 'q) server \<Rightarrow>
    (('o, 'q) server \<times> key option list) option" where
  "sort_sets qsort cmp sets s = do {
     (s, ns) \<leftarrow> set_sizes sets s;
     Some (s, map snd (qsort cmp (zip ns sets)))
   }"

definition elem_str :: "lp_value \<Rightarrow> byte list option" where
  "elem_str e = (case e of LP_STR x \<Rightarrow> Some x | LP_INT v \<Rightarrow> None)"

definition elem_ll :: "lp_value \<Rightarrow> int" where
  "elem_ll e = (case e of LP_STR x \<Rightarrow> -123456789 | LP_INT v \<Rightarrow> v)"

text \<open>The bulk reply of an element.\<close>

definition elem_bulk :: "lp_value \<Rightarrow> reply" where
  "elem_bulk e = RBulk (set_element_sds e)"

text \<open>Whether the element is in all the sets, except those that are the first one.\<close>

fun inter_check :: "set_env \<Rightarrow> key \<Rightarrow> key list \<Rightarrow> lp_value \<Rightarrow> ('o, 'q) server \<Rightarrow> (('o, 'q) server \<times> bool) option" where
  "inter_check env k0 [] e s = Some (s, True)"
| "inter_check env k0 (k # ks) e s =
     (if k = k0 then inter_check env k0 ks e s
      else do {
        ob \<leftarrow> set_at_key s k;
        (ob, b) \<leftarrow> setTypeIsMemberAux env ob (elem_str e) (elem_ll e);
        let s = store_set k ob s;
        if b then inter_check env k0 ks e s else Some (s, False)
      })"

record inter_state =
  is_dst :: setobj
  is_only_integers :: bool
  is_cardinality :: nat
  is_bulks :: "reply list"

datatype inter_mode = Inter_Card nat | Inter_Reply | Inter_Store

text \<open>The element is added to the destination set, as an integer when it is one.\<close>

definition inter_store :: "set_env \<Rightarrow> bool \<Rightarrow> lp_value \<Rightarrow> inter_state \<Rightarrow> inter_state option" where
  "inter_store env is_ht e st = do {
     let str = elem_str e;
     let as_int = (if is_ht \<and> is_only_integers st then Option.bind str string2ll else None);
     let only_integers = (if str \<noteq> None \<and> is_only_integers st \<and> as_int = None then False else is_only_integers st);
     let str' = (if as_int \<noteq> None \<and> set_encoding_of (is_dst st) \<noteq> OBJ_ENCODING_HT then None else str);
     let ll = (case as_int of Some v \<Rightarrow> v | None \<Rightarrow> elem_ll e);
     (dst, _) \<leftarrow> setTypeAddAux env (is_dst st) str' ll;
     Some (st\<lparr>is_dst := dst, is_only_integers := only_integers\<rparr>)
   }"

definition inter_body :: "set_env \<Rightarrow> inter_mode \<Rightarrow> bool \<Rightarrow> key \<Rightarrow> key list \<Rightarrow>
    ('o, 'q) server \<times> inter_state \<Rightarrow> lp_value \<Rightarrow> ((('o, 'q) server \<times> inter_state) \<times> bool) option" where
  "inter_body env mode is_ht k0 ks acc e = do {
     let (s, st) = acc;
     (s, all) \<leftarrow> inter_check env k0 ks e s;
     if \<not> all then Some ((s, st), True)
     else (case mode of
         Inter_Card limit \<Rightarrow>
           let n = is_cardinality st + 1 in
           Some ((s, st\<lparr>is_cardinality := n\<rparr>), \<not> (limit \<noteq> 0 \<and> n \<ge> limit))
       | Inter_Reply \<Rightarrow>
           Some ((s, st\<lparr>is_cardinality := is_cardinality st + 1, is_bulks := is_bulks st @ [elem_bulk e]\<rparr>), True)
       | Inter_Store \<Rightarrow> do { st \<leftarrow> inter_store env is_ht e st; Some ((s, st), True) })
   }"

text \<open>Deletion of the destination key when the result is empty.\<close>

definition delete_dst :: "key \<Rightarrow> ('o, 'q) server \<Rightarrow> ('o, 'q) server" where
  "delete_dst dstkey s = (
     case dbDelete dstkey s of (s, deleted) \<Rightarrow>
       if deleted then add_dirty 1 (signalModifiedKey dstkey s) else s)"

definition inter_dst :: "setobj \<Rightarrow> setobj" where
  "inter_dst set0 =
     (case set0 of
        Set_INTSET _ \<Rightarrow> createIntsetObject
      | Set_LISTPACK lp \<Rightarrow> Set_LISTPACK (lpNew (lpBytes lp))
      | Set_HT _ \<Rightarrow> createSetListpackObject)"

definition sinter_finish :: "set_env \<Rightarrow> key \<Rightarrow> setobj \<Rightarrow> bool \<Rightarrow> ('o, 'q) server \<Rightarrow> (('o, 'q) server \<times> reply list) option" where
  "sinter_finish env dstkey dst only_integers s = do {
     (dst, n) \<leftarrow> setTypeSize dst;
     if n > 0 then do {
       dst \<leftarrow> (if only_integers then maybeConvertToIntset env dst else Some dst);
       let dst = (case dst of Set_LISTPACK lp \<Rightarrow> Set_LISTPACK (lpShrinkToFit lp) | _ \<Rightarrow> dst);
       s \<leftarrow> setKey dstkey (OBJ_SET dst) s;
       (dst, n) \<leftarrow> setTypeSize dst;
       let s = store_set dstkey dst s;
       Some (add_dirty 1 s, [RInt (int n)])
     }
     else Some (delete_dst dstkey s, [RInt 0])
   }"

definition sinterGenericCommand :: "set_env \<Rightarrow> qsort_fn \<Rightarrow> key list \<Rightarrow> key option \<Rightarrow> nat option \<Rightarrow>
    ('o, 'q) server \<Rightarrow> (('o, 'q) server \<times> reply list) option" where
  "sinterGenericCommand env qsort setkeys dstkey card_limit s = do {
     let (s, found) = lookup_sets setkeys s;
     (case found of
        None \<Rightarrow> Some (s, [RErr WRONGTYPE])
      | Some sets \<Rightarrow>
          if None \<in> set sets then
            Some (case dstkey of
                Some d \<Rightarrow> (delete_dst d s, [RInt 0])
              | None \<Rightarrow> (s, [if card_limit \<noteq> None then RInt 0 else RSetLen 0]))
          else do {
            (s, sets) \<leftarrow> sort_sets qsort qsortCompareSetsByCardinality sets s;
            let keys = map the sets;
            set0 \<leftarrow> set_at_key s (keys ! 0);
            let mode = (case card_limit of Some limit \<Rightarrow> Inter_Card limit
                        | None \<Rightarrow> if dstkey = None then Inter_Reply else Inter_Store);
            let st = \<lparr>is_dst = inter_dst set0, is_only_integers = True, is_cardinality = 0, is_bulks = []\<rparr>;
            (set0, s, st) \<leftarrow> set_iterate env
              (inter_body env mode (set_encoding_of set0 = OBJ_ENCODING_HT) (keys ! 0) (tl keys)) set0 (s, st);
            let s = store_set (keys ! 0) set0 s;
            (case card_limit of
               Some _ \<Rightarrow> Some (s, [RInt (int (is_cardinality st))])
             | None \<Rightarrow>
                 (case dstkey of
                    Some d \<Rightarrow> sinter_finish env d (is_dst st) (is_only_integers st) s
                  | None \<Rightarrow> Some (s, RSetLen (is_cardinality st) # is_bulks st)))
          })
   }"

section \<open>Union and difference\<close>

datatype set_op = SET_OP_UNION | SET_OP_DIFF

text \<open>\<open>int cardinality\<close>: an overflow is undefined.\<close>

definition add_cardinality :: "int \<Rightarrow> int \<Rightarrow> int option" where
  "add_cardinality n d = do { c_assert (-(2 ^ 31) \<le> n + d \<and> n + d < 2 ^ 31); Some (n + d) }"

text \<open>The work estimates of the two algorithms for the difference.\<close>

fun diff_work :: "key \<Rightarrow> key option list \<Rightarrow> int \<Rightarrow> int \<Rightarrow> ('o, 'q) server \<Rightarrow> (('o, 'q) server \<times> int \<times> int) option" where
  "diff_work k0 [] one two s = Some (s, one, two)"
| "diff_work k0 (None # ks) one two s = diff_work k0 ks one two s"
| "diff_work k0 (Some k # ks) one two s = do {
     ob0 \<leftarrow> set_at_key s k0;
     (ob0, n0) \<leftarrow> setTypeSize ob0;
     let s = store_set k0 ob0 s;
     ob \<leftarrow> set_at_key s k;
     (ob, n) \<leftarrow> setTypeSize ob;
     diff_work k0 ks (one + int n0) (two + int n) (store_set k ob s)
   }"

text \<open>Add every element of a set to the destination, or remove it from there.\<close>

definition add_body :: "set_env \<Rightarrow> setobj \<times> int \<Rightarrow> lp_value \<Rightarrow> ((setobj \<times> int) \<times> bool) option" where
  "add_body env acc e = do {
     (dst, added) \<leftarrow> setTypeAddAux env (fst acc) (elem_str e) (elem_ll e);
     n \<leftarrow> add_cardinality (snd acc) (if added then 1 else 0);
     Some ((dst, n), True)
   }"

definition remove_body :: "set_env \<Rightarrow> setobj \<times> int \<Rightarrow> lp_value \<Rightarrow> ((setobj \<times> int) \<times> bool) option" where
  "remove_body env acc e = do {
     (dst, removed) \<leftarrow> setTypeRemoveAux env (fst acc) (elem_str e) (elem_ll e);
     n \<leftarrow> add_cardinality (snd acc) (if removed then -1 else 0);
     Some ((dst, n), True)
   }"

fun union_sets :: "set_env \<Rightarrow> key option list \<Rightarrow> setobj \<times> int \<Rightarrow> ('o, 'q) server \<Rightarrow> (('o, 'q) server \<times> setobj \<times> int) option" where
  "union_sets env [] acc s = Some (s, acc)"
| "union_sets env (None # ks) acc s = union_sets env ks acc s"
| "union_sets env (Some k # ks) acc s = do {
     ob \<leftarrow> set_at_key s k;
     (ob, acc) \<leftarrow> set_iterate env (add_body env) ob acc;
     union_sets env ks acc (store_set k ob s)
   }"

text \<open>Algorithm 1: whether the element is in one of the other sets.\<close>

fun diff_check :: "set_env \<Rightarrow> key \<Rightarrow> key option list \<Rightarrow> lp_value \<Rightarrow> ('o, 'q) server \<Rightarrow> (('o, 'q) server \<times> bool) option" where
  "diff_check env k0 [] e s = Some (s, True)"
| "diff_check env k0 (None # ks) e s = diff_check env k0 ks e s"
| "diff_check env k0 (Some k # ks) e s =
     (if k = k0 then Some (s, False)
      else do {
        ob \<leftarrow> set_at_key s k;
        (ob, b) \<leftarrow> setTypeIsMemberAux env ob (elem_str e) (elem_ll e);
        let s = store_set k ob s;
        if b then Some (s, False) else diff_check env k0 ks e s
      })"

definition diff1_body :: "set_env \<Rightarrow> key \<Rightarrow> key option list \<Rightarrow> ('o, 'q) server \<times> setobj \<times> int \<Rightarrow> lp_value \<Rightarrow>
    ((('o, 'q) server \<times> setobj \<times> int) \<times> bool) option" where
  "diff1_body env k0 ks acc e = do {
     (s, absent) \<leftarrow> diff_check env k0 ks e (fst acc);
     if absent then do { (a, go) \<leftarrow> add_body env (snd acc) e; Some ((s, a), go) }
     else Some ((s, snd acc), True)
   }"

text \<open>Algorithm 2: add the first set, remove the others, until nothing is left.\<close>

fun diff2_sets :: "set_env \<Rightarrow> bool \<Rightarrow> key option list \<Rightarrow> setobj \<times> int \<Rightarrow> ('o, 'q) server \<Rightarrow>
    (('o, 'q) server \<times> setobj \<times> int) option" where
  "diff2_sets env first [] acc s = Some (s, acc)"
| "diff2_sets env first (None # ks) acc s = diff2_sets env False ks acc s"
| "diff2_sets env first (Some k # ks) acc s = do {
     ob \<leftarrow> set_at_key s k;
     (ob, acc) \<leftarrow> set_iterate env (if first then add_body env else remove_body env) ob acc;
     let s = store_set k ob s;
     if snd acc = 0 then Some (s, acc) else diff2_sets env False ks acc s
   }"

definition diff_sets :: "set_env \<Rightarrow> qsort_fn \<Rightarrow> key option list \<Rightarrow> ('o, 'q) server \<Rightarrow> (('o, 'q) server \<times> setobj \<times> int) option" where
  "diff_sets env qsort sets s =
     (case sets ! 0 of
        None \<Rightarrow> Some (s, createIntsetObject, 0)
      | Some k0 \<Rightarrow>
          if Some k0 \<in> set (tl sets) then Some (s, createIntsetObject, 0)
          else do {
            (s, one, two) \<leftarrow> diff_work k0 sets 0 0 s;
            if one div 2 \<le> two then do {
              (s, ks) \<leftarrow> (if length sets > 1 then sort_sets qsort qsortCompareSetsByRevCardinality (tl sets) s
                          else Some (s, []));
              ob \<leftarrow> set_at_key s k0;
              (ob, s, acc) \<leftarrow> set_iterate env (diff1_body env k0 ks) ob (s, createIntsetObject, 0);
              Some (store_set k0 ob s, acc)
            }
            else diff2_sets env True sets (createIntsetObject, 0) s
          })"

definition bulks_body :: "reply list \<Rightarrow> lp_value \<Rightarrow> (reply list \<times> bool) option" where
  "bulks_body rs e = Some (rs @ [elem_bulk e], True)"

definition sunionDiffGenericCommand :: "set_env \<Rightarrow> qsort_fn \<Rightarrow> key list \<Rightarrow> key option \<Rightarrow> set_op \<Rightarrow>
    ('o, 'q) server \<Rightarrow> (('o, 'q) server \<times> reply list) option" where
  "sunionDiffGenericCommand env qsort setkeys dstkey set_op s = do {
     let (s, found) = lookup_sets setkeys s;
     (case found of
        None \<Rightarrow> Some (s, [RErr WRONGTYPE])
      | Some sets \<Rightarrow> do {
          (s, dst, cardinality) \<leftarrow>
            (case set_op of
               SET_OP_UNION \<Rightarrow> union_sets env sets (createIntsetObject, 0) s
             | SET_OP_DIFF \<Rightarrow> diff_sets env qsort sets s);
          (case dstkey of
             None \<Rightarrow> do {
               (_, rs) \<leftarrow> set_iterate env bulks_body dst [];
               Some (s, RSetLen (nat cardinality) # rs)
             }
           | Some d \<Rightarrow> do {
               (dst, n) \<leftarrow> setTypeSize dst;
               if n > 0 then do {
                 s \<leftarrow> setKey d (OBJ_SET dst) s;
                 (dst, n) \<leftarrow> setTypeSize dst;
                 Some (add_dirty 1 (store_set d dst s), [RInt (int n)])
               }
               else Some (delete_dst d s, [RInt 0])
             })
        })
   }"

end
