(* ===== verification/Set_Keyspace.thy ===== *)
theory Set_Keyspace
  imports Set_Commands
begin

text \<open>
  The set commands on the abstract keyspace, where a key holds a set of byte strings or an opaque
  value of another type: what each command replies, the set it leaves, that every key
  it changes is signalled, and that the keyspace stays well-formed.
\<close>

section \<open>The abstract keyspace\<close>

definition obj_view :: "set_env \<Rightarrow> 'o robj option \<Rightarrow> (byte list set + 'o) option" where
  "obj_view env v = map_option (\<lambda>ob. case ob of OBJ_SET ob \<Rightarrow> Inl (set_elems env ob) | OBJ_OTHER x \<Rightarrow> Inr x) v"

text \<open>Every set object is well-formed and not empty, and only existing keys have an expire time.\<close>

definition obj_ok :: "set_env \<Rightarrow> 'o robj option \<Rightarrow> bool" where
  "obj_ok env v \<longleftrightarrow> (\<forall>ob. v = Some (OBJ_SET ob) \<longrightarrow> set_inv env ob \<and> set_elems env ob \<noteq> {})"

definition db_inv :: "set_env \<Rightarrow> ('o, 'q) server \<Rightarrow> bool" where
  "db_inv env s \<longleftrightarrow> env_ok env \<and> (\<forall>k. obj_ok env (db_keys s k)) \<and> (\<forall>k. db_keys s k = None \<longrightarrow> db_expires s k = None)"

lemma obj_view_simps [simp]:
  "obj_view env None = None" "obj_view env (Some (OBJ_SET ob)) = Some (Inl (set_elems env ob))"
  "obj_view env (Some (OBJ_OTHER x)) = Some (Inr x)"
  by (simp_all add: obj_view_def)

lemma obj_view_None [simp]: "obj_view env v = None \<longleftrightarrow> v = None"
  by (simp add: obj_view_def)

lemma obj_view_set: "obj_view env v = Some (Inl A) \<longleftrightarrow> (\<exists>ob. v = Some (OBJ_SET ob) \<and> set_elems env ob = A)"
  by (cases v rule: option.exhaust; cases "the v") (auto simp: obj_view_def)

lemma obj_view_other: "obj_view env v = Some (Inr x) \<longleftrightarrow> v = Some (OBJ_OTHER x)"
  by (cases v rule: option.exhaust; cases "the v") (auto simp: obj_view_def)

lemma obj_ok_simps [simp]: "obj_ok env None" "obj_ok env (Some (OBJ_OTHER x))"
  "obj_ok env (Some (OBJ_SET ob)) \<longleftrightarrow> set_inv env ob \<and> set_elems env ob \<noteq> {}"
  by (simp_all add: obj_ok_def)

text \<open>The set a value stands for; a missing key is the empty set.\<close>

definition set_of :: "set_env \<Rightarrow> 'o robj option \<Rightarrow> byte list set" where
  "set_of env v = (case v of Some (OBJ_SET ob) \<Rightarrow> set_elems env ob | _ \<Rightarrow> {})"

lemma set_of_simps [simp]: "set_of env None = {}" "set_of env (Some (OBJ_SET ob)) = set_elems env ob"
  by (simp_all add: set_of_def)

lemma checkType_set_simps [simp]: "\<not> checkType_set None" "\<not> checkType_set (Some (OBJ_SET ob))" "checkType_set (Some (OBJ_OTHER x))"
  by (simp_all add: checkType_set_def)

lemma checkType_cases:
  obtains (missing) "v = None" | (set) ob where "v = Some (OBJ_SET ob)" | (other) x where "v = Some (OBJ_OTHER x)"
  by (cases v rule: option.exhaust; cases "the v") auto

section \<open>What a command may do\<close>

text \<open>It touches every key whose value, as a set, or whose expire time it changes.\<close>

definition cmd_effect :: "set_env \<Rightarrow> key set \<Rightarrow> ('o, 'q) server \<Rightarrow> ('o, 'q) server \<Rightarrow> bool" where
  "cmd_effect env K s s' \<longleftrightarrow> touched K s s' \<and> same_env s s' \<and>
     (\<forall>k. k \<notin> K \<longrightarrow> obj_view env (db_keys s' k) = obj_view env (db_keys s k) \<and> db_expires s' k = db_expires s k)"

lemma cmd_effect_trans: "cmd_effect env K s s' \<Longrightarrow> cmd_effect env K' s' s'' \<Longrightarrow> cmd_effect env (K \<union> K') s s''"
  using touched_trans[of K s s' K' s''] same_env_trans[of s s' s''] by (simp add: cmd_effect_def)

lemma effect_cmd: "effect K s s' \<Longrightarrow> cmd_effect env K s s'"
  by (simp add: effect_def cmd_effect_def)

lemma cmd_effect_ok: "cmd_effect env K s s' \<Longrightarrow> watch_ok s'"
  unfolding cmd_effect_def using touched_ok by blast

lemma cmd_effect_refl: "watch_ok s \<Longrightarrow> cmd_effect env {} s s"
  using effect_cmd[OF effect_refl] .

lemma add_dirty_simps [simp]:
  "db_keys (add_dirty n s) = db_keys s" "db_expires (add_dirty n s) = db_expires s" "clients (add_dirty n s) = clients s"
  "db_watched_keys (add_dirty n s) = db_watched_keys s" "db_inv env (add_dirty n s) \<longleftrightarrow> db_inv env s"
  "same_env s0 (add_dirty n s) \<longleftrightarrow> same_env s0 s"
  by (simp_all add: add_dirty_def db_inv_def same_env_def)

lemma store_set_simps [simp]:
  "db_keys (store_set k ob s) = (db_keys s)(k \<mapsto> OBJ_SET ob)" "db_expires (store_set k ob s) = db_expires s"
  "clients (store_set k ob s) = clients s" "db_watched_keys (store_set k ob s) = db_watched_keys s"
  "same_env s0 (store_set k ob s) \<longleftrightarrow> same_env s0 s"
  "set_at_key (store_set k ob s) k = Some ob" "k' \<noteq> k \<Longrightarrow> set_at_key (store_set k ob s) k' = set_at_key s k'"
  by (simp_all add: store_set_def set_at_key_def same_env_def)

lemma watch_ok_store [simp]: "watch_ok (store_set k ob s) \<longleftrightarrow> watch_ok s"
  by (rule watch_ok_cong) simp_all

lemma watch_ok_dirty [simp]: "watch_ok (add_dirty n s) \<longleftrightarrow> watch_ok s"
  by (rule watch_ok_cong) simp_all

lemma set_at_key_Some: "set_at_key s k = Some ob \<longleftrightarrow> db_keys s k = Some (OBJ_SET ob)"
  by (auto simp: set_at_key_def split: option.splits robj.splits)

lemma cmd_effect_more:
  assumes "cmd_effect env K s s'" "db_watched_keys s'' = db_watched_keys s'" "clients s'' = clients s'" "same_env s' s''"
    "\<And>k. k \<notin> K \<Longrightarrow> obj_view env (db_keys s'' k) = obj_view env (db_keys s' k) \<and> db_expires s'' k = db_expires s' k"
  shows "cmd_effect env K s s''"
proof -
  have "touched K s s''" using touched_trans[of K s s' "{}" s''] touched_refl[OF cmd_effect_ok[OF assms(1)] assms(2,3)] assms(1)
    by (simp add: cmd_effect_def)
  then show ?thesis using assms(1,4,5) same_env_trans[of s s' s''] by (simp add: cmd_effect_def)
qed

lemma cmd_effect_dirty: "cmd_effect env K s s' \<Longrightarrow> cmd_effect env K s (add_dirty n s')"
  by (erule cmd_effect_more) simp_all

text \<open>A command that leaves every set as it was, though not its representation.\<close>

definition quiet :: "set_env \<Rightarrow> ('o, 'q) server \<Rightarrow> ('o, 'q) server \<Rightarrow> bool" where
  "quiet env s s' \<longleftrightarrow> db_watched_keys s' = db_watched_keys s \<and> clients s' = clients s \<and> same_env s s' \<and>
     db_expires s' = db_expires s \<and> (\<forall>k. obj_view env (db_keys s' k) = obj_view env (db_keys s k)) \<and> db_inv env s'"

lemma quiet_refl: "db_inv env s \<Longrightarrow> quiet env s s"
  by (simp add: quiet_def)

lemma quiet_trans: "quiet env s s' \<Longrightarrow> quiet env s' s'' \<Longrightarrow> quiet env s s''"
  using same_env_trans[of s s' s''] by (simp add: quiet_def)

lemma quiet_effect: "watch_ok s \<Longrightarrow> quiet env s s' \<Longrightarrow> cmd_effect env {} s s'"
  using touched_refl[of s s'] by (simp add: quiet_def cmd_effect_def)

lemma quiet_inv: "quiet env s s' \<Longrightarrow> db_inv env s'"
  by (simp add: quiet_def)

lemma db_inv_set: "db_inv env s \<Longrightarrow> db_keys s k = Some (OBJ_SET ob) \<Longrightarrow> set_inv env ob \<and> set_elems env ob \<noteq> {}"
  by (metis db_inv_def obj_ok_simps(3))

lemma quiet_store:
  assumes "db_inv env s" "db_keys s k = Some (OBJ_SET ob)" "set_inv env ob'" "set_elems env ob' = set_elems env ob"
  shows "quiet env s (store_set k ob' s)"
  using assms db_inv_set[OF assms(1,2)] by (auto simp: quiet_def db_inv_def)

text \<open>Lookups.\<close>

lemma lookup_deletes_inv:
  assumes "db_inv env s" "lookup_deletes key s s'"
  shows "db_inv env s'"
proof -
  have "obj_ok env (db_keys s' k) \<and> (db_keys s' k = None \<longrightarrow> db_expires s' k = None)" for k
    using assms by (cases "k = key") (auto simp: lookup_deletes_def effect_def db_inv_def)
  then show ?thesis using assms(1) by (simp add: db_inv_def)
qed

lemma lookup_read:
  assumes "watch_ok s" "db_inv env s" "lookupKeyRead key s = (s', v)"
  shows "\<exists>K. K \<subseteq> {key} \<and> cmd_effect env K s s'" "db_inv env s'" "watch_ok s'" "v = None \<or> v = db_keys s' key"
proof -
  from lookupKey_ok[OF assms(1) assms(3)[unfolded lookupKeyRead_def]]
  consider "v = None" "lookup_deletes key s s'" | "s' = s" "v = None \<or> v = db_keys s key" by blast
  then have "(\<exists>K. K \<subseteq> {key} \<and> cmd_effect env K s s') \<and> db_inv env s' \<and> (v = None \<or> v = db_keys s' key)"
  proof cases
    case 1
    then have e: "effect {key} s s'" by (simp add: lookup_deletes_def)
    show ?thesis using lookup_deletes_inv[OF assms(2) 1(2)] effect_cmd[OF e, of env] 1(1) by blast
  next
    case 2
    then show ?thesis using assms(2) cmd_effect_refl[OF assms(1), of env] by blast
  qed
  then show "\<exists>K. K \<subseteq> {key} \<and> cmd_effect env K s s'" "db_inv env s'" "watch_ok s'" "v = None \<or> v = db_keys s' key"
    using cmd_effect_ok by blast+
qed

lemma lookup_write:
  assumes "watch_ok s" "db_inv env s" "can_write s" "lookupKeyWrite key s = (s', v)"
  shows "\<exists>K. K \<subseteq> {key} \<and> cmd_effect env K s s'" "db_inv env s'" "watch_ok s'" "v = db_keys s' key" "can_write s'"
proof -
  have v: "lookup_deletes key s s' \<or> s' = s" "v = db_keys s' key" using lookupKeyWrite_ok[OF assms(1,3,4)] by simp_all
  show "v = db_keys s' key" by (rule v(2))
  from v(1) have "(\<exists>K. K \<subseteq> {key} \<and> cmd_effect env K s s') \<and> db_inv env s' \<and> can_write s'"
  proof
    assume d: "lookup_deletes key s s'"
    then have e: "effect {key} s s'" by (simp add: lookup_deletes_def)
    show ?thesis
      using lookup_deletes_inv[OF assms(2) d] effect_cmd[OF e, of env] can_write_effect[OF e] assms(3) by blast
  next
    assume "s' = s"
    then show ?thesis using assms(2,3) cmd_effect_refl[OF assms(1), of env] by blast
  qed
  then show "\<exists>K. K \<subseteq> {key} \<and> cmd_effect env K s s'" "db_inv env s'" "watch_ok s'" "can_write s'"
    using cmd_effect_ok by blast+
qed

text \<open>A change at one key that is signalled.\<close>

lemma signal_change:
  assumes ok: "watch_ok s" and w: "db_watched_keys s1 = db_watched_keys s" "clients s1 = clients s" "same_env s s1"
    and data: "\<And>k. k \<noteq> key \<Longrightarrow> obj_view env (db_keys s1 k) = obj_view env (db_keys s k) \<and> db_expires s1 k = db_expires s k"
  shows "cmd_effect env {key} s (signalModifiedKey key s1)" "same_data s1 (signalModifiedKey key s1)"
proof -
  have t: "touched {} s s1" by (rule touched_refl[OF ok w(1,2)])
  note m = signalModifiedKey_ok[OF touched_ok[OF t], of key]
  show "same_data s1 (signalModifiedKey key s1)" by (rule m(2))
  have "touched {key} s (signalModifiedKey key s1)" using touched_trans[OF t m(1)] by simp
  moreover have "same_env s (signalModifiedKey key s1)" by (rule same_env_trans[OF w(3) same_data_env[OF m(2)]])
  moreover have "db_keys (signalModifiedKey key s1) = db_keys s1" "db_expires (signalModifiedKey key s1) = db_expires s1"
    using m(2) by (simp_all add: same_data_def)
  ultimately show "cmd_effect env {key} s (signalModifiedKey key s1)" using data by (simp add: cmd_effect_def)
qed

lemma db_inv_cong: "db_keys s' = db_keys s \<Longrightarrow> db_expires s' = db_expires s \<Longrightarrow> db_inv env s' \<longleftrightarrow> db_inv env s"
  by (simp add: db_inv_def)

lemma same_data_inv: "same_data s s' \<Longrightarrow> db_inv env s' \<longleftrightarrow> db_inv env s"
  by (rule db_inv_cong) (simp_all add: same_data_def)

end
