(* ===== verification/Set_Single.thy ===== *)
theory Set_Single
  imports Set_Keyspace
begin

text \<open>
  The commands on one set and \<open>SMOVE\<close>: what each replies in every case, the set it leaves, and
  \<open>cmd_post\<close>: it changes and touches only its own keys and keeps the keyspace well-formed.
\<close>

section \<open>Commands on one set\<close>

definition cmd_post :: "set_env \<Rightarrow> key set \<Rightarrow> ('o, 'q) server \<Rightarrow> ('o, 'q) server \<Rightarrow> bool" where
  "cmd_post env ks s s' \<longleftrightarrow> (\<exists>K. K \<subseteq> ks \<and> cmd_effect env K s s') \<and> db_inv env s'"

lemma cmd_postI: "cmd_effect env K s s' \<Longrightarrow> K \<subseteq> ks \<Longrightarrow> db_inv env s' \<Longrightarrow> cmd_post env ks s s'"
  by (auto simp: cmd_post_def)

lemma cmd_post_trans: "cmd_post env ks s s' \<Longrightarrow> cmd_post env ks' s' s'' \<Longrightarrow> cmd_post env (ks \<union> ks') s s''"
  unfolding cmd_post_def using cmd_effect_trans by (metis Un_mono)

lemma cmd_post_seq: "cmd_post env ks s s' \<Longrightarrow> cmd_post env ks s' s'' \<Longrightarrow> cmd_post env ks s s''"
  using cmd_post_trans[of env ks s s' ks s''] by simp

lemma cmd_post_mono: "cmd_post env ks s s' \<Longrightarrow> ks \<subseteq> ks' \<Longrightarrow> cmd_post env ks' s s'"
  by (auto simp: cmd_post_def)

lemma cmd_post_ok: "cmd_post env ks s s' \<Longrightarrow> watch_ok s'" "cmd_post env ks s s' \<Longrightarrow> db_inv env s'"
  using cmd_effect_ok by (auto simp: cmd_post_def)

lemma cmd_post_quiet: "watch_ok s \<Longrightarrow> quiet env s s' \<Longrightarrow> cmd_post env ks s s'"
  using cmd_postI[OF quiet_effect _ quiet_inv] by blast

lemma cmd_post_refl: "watch_ok s \<Longrightarrow> db_inv env s \<Longrightarrow> cmd_post env ks s s"
  using cmd_post_quiet[OF _ quiet_refl] by blast

lemma cmd_post_read:
  assumes "watch_ok s" "db_inv env s" "lookupKeyRead key s = (s', v)"
  shows "cmd_post env {key} s s'"
  using lookup_read[OF assms] by (auto simp: cmd_post_def)

lemma cmd_post_write:
  assumes "watch_ok s" "db_inv env s" "can_write s" "lookupKeyWrite key s = (s', v)"
  shows "cmd_post env {key} s s'"
  using lookup_write[OF assms] by (auto simp: cmd_post_def)

lemma sadd_loop_ok:
  "set_inv env ob \<Longrightarrow> \<forall>x \<in> set xs. sds_fits x \<Longrightarrow> card (set_elems env ob) + length xs \<le> 2 ^ 64 - 1 \<Longrightarrow>
    set_result env (sadd_loop env ob xs n) (set_elems env ob \<union> set xs)
      (n + int (card (set_elems env ob \<union> set xs) - card (set_elems env ob)))"
proof (induction xs arbitrary: ob n)
  case Nil
  then show ?case by (simp add: set_resultI)
next
  case (Cons x xs)
  let ?A = "set_elems env ob"
  have fin: "finite ?A" by (rule set_elems_finite)
  have "card ?A < 2 ^ 64 - 1" "sds_fits x" using Cons.prems(2,3) by simp_all
  from setTypeAdd_ok[OF Cons.prems(1) this(2,1)] obtain ob1 where
    o: "setTypeAdd env ob x = Some (ob1, x \<notin> ?A)" "set_inv env ob1" "set_elems env ob1 = insert x ?A" by (auto simp: set_result_def)
  have c: "card (insert x ?A) = card ?A + (if x \<in> ?A then 0 else 1)" using fin by (simp add: card_insert_if)
  have "card (insert x ?A) + length xs \<le> 2 ^ 64 - 1" "\<forall>x \<in> set xs. sds_fits x" using Cons.prems(2,3) c by simp_all
  from Cons.IH[OF o(2) this(2), of "if x \<notin> ?A then n + 1 else n"] o(3) this(1)
  have IH: "set_result env (sadd_loop env ob1 xs (if x \<notin> ?A then n + 1 else n)) (insert x ?A \<union> set xs)
      ((if x \<notin> ?A then n + 1 else n) + int (card (insert x ?A \<union> set xs) - card (insert x ?A)))" by simp
  have "card (insert x ?A) \<le> card (insert x ?A \<union> set xs)" using fin by (intro card_mono) auto
  then have "(if x \<notin> ?A then n + 1 else n) + int (card (insert x ?A \<union> set xs) - card (insert x ?A)) =
      n + int (card (?A \<union> set (x # xs)) - card ?A)" using c by (simp add: Un_commute split: if_splits)
  with IH o(1) show ?case by simp
qed

text \<open>The set object is stored and, if it changed, the key is signalled.\<close>

lemma store_signal:
  assumes ok: "watch_ok s" and inv: "\<And>k. k \<noteq> key \<Longrightarrow> obj_ok env (db_keys s k) \<and> (db_keys s k = None \<longrightarrow> db_expires s k = None)"
    and env: "env_ok env" and ob: "set_inv env ob" "set_elems env ob \<noteq> {}"
  shows "cmd_post env {key} s (signalModifiedKey key (store_set key ob s))"
    "db_keys (signalModifiedKey key (store_set key ob s)) = (db_keys s)(key \<mapsto> OBJ_SET ob)"
proof -
  have *: "cmd_effect env {key} s (signalModifiedKey key (store_set key ob s))"
    "same_data (store_set key ob s) (signalModifiedKey key (store_set key ob s))"
    by (rule signal_change[OF ok]; simp)+
  have "db_inv env (store_set key ob s)" using inv env ob by (simp add: db_inv_def)
  then show "cmd_post env {key} s (signalModifiedKey key (store_set key ob s))"
    using *(1) same_data_inv[OF *(2)] by (auto intro: cmd_postI)
  show "db_keys (signalModifiedKey key (store_set key ob s)) = (db_keys s)(key \<mapsto> OBJ_SET ob)"
    using *(2) by (simp add: same_data_def)
qed

lemma cmd_post_dirty: "cmd_post env ks s s' \<Longrightarrow> cmd_post env ks s (add_dirty n s')"
  unfolding cmd_post_def using cmd_effect_dirty by (metis add_dirty_simps(5))

lemma db_invD: "db_inv env s \<Longrightarrow> obj_ok env (db_keys s k) \<and> (db_keys s k = None \<longrightarrow> db_expires s k = None)"
  "db_inv env s \<Longrightarrow> env_ok env"
  by (simp_all add: db_inv_def)

text \<open>The set that \<open>SADD\<close> adds to: a new empty one, or the one at the key, converted if the arguments are many.\<close>

lemma sadd_target:
  assumes inv: "db_inv env s" and v: "v = db_keys s key" "\<not> checkType_set v"
  shows "\<exists>ob. (case v of
      None \<Rightarrow> do { ob \<leftarrow> setTypeCreate env (args ! 0) (length args); dbAdd key (OBJ_SET ob) s }
    | Some _ \<Rightarrow> do { ob \<leftarrow> set_at_key s key; ob \<leftarrow> setTypeMaybeConvert env ob (length args); Some (store_set key ob s) }) =
      Some (store_set key ob s) \<and> set_inv env ob \<and> set_elems env ob = set_of env v"
proof (cases v rule: checkType_cases)
  case missing
  from setTypeCreate_ok[OF db_invD(2)[OF inv], of "args ! 0" "length args"] obtain ob where
    "setTypeCreate env (args ! 0) (length args) = Some ob" "set_inv env ob" "set_elems env ob = {}" by blast
  then show ?thesis using missing v(1) by (intro exI[of _ ob]) (simp add: dbAdd_def dbFind_def store_set_def)
next
  case (set ob)
  then have k: "db_keys s key = Some (OBJ_SET ob)" using v(1) by simp
  from setTypeMaybeConvert_ok[OF conjunct1[OF db_inv_set[OF inv k]], of "length args"] obtain ob' where
    "setTypeMaybeConvert env ob (length args) = Some ob'" "set_inv env ob'" "set_elems env ob' = set_elems env ob" by blast
  then show ?thesis using set k by (auto simp: set_at_key_def)
next
  case (other x)
  then show ?thesis using v(2) by simp
qed

lemma saddCommand_ok:
  assumes ok: "watch_ok s" "db_inv env s" "can_write s" and args: "args \<noteq> []" "\<forall>x \<in> set args. sds_fits x"
    and room: "card (set_of env (db_keys s key)) + length args \<le> 2 ^ 64 - 1"
    and l: "lookupKeyWrite key s = (s1, v)"
  shows "if checkType_set v then saddCommand env key args s = Some (s1, [RErr WRONGTYPE])
    else \<exists>s'. saddCommand env key args s =
        Some (s', [RInt (int (card (set_of env v \<union> set args) - card (set_of env v)))]) \<and> cmd_post env {key} s s' \<and>
      obj_view env (db_keys s' key) = Some (Inl (set_of env v \<union> set args))"
proof (cases "checkType_set v")
  case True
  then show ?thesis using l by (simp add: saddCommand_def)
next
  case False
  note l' = lookup_write[OF ok l]
  note env = db_invD(2)[OF ok(2)]
  have post: "cmd_post env {key} s s1" by (rule cmd_post_write[OF ok l])
  have small: "card (set_of env v) + length args \<le> 2 ^ 64 - 1"
  proof (cases "s1 = s")
    case True
    then show ?thesis using l'(4) room by simp
  next
    case False
    then have "v = None" using lookupKeyWrite_ok[OF ok(1,3) l] by (auto simp: lookup_deletes_def)
    then show ?thesis using room by simp
  qed
  from sadd_target[OF l'(2,4) False, of args] obtain ob where ob: "(case v of
      None \<Rightarrow> do { ob \<leftarrow> setTypeCreate env (args ! 0) (length args); dbAdd key (OBJ_SET ob) s1 }
    | Some _ \<Rightarrow> do { ob \<leftarrow> set_at_key s1 key; ob \<leftarrow> setTypeMaybeConvert env ob (length args); Some (store_set key ob s1) }) =
      Some (store_set key ob s1)" "set_inv env ob" "set_elems env ob = set_of env v" by blast
  define d where "d = int (card (set_of env v \<union> set args) - card (set_of env v))"
  from sadd_loop_ok[OF ob(2) args(2), of 0] small ob(3) obtain ob2 where
    ob2: "sadd_loop env ob args 0 = Some (ob2, d)" "set_inv env ob2" "set_elems env ob2 = set_of env v \<union> set args"
    by (auto simp: set_result_def d_def)
  let ?s2 = "store_set key ob2 s1"
  define s' where "s' = add_dirty d (if d \<noteq> 0 then signalModifiedKey key ?s2 else ?s2)"
  have st: "store_set key ob2 (store_set key ob s1) = ?s2" by (simp add: store_set_def)
  have run: "saddCommand env key args s = Some (s', [RInt d])"
    using l False ob(1) ob2(1) by (simp add: saddCommand_def s'_def st)
  have ne: "set_of env v \<union> set args \<noteq> {}" using args(1) by auto
  have view: "obj_view env (db_keys s' key) = Some (Inl (set_of env v \<union> set args)) \<and> cmd_post env {key} s1 s'"
  proof (cases "d = 0")
    case True
    have fin: "finite (set_of env v)" using ob(3) set_elems_finite by metis
    then have "card (set_of env v) = card (set_of env v \<union> set args)" using True card_mono[of "set_of env v \<union> set args" "set_of env v"]
      by (simp add: d_def)
    then have same: "set_of env v \<union> set args = set_of env v" using fin by (metis card_subset_eq finite_UnI finite_set sup_ge1)
    then have "v \<noteq> None" using ne by auto
    then obtain obv where "v = Some (OBJ_SET obv)" using False by (cases v rule: checkType_cases) auto
    then have k: "db_keys s1 key = Some (OBJ_SET obv)" "set_elems env obv = set_of env v" using l'(4) by simp_all
    have "quiet env s1 ?s2" by (rule quiet_store[OF l'(2) k(1) ob2(2)]) (simp add: ob2(3) same k(2))
    then show ?thesis using True ob2(3) cmd_post_dirty[OF cmd_post_quiet[OF l'(3)]] by (simp add: s'_def)
  next
    case False
    note sig = store_signal[OF l'(3) db_invD(1)[OF l'(2)] env ob2(2), of key]
    show ?thesis using False sig ob2(3) ne by (auto simp: s'_def intro: cmd_post_dirty)
  qed
  show ?thesis using run view cmd_post_seq[OF post] False by (auto simp: d_def)
qed

lemma srem_loop_ok:
  "set_inv env ob \<Longrightarrow> set_elems env ob \<noteq> {} \<Longrightarrow> \<forall>x \<in> set xs. sds_fits x \<Longrightarrow>
    \<exists>ob'. srem_loop env ob xs n =
        Some (ob', n + int (card (set_elems env ob) - card (set_elems env ob - set xs)), set_elems env ob - set xs = {}) \<and>
      set_inv env ob' \<and> set_elems env ob' = set_elems env ob - set xs"
proof (induction xs arbitrary: ob n)
  case (Cons x xs)
  let ?A = "set_elems env ob"
  have fin: "finite ?A" by (rule set_elems_finite)
  have fit: "sds_fits x" "\<forall>x \<in> set xs. sds_fits x" using Cons.prems(3) by simp_all
  from setTypeRemove_ok[OF Cons.prems(1) fit(1)] obtain ob1 where
    o: "setTypeRemove env ob x = Some (ob1, x \<in> ?A)" "set_inv env ob1" "set_elems env ob1 = ?A - {x}" by (auto simp: set_result_def)
  show ?case
  proof (cases "x \<in> ?A")
    case False
    then have same: "set_elems env ob1 = ?A" and d: "?A - set (x # xs) = ?A - set xs" using o(3) by auto
    have run: "srem_loop env ob (x # xs) n = srem_loop env ob1 xs n" using o(1) False by simp
    show ?thesis unfolding d run by (rule Cons.IH[OF o(2), of n, unfolded same, OF Cons.prems(2) fit(2)])
  next
    case True
    from setTypeSize_ok[OF o(2), unfolded o(3) set_result_def] obtain ob2 where
      sz: "setTypeSize ob1 = Some (ob2, card (?A - {x}))" "set_inv env ob2" "set_elems env ob2 = ?A - {x}" by blast
    have c: "card ?A = Suc (card (?A - {x}))" by (rule card.remove[OF fin True])
    have d: "?A - set (x # xs) = ?A - {x} - set xs" by auto
    show ?thesis
    proof (cases "?A - {x} = {}")
      case empty: True
      have run: "srem_loop env ob (x # xs) n = Some (ob2, n + 1, True)" using o(1) True sz(1) empty by simp
      have e: "card ?A = 1" "?A - set (x # xs) = {}" using c empty d by auto
      show ?thesis unfolding run e(2) using sz empty e(1) by simp
    next
      case False
      then have "card (?A - {x}) \<noteq> 0" using fin by auto
      then have run: "srem_loop env ob (x # xs) n = srem_loop env ob2 xs (n + 1)" using o(1) True sz(1) by simp
      have "card (?A - {x} - set xs) \<le> card (?A - {x})" using fin by (intro card_mono) auto
      then have "1 + int (card (?A - {x}) - card (?A - {x} - set xs)) = int (card ?A - card (?A - {x} - set xs))"
        using c by simp
      with Cons.IH[OF sz(2) _ fit(2), of "n + 1"] False sz(3) show ?thesis unfolding run d by (simp add: add.assoc)
    qed
  qed
qed (auto intro: set_resultI)

text \<open>A key that is deleted and signalled.\<close>

lemma delete_signal:
  assumes ok: "watch_ok s" and inv: "\<And>k. k \<noteq> key \<Longrightarrow> obj_ok env (db_keys s k) \<and> (db_keys s k = None \<longrightarrow> db_expires s k = None)"
    and env: "env_ok env" and k: "db_keys s key \<noteq> None"
  shows "cmd_post env {key} s (signalModifiedKey key (fst (dbDelete key s)))"
    "db_keys (signalModifiedKey key (fst (dbDelete key s))) = (db_keys s)(key := None)"
proof -
  let ?s = "fst (dbDelete key s)"
  have d: "db_keys ?s = (db_keys s)(key := None)" "db_expires ?s = (db_expires s)(key := None)"
    "db_watched_keys ?s = db_watched_keys s" "clients ?s = clients s" "same_env s ?s"
    using k by (auto simp: dbDelete_def dbGenericDelete_def dbFind_def same_env_def)
  have *: "cmd_effect env {key} s (signalModifiedKey key ?s)" "same_data ?s (signalModifiedKey key ?s)"
    by (rule signal_change[OF ok]; simp add: d)+
  have "db_inv env ?s" using inv env by (simp add: db_inv_def d)
  then show "cmd_post env {key} s (signalModifiedKey key ?s)"
    using *(1) same_data_inv[OF *(2)] by (auto intro: cmd_postI)
  show "db_keys (signalModifiedKey key ?s) = (db_keys s)(key := None)" using *(2) d(1) by (simp add: same_data_def)
qed

lemma dbDelete_store:
  "fst (dbDelete key (store_set key ob s)) = s\<lparr>db_keys := (db_keys s)(key := None), db_expires := (db_expires s)(key := None)\<rparr>"
  by (simp add: dbDelete_def dbGenericDelete_def dbFind_def store_set_def)

lemma dbDelete_present:
  "db_keys s key \<noteq> None \<Longrightarrow>
    fst (dbDelete key s) = s\<lparr>db_keys := (db_keys s)(key := None), db_expires := (db_expires s)(key := None)\<rparr>"
  by (auto simp: dbDelete_def dbGenericDelete_def dbFind_def)

lemma sremCommand_ok:
  assumes ok: "watch_ok s" "db_inv env s" "can_write s" and fit: "\<forall>x \<in> set args. sds_fits x"
    and l: "lookupKeyWrite key s = (s1, v)"
  shows "if checkType_set v then sremCommand env key args s = Some (s1, [RErr WRONGTYPE])
    else \<exists>s'. sremCommand env key args s =
        Some (s', [RInt (int (card (set_of env v) - card (set_of env v - set args)))]) \<and> cmd_post env {key} s s' \<and>
      obj_view env (db_keys s' key) = (if set_of env v - set args = {} then None else Some (Inl (set_of env v - set args)))"
proof -
  note l' = lookup_write[OF ok l]
  note env = db_invD(2)[OF ok(2)]
  have post: "cmd_post env {key} s s1" by (rule cmd_post_write[OF ok l])
  show ?thesis
  proof (cases v rule: checkType_cases)
    case missing
    then show ?thesis using l post l'(4) by (simp add: sremCommand_def)
  next
    case (other x)
    then show ?thesis using l by (simp add: sremCommand_def)
  next
    case (set ob)
    then have k: "db_keys s1 key = Some (OBJ_SET ob)" using l'(4) by simp
    let ?A = "set_elems env ob"
    note o = db_inv_set[OF l'(2) k]
    define d where "d = int (card ?A - card (?A - set args))"
    from srem_loop_ok[OF conjunct1[OF o] conjunct2[OF o] fit, of 0] obtain ob' where
      r: "srem_loop env ob args 0 = Some (ob', d, ?A - set args = {})" "set_inv env ob'" "set_elems env ob' = ?A - set args"
      by (auto simp: d_def)
    define s2 where "s2 = (if ?A - set args = {} then fst (dbDelete key (store_set key ob' s1)) else store_set key ob' s1)"
    define s' where "s' = (if d \<noteq> 0 then add_dirty d (signalModifiedKey key s2) else s2)"
    have run: "sremCommand env key args s = Some (s', [RInt d])"
      using l set k r(1) by (simp add: sremCommand_def set_at_key_def s'_def s2_def)
    have "cmd_post env {key} s1 s' \<and>
        obj_view env (db_keys s' key) = (if ?A - set args = {} then None else Some (Inl (?A - set args)))"
    proof (cases "?A - set args = {}")
      case True
      have "0 < card ?A" using o set_elems_finite[of env ob] by (simp add: card_gt_0_iff)
      then have "d \<noteq> 0" unfolding d_def True by simp
      moreover have "s2 = fst (dbDelete key s1)" using True k by (simp add: s2_def dbDelete_store dbDelete_present)
      ultimately show ?thesis using True delete_signal[OF l'(3) db_invD(1)[OF l'(2)] env, of key] k cmd_post_dirty
        by (auto simp: s'_def)
    next
      case False
      show ?thesis
      proof (cases "d = 0")
        case True
        have "card ?A = card (?A - set args)" using True card_mono[of ?A "?A - set args"] set_elems_finite[of env ob]
          by (auto simp: d_def)
        then have same: "?A - set args = ?A" using set_elems_finite by (metis Diff_subset card_subset_eq)
        have "quiet env s1 (store_set key ob' s1)" by (rule quiet_store[OF l'(2) k r(2)]) (simp add: r(3) same)
        then show ?thesis using True False r(3) cmd_post_quiet[OF l'(3)] by (simp add: s'_def s2_def)
      next
        case d: False
        note sig = store_signal[OF l'(3) db_invD(1)[OF l'(2)] env r(2), of key]
        show ?thesis using d False sig r(3) by (auto simp: s'_def s2_def intro: cmd_post_dirty)
      qed
    qed
    then show ?thesis using run set cmd_post_seq[OF post] by (auto simp: d_def)
  qed
qed

text \<open>The commands that only read.\<close>

lemma read_set:
  assumes "watch_ok s" "db_inv env s" "lookupKeyRead key s = (s1, Some (OBJ_SET ob))"
  shows "set_at_key s1 key = Some ob" "set_inv env ob"
    "\<And>ob'. set_inv env ob' \<Longrightarrow> set_elems env ob' = set_elems env ob \<Longrightarrow> cmd_post env {key} s (store_set key ob' s1)"
proof -
  note l = lookup_read[OF assms]
  have k: "db_keys s1 key = Some (OBJ_SET ob)" using l(4) by simp
  show "set_at_key s1 key = Some ob" using k by (simp add: set_at_key_Some)
  show "set_inv env ob" using db_inv_set[OF l(2) k] by simp
  show "cmd_post env {key} s (store_set key ob' s1)" if "set_inv env ob'" "set_elems env ob' = set_elems env ob" for ob'
    using cmd_post_seq[OF cmd_post_read[OF assms] cmd_post_quiet[OF l(3) quiet_store[OF l(2) k that]]] .
qed

lemma sismemberCommand_ok:
  assumes ok: "watch_ok s" "db_inv env s" and fit: "sds_fits x" and l: "lookupKeyRead key s = (s1, v)"
  shows "if checkType_set v then sismemberCommand env key x s = Some (s1, [RErr WRONGTYPE])
    else \<exists>s'. sismemberCommand env key x s = Some (s', [RInt (if x \<in> set_of env v then 1 else 0)]) \<and> cmd_post env {key} s s'"
proof (cases v rule: checkType_cases)
  case (set ob)
  note r = read_set[OF ok l[unfolded set]]
  from setTypeIsMember_ok[OF r(2) fit] obtain ob' where
    "setTypeIsMember env ob x = Some (ob', x \<in> set_elems env ob)" "set_inv env ob'" "set_elems env ob' = set_elems env ob"
    by (auto simp: set_result_def)
  then show ?thesis using l set r(1) r(3)[of ob'] by (simp add: sismemberCommand_def)
qed (use l cmd_post_read[OF ok l] in \<open>simp_all add: sismemberCommand_def\<close>)

lemma smismember_loop_ok:
  "set_inv env ob \<Longrightarrow> \<forall>x \<in> set xs. sds_fits x \<Longrightarrow> set_result env (smismember_loop env ob xs) (set_elems env ob)
    (map (\<lambda>x. RInt (if x \<in> set_elems env ob then 1 else 0)) xs)"
proof (induction xs arbitrary: ob)
  case (Cons x xs)
  from setTypeIsMember_ok[OF Cons.prems(1), of x] Cons.prems(2) obtain ob' where
    o: "setTypeIsMember env ob x = Some (ob', x \<in> set_elems env ob)" "set_inv env ob'" "set_elems env ob' = set_elems env ob"
    by (auto simp: set_result_def)
  from Cons.IH[OF o(2)] Cons.prems(2) o show ?case by (auto simp: set_result_def)
qed (simp add: set_resultI)

lemma smismemberCommand_ok:
  assumes ok: "watch_ok s" "db_inv env s" and fit: "\<forall>x \<in> set xs. sds_fits x" and l: "lookupKeyRead key s = (s1, v)"
  shows "if checkType_set v then smismemberCommand env key xs s = Some (s1, [RErr WRONGTYPE])
    else \<exists>s'. smismemberCommand env key xs s =
        Some (s', RArray (length xs) # map (\<lambda>x. RInt (if x \<in> set_of env v then 1 else 0)) xs) \<and> cmd_post env {key} s s'"
proof (cases v rule: checkType_cases)
  case (set ob)
  note r = read_set[OF ok l[unfolded set]]
  from smismember_loop_ok[OF r(2) fit] obtain ob' where
    "smismember_loop env ob xs = Some (ob', map (\<lambda>x. RInt (if x \<in> set_elems env ob then 1 else 0)) xs)"
    "set_inv env ob'" "set_elems env ob' = set_elems env ob"
    by (auto simp: set_result_def)
  then show ?thesis using l set r(1) r(3)[of ob'] by (simp add: smismemberCommand_def)
qed (use l cmd_post_read[OF ok l] in \<open>simp_all add: smismemberCommand_def\<close>)

lemma scardCommand_ok:
  assumes ok: "watch_ok s" "db_inv env s" and l: "lookupKeyRead key s = (s1, v)"
  shows "if checkType_set v then scardCommand key s = Some (s1, [RErr WRONGTYPE])
    else \<exists>s'. scardCommand key s = Some (s', [RInt (int (card (set_of env v)))]) \<and> cmd_post env {key} s s'"
proof (cases v rule: checkType_cases)
  case (set ob)
  note r = read_set[OF ok l[unfolded set]]
  from setTypeSize_ok[OF r(2)] obtain ob' where
    "setTypeSize ob = Some (ob', card (set_elems env ob))" "set_inv env ob'" "set_elems env ob' = set_elems env ob"
    by (auto simp: set_result_def)
  then show ?thesis using l set r(1) r(3)[of ob'] by (simp add: scardCommand_def)
qed (use l cmd_post_read[OF ok l] in \<open>simp_all add: scardCommand_def\<close>)

section \<open>Moving a member\<close>

lemma touched_signal:
  assumes "touched K s s'"
  shows "touched (insert k K) s (signalModifiedKey k s')" "same_data s' (signalModifiedKey k s')"
  using touched_trans[OF assms signalModifiedKey_ok(1)[OF touched_ok[OF assms], of k]]
    signalModifiedKey_ok(2)[OF touched_ok[OF assms], of k] by simp_all

lemma touched_step:
  assumes "touched K s s'" "db_watched_keys s'' = db_watched_keys s'" "clients s'' = clients s'"
  shows "touched K s s''"
  using touched_trans[OF assms(1) touched_refl[OF touched_ok[OF assms(1)] assms(2,3)]] by simp

lemma same_data_simps:
  assumes "same_data s s'"
  shows "db_keys s' = db_keys s" "db_expires s' = db_expires s" "same_env s0 s' \<longleftrightarrow> same_env s0 s"
  using assms by (simp_all add: same_data_def same_env_def)

text \<open>The state after the member was taken from the source: the set is stored, or deleted when it is empty.\<close>

definition put_set :: "set_env \<Rightarrow> key \<Rightarrow> setobj \<Rightarrow> ('o, 'q) server \<Rightarrow> ('o, 'q) server" where
  "put_set env k ob s = (if set_elems env ob = {} then fst (dbDelete k (store_set k ob s)) else store_set k ob s)"

lemma put_set_simps [simp]:
  "db_watched_keys (put_set env k ob s) = db_watched_keys s" "clients (put_set env k ob s) = clients s"
  "same_env s0 (put_set env k ob s) \<longleftrightarrow> same_env s0 s"
  "k' \<noteq> k \<Longrightarrow> db_keys (put_set env k ob s) k' = db_keys s k'"
  "k' \<noteq> k \<Longrightarrow> db_expires (put_set env k ob s) k' = db_expires s k'"
  "db_keys (put_set env k ob s) k = (if set_elems env ob = {} then None else Some (OBJ_SET ob))"
  "set_elems env ob = {} \<Longrightarrow> db_expires (put_set env k ob s) k = None"
  by (simp_all add: put_set_def dbDelete_store) (simp_all add: same_env_def)?

text \<open>The second half of \<open>SMOVE\<close>: the source is signalled, the member added to the destination.\<close>

lemma smove_tail:
  assumes ok: "watch_ok s" and inv: "db_inv env s" and src: "db_keys s src = Some (OBJ_SET ob)" and ne: "src \<noteq> dst"
    and src': "set_inv env ob'" and d: "\<not> checkType_set (db_keys s dst)" and fit: "sds_fits x"
    and room: "card (set_of env (db_keys s dst)) < 2 ^ 64 - 1"
  shows "\<exists>s'. smove_add env src dst x (db_keys s dst) (put_set env src ob' s) = Some (s', [RInt 1]) \<and> cmd_post env {src, dst} s s' \<and>
    db_keys s' src = (if set_elems env ob' = {} then None else Some (OBJ_SET ob')) \<and>
    obj_view env (db_keys s' dst) = Some (Inl (insert x (set_of env (db_keys s dst))))"
proof -
  note env = db_invD(2)[OF inv]
  let ?B = "set_of env (db_keys s dst)" and ?s3 = "put_set env src ob' s"
  have "\<exists>s4 dob. (if db_keys s dst = None then do { ob \<leftarrow> setTypeCreate env x 1; dbAdd dst (OBJ_SET ob) ?s3 } else Some ?s3) =
      Some s4 \<and> db_keys s4 = (db_keys ?s3)(dst \<mapsto> OBJ_SET dob) \<and> set_inv env dob \<and> set_elems env dob = ?B \<and>
      db_expires s4 = db_expires ?s3 \<and> db_watched_keys s4 = db_watched_keys s \<and> clients s4 = clients s \<and> same_env s s4"
  proof (cases "db_keys s dst" rule: checkType_cases)
    case missing
    from setTypeCreate_ok[OF env, of x 1] obtain dob where
      "setTypeCreate env x 1 = Some dob" "set_inv env dob" "set_elems env dob = {}" by blast
    then show ?thesis using missing ne by (intro exI[of _ "store_set dst dob ?s3"] exI[of _ dob])
      (simp add: dbAdd_def dbFind_def store_set_def[symmetric])
  next
    case (set dob)
    have "(db_keys ?s3)(dst \<mapsto> OBJ_SET dob) = db_keys ?s3" using set ne by (auto simp: fun_eq_iff)
    then show ?thesis using set db_inv_set[OF inv set] by (intro exI[of _ ?s3] exI[of _ dob]) simp
  next
    case (other y)
    then show ?thesis using d by simp
  qed
  then obtain s4 dob where s4: "(if db_keys s dst = None then do { ob \<leftarrow> setTypeCreate env x 1; dbAdd dst (OBJ_SET ob) ?s3 } else Some ?s3) =
      Some s4" "db_keys s4 = (db_keys ?s3)(dst \<mapsto> OBJ_SET dob)" "set_inv env dob" "set_elems env dob = ?B"
      "db_expires s4 = db_expires ?s3" "db_watched_keys s4 = db_watched_keys s" "clients s4 = clients s" "same_env s s4" by blast
  have t4: "touched {} s s4" by (rule touched_refl[OF ok s4(6,7)])
  let ?s5 = "add_dirty 1 (signalModifiedKey src s4)"
  have t5: "touched {src} s ?s5" using touched_step[OF touched_signal(1)[OF t4], of "add_dirty 1 (signalModifiedKey src s4)" src] by simp
  note s5 = same_data_simps[OF touched_signal(2)[OF t4, of src]]
  from setTypeAdd_ok[OF s4(3) fit] room s4(4) obtain dob' where
    a: "setTypeAdd env dob x = Some (dob', x \<notin> ?B)" "set_inv env dob'" "set_elems env dob' = insert x ?B" by (auto simp: set_result_def)
  define s' where "s' = (if x \<notin> ?B then signalModifiedKey dst (add_dirty 1 (store_set dst dob' ?s5)) else store_set dst dob' ?s5)"
  have t6: "touched {src} s (store_set dst dob' ?s5)" by (rule touched_step[OF t5]) simp_all
  have t6': "touched {src} s (add_dirty 1 (store_set dst dob' ?s5))" by (rule touched_step[OF t6]) simp_all
  have t: "touched (if x \<notin> ?B then {dst, src} else {src}) s s'"
    using t6 touched_signal(1)[OF t6', of dst] by (simp add: s'_def)
  have data: "db_keys s' = (db_keys ?s3)(dst \<mapsto> OBJ_SET dob')" "db_expires s' = db_expires ?s3" "same_env s s'"
    using same_data_simps[OF touched_signal(2)[OF t6', of dst]] s5 s4(2,5,8) by (auto simp: s'_def)
  have same: "x \<in> ?B \<Longrightarrow> obj_view env (db_keys s dst) = Some (Inl ?B)" using d
    by (cases "db_keys s dst" rule: checkType_cases) auto
  have eff: "cmd_effect env (if x \<notin> ?B then {dst, src} else {src}) s s'"
    unfolding cmd_effect_def using t data(3) a(3) ne same by (auto simp: data(1,2) insert_absorb)
  have put: "obj_ok env (db_keys ?s3 k) \<and> (db_keys ?s3 k = None \<longrightarrow> db_expires ?s3 k = None)" for k
    using db_invD(1)[OF inv, of k] src' by (cases "k = src") (auto split: if_splits)
  have inv': "db_inv env s'"
    using put env a unfolding db_inv_def by (auto simp: data(1,2))
  have "set_at_key ?s5 dst = Some dob" using s5(1) s4(2) by (simp add: set_at_key_Some)
  then have "smove_add env src dst x (db_keys s dst) ?s3 = Some (s', [RInt 1])" unfolding smove_add_def s4(1) using a(1) by (simp add: s'_def)
  moreover have "cmd_post env {src, dst} s s'" using cmd_postI[OF eff _ inv'] by auto
  ultimately show ?thesis using data(1) ne a(3) by auto
qed

lemma lookup_write_view:
  assumes "watch_ok s" "can_write s" "lookupKeyWrite key s = (s', v)"
  shows "db_keys s' k = db_keys s k \<or> db_keys s' k = None"
  using lookupKeyWrite_ok[OF assms] by (cases "k = key") (auto simp: lookup_deletes_def effect_def)

text \<open>Looking a key up again finds the same value.\<close>

lemma lookup_write_again:
  assumes "lookupKeyWrite key s = (s', Some ob)"
  shows "s' = s \<and> lookupKeyWrite key s' = (s', Some ob)"
proof -
  have "s' = s" using assms
    by (auto simp: lookupKeyWrite_def lookupKey_def expireIfNeeded_def Let_def split: option.splits if_splits)
  then show ?thesis using assms by simp
qed

lemma smoveCommand_ok:
  assumes ok: "watch_ok s" "db_inv env s" "can_write s" and fit: "sds_fits x"
    and l: "lookupKeyWrite src s = (s1, v)" "lookupKeyWrite dst s1 = (s2, w)"
    and room: "card (set_of env (db_keys s dst)) < 2 ^ 64 - 1"
  defines "A \<equiv> set_of env v" and "B \<equiv> set_of env w"
  shows "if v = None then smoveCommand env src dst x s = Some (s2, [RInt 0])
    else if checkType_set v \<or> checkType_set w then smoveCommand env src dst x s = Some (s2, [RErr WRONGTYPE])
    else \<exists>s'. smoveCommand env src dst x s = Some (s', [RInt (if x \<in> A then 1 else 0)]) \<and> cmd_post env {src, dst} s s' \<and>
      (src \<noteq> dst \<and> x \<in> A \<longrightarrow>
         obj_view env (db_keys s' src) = (if A - {x} = {} then None else Some (Inl (A - {x}))) \<and>
         obj_view env (db_keys s' dst) = Some (Inl (insert x B))) \<and>
      (src = dst \<or> x \<notin> A \<longrightarrow> (\<forall>k. obj_view env (db_keys s' k) = obj_view env (db_keys s2 k)))"
proof -
  note l1 = lookup_write[OF ok l(1)]
  note l2 = lookup_write[OF l1(3,2,5) l(2)]
  have post: "cmd_post env {src, dst} s s2"
    using cmd_post_trans[OF cmd_post_write[OF ok l(1)] cmd_post_write[OF l1(3,2,5) l(2)]] by (simp add: insert_commute)
  show ?thesis
  proof (cases "v = None \<or> checkType_set v \<or> checkType_set w")
    case True
    then show ?thesis using l by (auto simp: smoveCommand_def)
  next
    case False
    then obtain ob where v: "v = Some (OBJ_SET ob)" by (cases v rule: checkType_cases) auto
    have k: "db_keys s2 src = Some (OBJ_SET ob)"
    proof (cases "src = dst")
      case True
      have "lookupKeyWrite src s1 = (s1, v)" using lookup_write_again[OF l(1)[unfolded v]] v by blast
      then show ?thesis using l(2) True l1(4) v by simp
    next
      case False
      have "s2 = s1 \<or> effect {dst} s1 s2" using lookupKeyWrite_ok[OF l1(3,5) l(2)] by (auto simp: lookup_deletes_def)
      then show ?thesis using False l1(4) v by (auto simp: effect_def)
    qed
    note o = db_inv_set[OF l2(2) k]
    have at: "set_at_key s2 src = Some ob" using k by (simp add: set_at_key_Some)
    have A: "A = set_elems env ob" by (simp add: A_def v)
    show ?thesis
    proof (cases "src = dst")
      case True
      from setTypeIsMember_ok[OF conjunct1[OF o] fit] obtain ob' where
        m: "setTypeIsMember env ob x = Some (ob', x \<in> A)" "set_inv env ob'" "set_elems env ob' = set_elems env ob"
        by (auto simp: set_result_def A)
      have q: "quiet env s2 (store_set src ob' s2)" by (rule quiet_store[OF l2(2) k m(2,3)])
      have run: "smoveCommand env src dst x s = Some (store_set src ob' s2, [RInt (if x \<in> A then 1 else 0)])"
        using l True False v at m(1) by (simp add: smoveCommand_def)
      show ?thesis using False v True run cmd_post_seq[OF post cmd_post_quiet[OF l2(3) q]] q by (auto simp: quiet_def)
    next
      case ne: False
      from setTypeRemove_ok[OF conjunct1[OF o] fit] obtain ob1 where
        r: "setTypeRemove env ob x = Some (ob1, x \<in> A)" "set_inv env ob1" "set_elems env ob1 = A - {x}"
        by (auto simp: set_result_def A)
      show ?thesis
      proof (cases "x \<in> A")
        case notin: False
        have q: "quiet env s2 (store_set src ob1 s2)" using r notin A by (intro quiet_store[OF l2(2) k r(2)]) auto
        have run: "smoveCommand env src dst x s = Some (store_set src ob1 s2, [RInt (if x \<in> A then 1 else 0)])"
          using l ne False v at r(1) notin by (simp add: smoveCommand_def)
        show ?thesis using False v notin run cmd_post_seq[OF post cmd_post_quiet[OF l2(3) q]] q by (auto simp: quiet_def)
      next
        case x: True
        define n where "n = card (A - {x})"
        from setTypeSize_ok[OF r(2), unfolded r(3) set_result_def, folded n_def] obtain ob2 where
          z: "setTypeSize ob1 = Some (ob2, n)" "set_inv env ob2" "set_elems env ob2 = A - {x}" by blast
        have fin: "finite (A - {x})" using set_elems_finite[of env ob2] z(3) by simp
        have room2: "card (set_of env (db_keys s2 dst)) < 2 ^ 64 - 1"
          using room lookup_write_view[OF ok(1,3) l(1), of dst] lookup_write_view[OF l1(3,5) l(2), of dst] by auto
        have nd: "\<not> checkType_set (db_keys s2 dst)" using False l2(4) by simp
        have st: "store_set src ob2 (store_set src ob1 s2) = store_set src ob2 s2" by (simp add: store_set_def)
        have put: "(if n = 0 then fst (dbDelete src (store_set src ob2 (store_set src ob1 s2))) else store_set src ob2 (store_set src ob1 s2)) = put_set env src ob2 s2"
          using fin z(3) unfolding n_def put_set_def card_0_eq[OF fin] st by simp
        from smove_tail[OF l2(3,2) k ne z(2) nd fit room2] obtain s' where
          t: "smoveCommand env src dst x s = Some (s', [RInt 1])" "cmd_post env {src, dst} s2 s'"
            "db_keys s' src = (if set_elems env ob2 = {} then None else Some (OBJ_SET ob2))"
            "obj_view env (db_keys s' dst) = Some (Inl (insert x (set_of env (db_keys s2 dst))))"
          using l ne False v at r(1) x z(1) l2(4) by (auto simp: smoveCommand_def put)
        show ?thesis using False v t(1,3,4) cmd_post_seq[OF post t(2)] x ne z(3) l2(4) by (auto simp: B_def)
      qed
    qed
  qed
qed

end
