(* ===== verification/Set_Several.thy ===== *)
theory Set_Several
  imports Set_Single
begin

text \<open>
  The commands on several sets: \<open>SINTER\<close>, \<open>SINTERCARD\<close>, \<open>SINTERSTORE\<close>, \<open>SUNION\<close>, \<open>SDIFF\<close> and the storing forms.
  The sets are given by what a lookup shows of their keys before the command; they keep their members while the
  command reads them, though not their representation.
\<close>

section \<open>What a lookup shows\<close>

definition hidden :: "('o, 'q) server \<Rightarrow> key \<Rightarrow> bool" where
  "hidden s k \<longleftrightarrow> \<not> lazy_expire_disabled s \<and> keyIsExpired s k \<and> \<not> (masterhost s \<and> cl_master (clients s (current_client s)))"

definition visible :: "('o, 'q) server \<Rightarrow> key \<Rightarrow> 'o robj option" where
  "visible s k = snd (lookupKeyRead k s)"

lemma visible_eq: "visible s k = (if hidden s k then None else db_keys s k)"
  by (auto simp: visible_def lookupKeyRead_def lookupKey_def hidden_def expireIfNeeded_def dbFind_def Let_def
      split: option.splits if_splits)

lemma lookupKeyRead_visible: "lookupKeyRead k s = (s', v) \<Longrightarrow> v = visible s k"
  by (simp add: visible_def)

lemma hidden_effect:
  assumes "effect K s s'" "k \<notin> K"
  shows "hidden s' k = hidden s k"
proof -
  have "db_expires s' k = db_expires s k" "cl_master (clients s' c) = cl_master (clients s c)" for c
    using assms by (auto simp: effect_def touched_def)
  then show ?thesis using assms(1) by (simp add: effect_def same_env_def hidden_def keyIsExpired_def getExpire_def)
qed

lemma lookupKeyRead_keeps:
  assumes "watch_ok s" "lookupKeyRead k s = (s', v)"
  shows "visible s' k' = visible s k'"
proof -
  from lookupKey_ok[OF assms(1) assms(2)[unfolded lookupKeyRead_def]] lookupKeyRead_visible[OF assms(2)]
  consider "visible s k = None" "lookup_deletes k s s'" | "s' = s" by auto
  then show ?thesis
  proof cases
    case 1
    then have e: "effect {k} s s'" "db_keys s' k = None" by (simp_all add: lookup_deletes_def)
    show ?thesis using 1(1) e hidden_effect[OF e(1), of k'] by (cases "k' = k") (simp_all add: visible_eq effect_def)
  qed simp
qed

lemma lookup_sets_ok:
  assumes "watch_ok s" "db_inv env s" "lookup_sets ks s = (s', r)"
  shows "cmd_post env (set ks) s s'" "visible s' k = visible s k"
    "r = (if \<exists>k \<in> set ks. checkType_set (visible s k) then None
          else Some (map (\<lambda>k. if visible s k = None then None else Some k) ks))"
proof -
  have "cmd_post env (set ks) s s' \<and> (\<forall>k. visible s' k = visible s k) \<and>
      r = (if \<exists>k \<in> set ks. checkType_set (visible s k) then None
          else Some (map (\<lambda>k. if visible s k = None then None else Some k) ks))"
    using assms
  proof (induction ks arbitrary: s r)
    case Nil
    then show ?case by (simp add: cmd_post_refl)
  next
    case (Cons k ks)
    obtain s1 v where l: "lookupKeyRead k s = (s1, v)" by fastforce
    note l1 = lookup_read[OF Cons.prems(1,2) l]
    have v: "v = visible s k" by (rule lookupKeyRead_visible[OF l])
    have same: "visible s1 k' = visible s k'" for k' by (rule lookupKeyRead_keeps[OF Cons.prems(1) l])
    note p = cmd_post_read[OF Cons.prems(1,2) l]
    show ?case
    proof (cases "checkType_set v")
      case True
      then show ?thesis using Cons.prems(3) l v same cmd_post_mono[OF p, of "set (k # ks)"] by auto
    next
      case False
      obtain r1 where r1: "lookup_sets ks s1 = (s', r1)" "r = map_option ((#) (if v = None then None else Some k)) r1"
        using Cons.prems(3) l False by (auto split: prod.splits)
      from Cons.IH[OF l1(3,2) r1(1)] show ?thesis
        using cmd_post_trans[OF p, of "set ks" s'] False v same r1(2) by auto
    qed
  qed
  then show "cmd_post env (set ks) s s'" "visible s' k = visible s k"
    "r = (if \<exists>k \<in> set ks. checkType_set (visible s k) then None
          else Some (map (\<lambda>k. if visible s k = None then None else Some k) ks))" by blast+
qed

section \<open>Reading the sets\<close>

text \<open>The keys \<open>K\<close> hold the sets \<open>F\<close>.\<close>

definition sees :: "set_env \<Rightarrow> (key \<Rightarrow> byte list set) \<Rightarrow> ('o, 'q) server \<Rightarrow> key set \<Rightarrow> bool" where
  "sees env F s K \<longleftrightarrow> db_inv env s \<and> (\<forall>k \<in> K. obj_view env (db_keys s k) = Some (Inl (F k)))"

lemma sees_quiet: "sees env F s K \<Longrightarrow> quiet env s s' \<Longrightarrow> sees env F s' K"
  by (simp add: sees_def quiet_def)

lemma sees_mono: "sees env F s K \<Longrightarrow> K' \<subseteq> K \<Longrightarrow> sees env F s K'"
  by (auto simp: sees_def)

lemma sees_at:
  assumes "sees env F s K" "k \<in> K"
  obtains ob where "set_at_key s k = Some ob" "set_inv env ob" "set_elems env ob = F k"
    "\<And>ob'. set_inv env ob' \<Longrightarrow> set_elems env ob' = F k \<Longrightarrow> quiet env s (store_set k ob' s)"
proof -
  have inv: "db_inv env s" and "obj_view env (db_keys s k) = Some (Inl (F k))" using assms by (simp_all add: sees_def)
  then obtain ob where ob: "db_keys s k = Some (OBJ_SET ob)" "set_elems env ob = F k" by (auto simp: obj_view_set)
  show ?thesis using that[of ob] ob db_inv_set[OF inv ob(1)] quiet_store[OF inv ob(1)] by (simp add: set_at_key_Some)
qed

lemma sees_store:
  assumes "sees env F s K" "k \<in> K" "set_inv env ob" "set_elems env ob = F k"
  shows "quiet env s (store_set k ob s)"
  using assms(3,4) by (rule_tac sees_at[OF assms(1,2)]) blast

lemma set_sizes_ok:
  "sees env F s {k. Some k \<in> set sets} \<Longrightarrow>
    \<exists>s'. set_sizes sets s = Some (s', map (case_option 0 (\<lambda>k. card (F k))) sets) \<and> quiet env s s'"
proof (induction sets s rule: set_sizes.induct)
  case (1 s)
  then show ?case by (simp add: sees_def quiet_refl)
next
  case (2 ks s)
  then show ?case by (auto simp: sees_def)
next
  case (3 k ks s)
  from sees_at[OF 3(2), of k] obtain ob where ob: "set_at_key s k = Some ob" "set_inv env ob" "set_elems env ob = F k"
    "\<And>ob'. set_inv env ob' \<Longrightarrow> set_elems env ob' = F k \<Longrightarrow> quiet env s (store_set k ob' s)" by auto
  from setTypeSize_ok[OF ob(2)] ob(3) obtain ob' where
    z: "setTypeSize ob = Some (ob', card (F k))" "set_inv env ob'" "set_elems env ob' = F k" by (auto simp: set_result_def)
  note q = ob(4)[OF z(2,3)]
  have "sees env F (store_set k ob' s) {k. Some k \<in> set ks}" by (rule sees_mono[OF sees_quiet[OF 3(2) q]]) auto
  from 3(1)[OF ob(1) z(1) refl this] show ?case using ob(1) z(1) quiet_trans[OF q] by auto
qed

definition qsort_permutes :: "qsort_fn \<Rightarrow> bool" where
  "qsort_permutes qsort \<longleftrightarrow> (\<forall>cmp xs. mset (qsort cmp xs) = mset xs)"

lemma sort_sets_ok:
  assumes "qsort_permutes qsort" "sees env F s {k. Some k \<in> set sets}"
  shows "\<exists>s' sets'. sort_sets qsort cmp sets s = Some (s', sets') \<and> mset sets' = mset sets \<and> quiet env s s'"
proof -
  from set_sizes_ok[OF assms(2)] obtain s' where
    s': "set_sizes sets s = Some (s', map (case_option 0 (\<lambda>k. card (F k))) sets)" "quiet env s s'" by blast
  let ?z = "zip (map (case_option 0 (\<lambda>k. card (F k))) sets) sets"
  have "mset (map snd (qsort cmp ?z)) = image_mset snd (mset ?z)" using assms(1) by (simp add: qsort_permutes_def)
  also have "\<dots> = mset (map snd ?z)" by (rule mset_map[symmetric])
  also have "map snd ?z = sets" by simp
  finally show ?thesis using s' by (simp add: sort_sets_def)
qed

text \<open>An element of a set, as the arguments of the set operations.\<close>

lemma elem_arg:
  assumes "set_rep env ob es" "set_limits env ob es" "e \<in> set es"
  shows "elem_str e = None \<longrightarrow> is_int64 (elem_ll e)" "arg_bytes (elem_str e) (elem_ll e) = lp_text e"
    "sds_fits (lp_text e)" "elem_bulk e = RBulk (lp_text e)"
proof -
  have i: "is_int64 v" if "e = LP_INT v" for v
  proof (cases ob)
    case (Set_INTSET i)
    then show ?thesis using assms that intset_vals_int64[of i] by auto
  next
    case (Set_LISTPACK lp)
    then show ?thesis using assms that lp_rep_ok[of lp es e] by (auto simp: lp_ok_def)
  qed (use assms that in auto)
  show "elem_str e = None \<longrightarrow> is_int64 (elem_ll e)" using i by (cases e) (simp_all add: elem_str_def elem_ll_def)
  show "arg_bytes (elem_str e) (elem_ll e) = lp_text e" using i
    by (cases e) (simp_all add: elem_str_def elem_ll_def arg_bytes_def sdsfromlonglong_eq)
  show "sds_fits (lp_text e)" by (rule set_rep_fits[OF assms])
  show "elem_bulk e = RBulk (lp_text e)" using set_rep_sds[OF assms(1,3)] by (simp add: elem_bulk_def)
qed

section \<open>Intersection\<close>

text \<open>The test of an element against the other sets.\<close>

lemma inter_check_ok:
  assumes e: "elem_str e = None \<longrightarrow> is_int64 (elem_ll e)" "arg_bytes (elem_str e) (elem_ll e) = lp_text e" "sds_fits (lp_text e)"
  shows "sees env F s (set ks) \<Longrightarrow>
    \<exists>s'. inter_check env k0 ks e s = Some (s', \<forall>k \<in> set ks. k = k0 \<or> lp_text e \<in> F k) \<and> quiet env s s'"
proof (induction ks arbitrary: s)
  case Nil
  then show ?case by (simp add: sees_def quiet_refl)
next
  case (Cons k ks)
  show ?case
  proof (cases "k = k0")
    case True
    have "sees env F s (set ks)" by (rule sees_mono[OF Cons.prems]) auto
    from Cons.IH[OF this] show ?thesis using True by auto
  next
    case False
    from sees_at[OF Cons.prems, of k] obtain ob where ob: "set_at_key s k = Some ob" "set_inv env ob" "set_elems env ob = F k"
      "\<And>ob'. set_inv env ob' \<Longrightarrow> set_elems env ob' = F k \<Longrightarrow> quiet env s (store_set k ob' s)" by auto
    from setTypeIsMemberAux_ok[OF ob(2) e(1)] ob(3) e(2,3) obtain ob' where
      m: "setTypeIsMemberAux env ob (elem_str e) (elem_ll e) = Some (ob', lp_text e \<in> F k)" "set_inv env ob'"
        "set_elems env ob' = F k" by (auto simp: set_result_def)
    note q = ob(4)[OF m(2,3)]
    have "sees env F (store_set k ob' s) (set ks)" by (rule sees_mono[OF sees_quiet[OF Cons.prems q]]) auto
    from Cons.IH[OF this] show ?thesis using ob(1) m(1) q quiet_trans[OF q] False by (cases "lp_text e \<in> F k") auto
  qed
qed

text \<open>One element of the first set: it counts if all the other sets have it.\<close>

lemma inter_body_ok:
  fixes kf :: key
  assumes rep: "set_rep env ob es" "set_limits env ob es" "e \<in> set es" and s: "sees env F s (set ks)"
  defines "P \<equiv> \<forall>k \<in> set ks. k = kf \<or> lp_text e \<in> F k"
  shows "\<exists>s'. quiet env s s' \<and> inter_body env mode is_ht kf ks (s, st) e =
    (if \<not> P then Some ((s', st), True)
     else case mode of
         Inter_Card limit \<Rightarrow> Some ((s', st\<lparr>is_cardinality := is_cardinality st + 1\<rparr>),
           \<not> (limit \<noteq> 0 \<and> is_cardinality st + 1 \<ge> limit))
       | Inter_Reply \<Rightarrow> Some ((s', st\<lparr>is_cardinality := is_cardinality st + 1, is_bulks := is_bulks st @ [RBulk (lp_text e)]\<rparr>), True)
       | Inter_Store \<Rightarrow> map_option (\<lambda>st. ((s', st), True)) (inter_store env is_ht e st))"
proof -
  note a = elem_arg[OF rep]
  from inter_check_ok[OF a(1-3) s, of kf] obtain s' where
    "inter_check env kf ks e s = Some (s', P)" "quiet env s s'" by (auto simp: P_def)
  then show ?thesis by (intro exI[of _ s'])
    (auto simp: inter_body_def a(4) map_option_case Let_def split: inter_mode.split option.split)
qed

lemma inter_card_ok:
  assumes rep: "set_rep env ob es" "set_limits env ob es" and n: "limit = 0 \<or> n0 < limit"
  shows "set fs \<subseteq> set es \<Longrightarrow> sees env F s (set ks) \<Longrightarrow> is_cardinality st = n0 \<Longrightarrow>
    \<exists>s' st'. fold_body (inter_body env (Inter_Card limit) is_ht k0 ks) fs (s, st) = Some (s', st') \<and> quiet env s s' \<and>
      is_cardinality st' = (let n = n0 + length (filter (\<lambda>e. \<forall>k \<in> set ks. k = k0 \<or> lp_text e \<in> F k) fs)
         in if limit = 0 then n else min limit n)"
  using n
proof (induction fs arbitrary: s st n0)
  case Nil
  then show ?case by (auto simp: sees_def quiet_refl)
next
  case (Cons e fs)
  have e: "e \<in> set es" and fs: "set fs \<subseteq> set es" using Cons.prems(1) by auto
  from inter_body_ok[OF rep e Cons.prems(2), where mode = "Inter_Card limit" and st = st and kf = k0 and is_ht = is_ht,
      unfolded inter_mode.case Cons.prems(3)] obtain s1 where
    b: "quiet env s s1" "inter_body env (Inter_Card limit) is_ht k0 ks (s, st) e =
      (if \<not> (\<forall>k \<in> set ks. k = k0 \<or> lp_text e \<in> F k) then Some ((s1, st), True)
       else Some ((s1, st\<lparr>is_cardinality := n0 + 1\<rparr>), \<not> (limit \<noteq> 0 \<and> n0 + 1 \<ge> limit)))" by blast
  note s1 = sees_quiet[OF Cons.prems(2) b(1)]
  show ?case
  proof (cases "\<forall>k \<in> set ks. k = k0 \<or> lp_text e \<in> F k")
    case False
    from Cons.IH[OF fs s1 Cons.prems(3,4)] show ?thesis using b False quiet_trans[OF b(1)] by auto
  next
    case True
    show ?thesis
    proof (cases "limit \<noteq> 0 \<and> n0 + 1 \<ge> limit")
      case stop: True
      then show ?thesis using b True Cons.prems(4) by auto
    next
      case False
      then have "limit = 0 \<or> n0 + 1 < limit" by auto
      from Cons.IH[OF fs s1, of "st\<lparr>is_cardinality := n0 + 1\<rparr>" "n0 + 1"] this show ?thesis
        using b True False quiet_trans[OF b(1)] by auto
    qed
  qed
qed

lemma inter_reply_ok:
  fixes kf :: key and s :: "('o, 'q) server"
  assumes rep: "set_rep env ob es" "set_limits env ob es" and s: "sees env F s (set ks)"
  defines "P \<equiv> \<lambda>e. \<forall>k \<in> set ks. k = kf \<or> lp_text e \<in> F k"
  shows "\<exists>s' st'. fold_body (inter_body env Inter_Reply is_ht kf ks) es
      (s, \<lparr>is_dst = dst, is_only_integers = b, is_cardinality = 0, is_bulks = []\<rparr>) = Some (s', st') \<and> quiet env s s' \<and>
    is_cardinality st' = length (filter P es) \<and> is_bulks st' = map (\<lambda>e. RBulk (lp_text e)) (filter P es)"
proof -
  let ?I = "\<lambda>xs (s1, st1). quiet env s s1 \<and> is_cardinality st1 = length (filter P xs) \<and>
    is_bulks st1 = map (\<lambda>e. RBulk (lp_text e)) (filter P xs)"
  have inv: "db_inv env s" using s by (simp add: sees_def)
  have "\<exists>acc. fold_body (inter_body env Inter_Reply is_ht kf ks) es
      (s, \<lparr>is_dst = dst, is_only_integers = b, is_cardinality = 0, is_bulks = []\<rparr>) = Some acc \<and> ?I es acc"
  proof (rule fold_body_inv[where I = ?I and xs = "[]"])
    fix xs e ys and acc :: "('o, 'q) server \<times> inter_state"
    assume es: "es = xs @ e # ys" and I: "?I xs acc"
    obtain s1 st1 where acc: "acc = (s1, st1)" by fastforce
    have q: "quiet env s s1" using I acc by simp
    have "e \<in> set es" using es by simp
    from inter_body_ok[OF rep this sees_quiet[OF s q], where mode = Inter_Reply and st = st1 and kf = kf and is_ht = is_ht,
        unfolded inter_mode.case] obtain s2 where
      "quiet env s1 s2" "inter_body env Inter_Reply is_ht kf ks (s1, st1) e = (if \<not> P e then Some ((s2, st1), True)
       else Some ((s2, st1\<lparr>is_cardinality := is_cardinality st1 + 1, is_bulks := is_bulks st1 @ [RBulk (lp_text e)]\<rparr>), True))"
      unfolding P_def by blast
    then show "\<exists>acc'. inter_body env Inter_Reply is_ht kf ks acc e = Some (acc', True) \<and> ?I (xs @ [e]) acc'"
      using I acc quiet_trans[OF q] by auto
  qed (use quiet_refl[OF inv] in auto)
  then show ?thesis by auto
qed

lemma inter_store_ok:
  assumes dst: "set_inv env (is_dst st)" and room: "card (set_elems env (is_dst st)) < 2 ^ 64 - 1"
    and e: "elem_str e = None \<longrightarrow> is_int64 (elem_ll e)" "arg_bytes (elem_str e) (elem_ll e) = lp_text e" "sds_fits (lp_text e)"
    and ints: "is_only_integers st \<Longrightarrow> \<forall>x \<in> set_elems env (is_dst st). string2ll x \<noteq> None"
  shows "\<exists>st'. inter_store env is_ht e st = Some st' \<and> set_inv env (is_dst st') \<and>
    set_elems env (is_dst st') = insert (lp_text e) (set_elems env (is_dst st)) \<and>
    (is_only_integers st' \<longrightarrow> (\<forall>x \<in> set_elems env (is_dst st'). string2ll x \<noteq> None))"
proof -
  define as_int where "as_int = (if is_ht \<and> is_only_integers st then Option.bind (elem_str e) string2ll else None)"
  define only where "only = (if elem_str e \<noteq> None \<and> is_only_integers st \<and> as_int = None then False else is_only_integers st)"
  define str where "str = (if as_int \<noteq> None \<and> set_encoding_of (is_dst st) \<noteq> OBJ_ENCODING_HT then None else elem_str e)"
  define ll where "ll = (case as_int of Some v \<Rightarrow> v | None \<Rightarrow> elem_ll e)"
  have int: "is_int64 v \<and> lp_text e = sdec v \<and> elem_str e = Some (sdec v)" if "as_int = Some v" for v
    using that e(2) by (auto simp: as_int_def string2ll_iff arg_bytes_def split: if_splits bind_splits)
  have arg: "str = None \<longrightarrow> is_int64 ll" "arg_bytes str ll = lp_text e"
    using e int by (auto simp: str_def ll_def arg_bytes_def sdsfromlonglong_eq split: option.splits)
  from setTypeAddAux_ok[OF dst arg(1) _ room] arg(2) e(3) obtain dst' b where
    d: "setTypeAddAux env (is_dst st) str ll = Some (dst', b)" "set_inv env dst'"
      "set_elems env dst' = insert (lp_text e) (set_elems env (is_dst st))" by (auto simp: set_result_def)
  have "string2ll (lp_text e) \<noteq> None" if "only"
  proof (cases as_int)
    case None
    then have "elem_str e = None" using that by (auto simp: only_def split: if_splits)
    then have "is_int64 (elem_ll e)" "lp_text e = sdec (elem_ll e)" using e by (simp_all add: arg_bytes_def sdsfromlonglong_eq)
    then show ?thesis by (metis option.distinct(1) string2ll_iff)
  next
    case (Some v)
    then show ?thesis using int[OF Some] by (metis option.distinct(1) string2ll_iff)
  qed
  moreover have "only \<Longrightarrow> is_only_integers st" by (simp add: only_def split: if_splits)
  moreover have "inter_store env is_ht e st = Some (st\<lparr>is_dst := dst', is_only_integers := only\<rparr>)"
    unfolding inter_store_def Let_def as_int_def[symmetric] only_def[symmetric] str_def[symmetric] ll_def[symmetric] d(1) by simp
  ultimately show ?thesis using d ints by auto
qed

lemma inter_store_fold:
  fixes kf :: key and s :: "('o, 'q) server"
  assumes rep: "set_rep env ob es" "set_limits env ob es" and s: "sees env F s (set ks)" and dst: "set_inv env dst" "set_elems env dst = {}"
  defines "P \<equiv> \<lambda>e. \<forall>k \<in> set ks. k = kf \<or> lp_text e \<in> F k"
  shows "\<exists>s' st'. fold_body (inter_body env Inter_Store is_ht kf ks) es
      (s, \<lparr>is_dst = dst, is_only_integers = True, is_cardinality = 0, is_bulks = []\<rparr>) = Some (s', st') \<and> quiet env s s' \<and>
    set_inv env (is_dst st') \<and> set_elems env (is_dst st') = lp_text ` set (filter P es) \<and>
    (is_only_integers st' \<longrightarrow> (\<forall>x \<in> set_elems env (is_dst st'). string2ll x \<noteq> None))"
proof -
  let ?I = "\<lambda>xs (s1, st1). quiet env s s1 \<and> set_inv env (is_dst st1) \<and> set_elems env (is_dst st1) = lp_text ` set (filter P xs) \<and>
    (is_only_integers st1 \<longrightarrow> (\<forall>x \<in> set_elems env (is_dst st1). string2ll x \<noteq> None))"
  have inv: "db_inv env s" using s by (simp add: sees_def)
  have "\<exists>acc. fold_body (inter_body env Inter_Store is_ht kf ks) es
      (s, \<lparr>is_dst = dst, is_only_integers = True, is_cardinality = 0, is_bulks = []\<rparr>) = Some acc \<and> ?I es acc"
  proof (rule fold_body_inv[where I = ?I and xs = "[]"])
    fix xs e ys and acc :: "('o, 'q) server \<times> inter_state"
    assume es: "es = xs @ e # ys" and I: "?I xs acc"
    obtain s1 st1 where acc: "acc = (s1, st1)" by fastforce
    have q: "quiet env s s1" and d: "set_inv env (is_dst st1)" "set_elems env (is_dst st1) = lp_text ` set (filter P xs)"
      "is_only_integers st1 \<Longrightarrow> \<forall>x \<in> set_elems env (is_dst st1). string2ll x \<noteq> None" using I acc by simp_all
    have e: "e \<in> set es" using es by simp
    have "card (lp_text ` set (filter P xs)) \<le> length xs"
      using card_image_le[OF finite_set, of lp_text "filter P xs"] card_length[of "filter P xs"] length_filter_le[of P xs] by linarith
    then have room: "card (set_elems env (is_dst st1)) < 2 ^ 64 - 1" using set_rep_length64[OF rep(1)] es d(2) by simp
    from inter_body_ok[OF rep e sees_quiet[OF s q], where mode = Inter_Store and st = st1 and kf = kf and is_ht = is_ht,
        unfolded inter_mode.case] obtain s2 where
      b: "quiet env s1 s2" "inter_body env Inter_Store is_ht kf ks (s1, st1) e = (if \<not> P e then Some ((s2, st1), True)
       else map_option (\<lambda>st. ((s2, st), True)) (inter_store env is_ht e st1))"
      unfolding P_def by blast
    show "\<exists>acc'. inter_body env Inter_Store is_ht kf ks acc e = Some (acc', True) \<and> ?I (xs @ [e]) acc'"
    proof (cases "P e")
      case False
      then show ?thesis using b I acc quiet_trans[OF q b(1)] by simp
    next
      case True
      from inter_store_ok[OF d(1) room elem_arg(1-3)[OF rep e] d(3), of is_ht] obtain st2 where
        "inter_store env is_ht e st1 = Some st2" "set_inv env (is_dst st2)"
        "set_elems env (is_dst st2) = insert (lp_text e) (set_elems env (is_dst st1))"
        "is_only_integers st2 \<longrightarrow> (\<forall>x \<in> set_elems env (is_dst st2). string2ll x \<noteq> None)" by blast
      then show ?thesis using b(2) acc True d(2) quiet_trans[OF q b(1)] by simp
    qed
  qed (use quiet_refl[OF inv] dst in auto)
  then show ?thesis by auto
qed

section \<open>Storing the result\<close>

lemma setKey_ok:
  assumes ok: "watch_ok s" "db_inv env s" "can_write s" and v: "obj_ok env (Some val)"
  shows "\<exists>s'. setKey key val s = Some s' \<and> cmd_post env {key} s s' \<and> db_keys s' key = Some val"
proof -
  obtain s1 w where l: "lookupKeyWrite key s = (s1, w)" by fastforce
  note l1 = lookup_write[OF ok l]
  let ?s2 = "s1\<lparr>db_keys := (db_keys s1)(key \<mapsto> val)\<rparr>"
  let ?s3 = "fst (removeExpire key ?s2)"
  have run: "setKey key val s = Some (signalModifiedKey key ?s3)"
    using l l1(4) by (auto simp: setKey_def dbAdd_def dbSetValue_def dbFind_def removeExpire_def)
  have s3: "db_watched_keys ?s3 = db_watched_keys s1" "clients ?s3 = clients s1" "same_env s1 ?s3"
    by (simp_all add: removeExpire_def same_env_def)
  have sig: "cmd_effect env {key} s1 (signalModifiedKey key ?s3)" "same_data ?s3 (signalModifiedKey key ?s3)"
    by (rule signal_change[OF l1(3) s3]; simp add: removeExpire_def)+
  have "db_inv env ?s3" using l1(2) v by (auto simp: db_inv_def removeExpire_def)
  then have "cmd_post env {key} s1 (signalModifiedKey key ?s3)" using cmd_postI[OF sig(1)] same_data_inv[OF sig(2)] by auto
  then show ?thesis using run cmd_post_seq[OF cmd_post_write[OF ok l]] sig(2) by (auto simp: same_data_def removeExpire_def)
qed

lemma delete_dst_ok:
  assumes ok: "watch_ok s" "db_inv env s"
  shows "cmd_post env {key} s (delete_dst key s)" "db_keys (delete_dst key s) key = None"
proof -
  have "cmd_post env {key} s (delete_dst key s) \<and> db_keys (delete_dst key s) key = None"
  proof (cases "db_keys s key")
    case None
    then show ?thesis using cmd_post_refl[OF ok] by (simp add: delete_dst_def dbDelete_def dbGenericDelete_def dbFind_def)
  next
    case (Some v)
    have "delete_dst key s = add_dirty 1 (signalModifiedKey key (fst (dbDelete key s)))"
      using Some by (simp add: delete_dst_def dbDelete_def dbGenericDelete_def dbFind_def)
    then show ?thesis using delete_signal[OF ok(1) db_invD(1)[OF ok(2)] db_invD(2)[OF ok(2)], of key] Some cmd_post_dirty by auto
  qed
  then show "cmd_post env {key} s (delete_dst key s)" "db_keys (delete_dst key s) key = None" by blast+
qed

text \<open>The tail of the storing commands, once the result is there.\<close>

lemma store_result:
  assumes ok: "watch_ok s" "db_inv env s" "can_write s" and dst: "set_inv env dst" "set_elems env dst \<noteq> {}"
  shows "\<exists>s'. (do { s \<leftarrow> setKey d (OBJ_SET dst) s; (dst, n) \<leftarrow> setTypeSize dst;
      Some (add_dirty 1 (store_set d dst s), [RInt (int n)]) }) = Some (s', [RInt (int (card (set_elems env dst)))]) \<and>
    cmd_post env {d} s s' \<and> obj_view env (db_keys s' d) = Some (Inl (set_elems env dst))"
proof -
  from setKey_ok[OF ok, of "OBJ_SET dst" d] dst obtain s1 where
    k: "setKey d (OBJ_SET dst) s = Some s1" "cmd_post env {d} s s1" "db_keys s1 d = Some (OBJ_SET dst)" by auto
  from setTypeSize_ok[OF dst(1)] obtain dst' where
    z: "setTypeSize dst = Some (dst', card (set_elems env dst))" "set_inv env dst'" "set_elems env dst' = set_elems env dst"
    by (auto simp: set_result_def)
  have q: "quiet env s1 (store_set d dst' s1)" by (rule quiet_store[OF cmd_post_ok(2)[OF k(2)] k(3) z(2,3)])
  show ?thesis using k(1) z(1,3) cmd_post_dirty[OF cmd_post_seq[OF k(2) cmd_post_quiet[OF cmd_post_ok(1)[OF k(2)] q]]] by auto
qed

lemma shrink_inv:
  assumes "set_inv env (Set_LISTPACK lp)"
  shows "set_inv env (Set_LISTPACK (lpShrinkToFit lp)) \<and>
    set_elems env (Set_LISTPACK (lpShrinkToFit lp)) = set_elems env (Set_LISTPACK lp)"
proof -
  from assms obtain es where es: "env_ok env" "set_rep env (Set_LISTPACK lp) es" "set_limits env (Set_LISTPACK lp) es"
    "set_elems env (Set_LISTPACK lp) = lp_text ` set es" by (rule set_invE)
  have "lp_rep (lpShrinkToFit lp) es" using es(2) by (auto elim!: lp_repE simp: lpShrinkToFit_image lp_repI)
  then show ?thesis using set_invI[OF es(1), of "Set_LISTPACK (lpShrinkToFit lp)" es] es(2-4) by simp
qed

lemma sinter_finish_ok:
  assumes ok: "watch_ok s" "db_inv env s" "can_write s" and dst: "set_inv env dst"
    and ints: "only \<Longrightarrow> \<forall>x \<in> set_elems env dst. string2ll x \<noteq> None"
  defines "A \<equiv> set_elems env dst"
  shows "\<exists>s'. sinter_finish env d dst only s = Some (s', [RInt (int (card A))]) \<and> cmd_post env {d} s s' \<and>
    obj_view env (db_keys s' d) = (if A = {} then None else Some (Inl A))"
proof -
  from setTypeSize_ok[OF dst] obtain dst1 where
    z: "setTypeSize dst = Some (dst1, card A)" "set_inv env dst1" "set_elems env dst1 = A" by (auto simp: set_result_def A_def)
  have fin: "finite A" by (simp add: A_def set_elems_finite)
  show ?thesis
  proof (cases "A = {}")
    case True
    then show ?thesis using z(1) delete_dst_ok[OF ok(1,2), of d] by (simp add: sinter_finish_def)
  next
    case False
    have "\<exists>dst2. (if only then maybeConvertToIntset env dst1 else Some dst1) = Some dst2 \<and> set_inv env dst2 \<and> set_elems env dst2 = A"
      using maybeConvertToIntset_ok[OF z(2)] z(2,3) ints by (auto simp: A_def)
    then obtain dst2 where d2: "(if only then maybeConvertToIntset env dst1 else Some dst1) = Some dst2" "set_inv env dst2"
      "set_elems env dst2 = A" by blast
    define dst3 where "dst3 = (case dst2 of Set_LISTPACK lp \<Rightarrow> Set_LISTPACK (lpShrinkToFit lp) | _ \<Rightarrow> dst2)"
    have d3: "set_inv env dst3" "set_elems env dst3 = A" using d2(2,3) shrink_inv by (auto simp: dst3_def split: setobj.splits)
    from store_result[OF ok d3(1), of d] d3(2) False obtain s' where
      "(do { s \<leftarrow> setKey d (OBJ_SET dst3) s; (dst, n) \<leftarrow> setTypeSize dst3;
      Some (add_dirty 1 (store_set d dst s), [RInt (int n)]) }) = Some (s', [RInt (int (card A))])" "cmd_post env {d} s s'"
      "obj_view env (db_keys s' d) = Some (Inl A)" by auto
    then show ?thesis using z(1) d2(1) False fin by (auto simp: sinter_finish_def dst3_def[symmetric] card_gt_0_iff Let_def)
  qed
qed

lemma can_write_post:
  assumes "cmd_post env ks s s'"
  shows "can_write s' \<longleftrightarrow> can_write s"
proof -
  from assms obtain K where t: "touched K s s'" "same_env s s'" by (auto simp: cmd_post_def cmd_effect_def)
  have "cl_master (clients s' c) = cl_master (clients s c)" for c using t(1) by (simp add: touched_def)
  then show ?thesis using t(2) by (simp add: can_write_def same_env_def)
qed

text \<open>After the lookups: the keys hold the sets, or one of them is missing.\<close>

lemma lookup_sets_sees:
  assumes ok: "watch_ok s" "db_inv env s" and l: "lookup_sets ks s = (s1, Some sets)"
  defines "F \<equiv> \<lambda>k. set_of env (visible s k)"
  shows "sees env F s1 {k. Some k \<in> set sets}" "{k. Some k \<in> set sets} = {k \<in> set ks. F k \<noteq> {}}"
    "sets = map (\<lambda>k. if F k = {} then None else Some k) ks"
proof -
  note p = lookup_sets_ok[OF ok l]
  have t: "\<not> checkType_set (visible s k)" if "k \<in> set ks" for k using p(3) that by (auto split: if_splits)
  have *: "(if visible s k = None then None else Some k) = (if F k = {} then None else Some k) \<and>
      (F k \<noteq> {} \<longrightarrow> obj_view env (db_keys s1 k) = Some (Inl (F k)))" if "k \<in> set ks" for k
  proof (cases "visible s k" rule: checkType_cases)
    case (set ob)
    then have k: "db_keys s1 k = Some (OBJ_SET ob)" using p(2)[of k] by (simp add: visible_eq split: if_splits)
    show ?thesis using set db_inv_set[OF cmd_post_ok(2)[OF p(1)] k] k by (simp add: F_def)
  qed (use t[OF that] in \<open>auto simp: F_def\<close>)
  show eq: "sets = map (\<lambda>k. if F k = {} then None else Some k) ks" using p(3) * by (auto split: if_splits)
  show ks: "{k. Some k \<in> set sets} = {k \<in> set ks. F k \<noteq> {}}" by (auto simp: eq split: if_splits)
  show "sees env F s1 {k. Some k \<in> set sets}" using cmd_post_ok(2)[OF p(1)] * by (auto simp: sees_def ks)
qed

text \<open>The members of the first set that all the others have, and how many there are.\<close>

lemma inter_filter:
  fixes ks :: "key list"
  assumes "distinct (map lp_text es)" "F kf = lp_text ` set es"
  defines "P \<equiv> \<lambda>e. \<forall>k \<in> set ks. k = kf \<or> lp_text e \<in> F k"
  shows "lp_text ` set (filter P es) = (\<Inter>k \<in> set (kf # ks). F k)" "distinct (map lp_text (filter P es))"
    "length (filter P es) = card (\<Inter>k \<in> set (kf # ks). F k)"
proof -
  show eq: "lp_text ` set (filter P es) = (\<Inter>k \<in> set (kf # ks). F k)"
    using assms(2) by (auto simp: P_def)
  show d: "distinct (map lp_text (filter P es))" by (rule distinct_map_filter[OF assms(1)])
  show "length (filter P es) = card (\<Inter>k \<in> set (kf # ks). F k)" using distinct_card[OF d] eq by simp
qed

lemma inter_dst_ok: "env_ok env \<Longrightarrow> set_inv env (inter_dst ob) \<and> set_elems env (inter_dst ob) = {}"
  using set_inv_empty by (auto simp: inter_dst_def createSetListpackObject_def split: setobj.split)

text \<open>What the commands promise: the reply and, for the storing form, the set at the destination.\<close>

definition set_reply :: "set_env \<Rightarrow> byte list set \<Rightarrow> key option \<Rightarrow> nat option \<Rightarrow> ('o, 'q) server \<Rightarrow> reply list \<Rightarrow> bool" where
  "set_reply env A dstkey card_limit s' rs \<longleftrightarrow>
     (case card_limit of
        Some limit \<Rightarrow> rs = [RInt (int (if limit = 0 then card A else min limit (card A)))]
      | None \<Rightarrow>
          (case dstkey of
             None \<Rightarrow> \<exists>xs. rs = RSetLen (card A) # map RBulk xs \<and> distinct xs \<and> set xs = A
           | Some d \<Rightarrow> rs = [RInt (int (card A))] \<and>
               obj_view env (db_keys s' d) = (if A = {} then None else Some (Inl A))))"

lemma sinter_sets:
  assumes ok: "watch_ok s" "dstkey \<noteq> None \<longrightarrow> can_write s" and s: "sees env F s (set (kf # ks))"
    and mode: "card_limit \<noteq> None \<longrightarrow> dstkey = None"
  defines "A \<equiv> (\<Inter>k \<in> set (kf # ks). F k)"
  shows "\<exists>s' rs. (do {
      set0 \<leftarrow> set_at_key s kf;
      let mode = (case card_limit of Some limit \<Rightarrow> Inter_Card limit
                  | None \<Rightarrow> if dstkey = None then Inter_Reply else Inter_Store);
      let st = \<lparr>is_dst = inter_dst set0, is_only_integers = True, is_cardinality = 0, is_bulks = []\<rparr>;
      (set0, s, st) \<leftarrow> set_iterate env
        (inter_body env mode (set_encoding_of set0 = OBJ_ENCODING_HT) kf ks) set0 (s, st);
      let s = store_set kf set0 s;
      (case card_limit of
         Some _ \<Rightarrow> Some (s, [RInt (int (is_cardinality st))])
       | None \<Rightarrow>
           (case dstkey of
              Some d \<Rightarrow> sinter_finish env d (is_dst st) (is_only_integers st) s
            | None \<Rightarrow> Some (s, RSetLen (is_cardinality st) # is_bulks st)))
    }) = Some (s', rs) \<and> cmd_post env (set_option dstkey) s s' \<and> set_reply env A dstkey card_limit s' rs"
proof -
  have inv: "db_inv env s" using s by (simp add: sees_def)
  obtain ob where ob: "set_at_key s kf = Some ob" "set_inv env ob" "set_elems env ob = F kf"
    by (rule sees_at[OF s, of kf]) auto
  from ob(2) obtain es where es: "env_ok env" "set_rep env ob es" "set_elems env ob = lp_text ` set es" "set_limits env ob es" by (rule set_invE)
  have sk: "sees env F s (set ks)" by (rule sees_mono[OF s]) auto
  let ?P = "\<lambda>e. \<forall>k \<in> set ks. k = kf \<or> lp_text e \<in> F k"
  have Fk: "F kf = lp_text ` set es" using ob(3) es(3) by simp
  note f = inter_filter[of es F kf ks, OF set_rep_distinct[OF es(2)] Fk, folded A_def]
  have st: "quiet env s (store_set kf ob s1)" if "quiet env s s1" for s1
    using quiet_trans[OF that sees_store[OF sees_quiet[OF s that] _ ob(2,3)]] by simp
  note it = set_iterate_ok[OF es(2)]
  show ?thesis
  proof (cases card_limit)
    case (Some limit)
    from inter_card_ok[OF es(2,4), where limit = limit and fs = es and s = s and ks = ks
      and st = "\<lparr>is_dst = inter_dst ob, is_only_integers = True, is_cardinality = 0, is_bulks = []\<rparr>"
      and is_ht = "set_encoding_of ob = OBJ_ENCODING_HT" and F = F, of 0 kf] sk obtain s1 st1 where
      "fold_body (inter_body env (Inter_Card limit) (set_encoding_of ob = OBJ_ENCODING_HT) kf ks) es
        (s, \<lparr>is_dst = inter_dst ob, is_only_integers = True, is_cardinality = 0, is_bulks = []\<rparr>) = Some (s1, st1)" "quiet env s s1"
      "is_cardinality st1 = (if limit = 0 then length (filter ?P es) else min limit (length (filter ?P es)))"
      by (auto simp: Let_def)
    then show ?thesis using Some mode ob(1) f(3) cmd_post_quiet[OF ok(1) st[of s1]] by (simp add: it set_reply_def)
  next
    case None
    note lim = this
    show ?thesis
    proof (cases dstkey)
      case None
      from inter_reply_ok[OF es(2,4) sk, where kf = kf and is_ht = "set_encoding_of ob = OBJ_ENCODING_HT" and b = True and dst = "inter_dst ob"]
      obtain s1 st1 where
        "fold_body (inter_body env Inter_Reply (set_encoding_of ob = OBJ_ENCODING_HT) kf ks) es
          (s, \<lparr>is_dst = inter_dst ob, is_only_integers = True, is_cardinality = 0, is_bulks = []\<rparr>) = Some (s1, st1)" "quiet env s s1"
        "is_cardinality st1 = length (filter ?P es)" "is_bulks st1 = map RBulk (map lp_text (filter ?P es))"
        by auto
      then show ?thesis using None lim ob(1) f cmd_post_quiet[OF ok(1) st[of s1]]
        by (auto simp: it set_reply_def intro!: exI[of _ "map lp_text (filter ?P es)"])
    next
      case (Some d)
      note dst = inter_dst_ok[OF es(1), of ob]
      from inter_store_fold[OF es(2,4) sk conjunct1[OF dst] conjunct2[OF dst],
          where kf = kf and is_ht = "set_encoding_of ob = OBJ_ENCODING_HT"] obtain s1 st1 where
        a: "fold_body (inter_body env Inter_Store (set_encoding_of ob = OBJ_ENCODING_HT) kf ks) es
          (s, \<lparr>is_dst = inter_dst ob, is_only_integers = True, is_cardinality = 0, is_bulks = []\<rparr>) = Some (s1, st1)" "quiet env s s1"
        "set_inv env (is_dst st1)" "set_elems env (is_dst st1) = A"
        "is_only_integers st1 \<Longrightarrow> \<forall>x \<in> set_elems env (is_dst st1). string2ll x \<noteq> None" unfolding f(1) by auto
      have p: "cmd_post env {d} s (store_set kf ob s1)" by (rule cmd_post_quiet[OF ok(1) st[OF a(2)]])
      from sinter_finish_ok[OF cmd_post_ok[OF p] _ a(3,5), where d = d] can_write_post[OF p] ok(2) Some a(4) obtain s' where
        "sinter_finish env d (is_dst st1) (is_only_integers st1) (store_set kf ob s1) = Some (s', [RInt (int (card A))])"
        "cmd_post env {d} (store_set kf ob s1) s'" "obj_view env (db_keys s' d) = (if A = {} then None else Some (Inl A))" by auto
      then show ?thesis using Some lim ob(1) a(1) cmd_post_seq[OF p] by (auto simp: it set_reply_def)
    qed
  qed
qed

lemma sinterGenericCommand_ok:
  assumes ok: "watch_ok s" "db_inv env s" "dstkey \<noteq> None \<longrightarrow> can_write s" and q: "qsort_permutes qsort" and ks: "setkeys \<noteq> []"
    and mode: "card_limit \<noteq> None \<longrightarrow> dstkey = None"
  shows "if \<exists>k \<in> set setkeys. checkType_set (visible s k)
    then \<exists>s'. sinterGenericCommand env qsort setkeys dstkey card_limit s = Some (s', [RErr WRONGTYPE]) \<and> cmd_post env (set setkeys) s s'
    else \<exists>s' rs. sinterGenericCommand env qsort setkeys dstkey card_limit s = Some (s', rs) \<and>
      cmd_post env (set setkeys \<union> set_option dstkey) s s' \<and>
      set_reply env (\<Inter>k \<in> set setkeys. set_of env (visible s k)) dstkey card_limit s' rs"
proof -
  define F where "F = (\<lambda>k. set_of env (visible s k))"
  obtain s1 r where l: "lookup_sets setkeys s = (s1, r)" by fastforce
  note p = lookup_sets_ok[OF ok(1,2) l]
  show ?thesis
  proof (cases r)
    case None
    then show ?thesis using l p(1,3) by (auto simp: sinterGenericCommand_def split: if_splits)
  next
    case (Some sets)
    then have t: "\<not> (\<exists>k \<in> set setkeys. checkType_set (visible s k))" using p(3) by (auto split: if_splits)
    note v = lookup_sets_sees[OF ok(1,2) l[unfolded Some], folded F_def]
    show ?thesis
    proof (cases "None \<in> set sets")
      case True
      then have "\<exists>k \<in> set setkeys. F k = {}" by (auto simp: v(3) F_def split: if_splits)
      then have A: "(\<Inter>k \<in> set setkeys. F k) = {}" by auto
      have "set_reply env {} dstkey card_limit s' rs" if "(s', rs) = (case dstkey of Some d \<Rightarrow> (delete_dst d s1, [RInt 0])
          | None \<Rightarrow> (s1, [if card_limit \<noteq> None then RInt 0 else RSetLen 0]))" for s' rs
        using that mode delete_dst_ok(2)[OF cmd_post_ok[OF p(1)]] by (auto simp: set_reply_def split: option.splits)
      moreover have "cmd_post env (set setkeys \<union> set_option dstkey) s (case dstkey of Some d \<Rightarrow> delete_dst d s1 | None \<Rightarrow> s1)"
        using cmd_post_trans[OF p(1) delete_dst_ok(1)[OF cmd_post_ok[OF p(1)]]] p(1) by (auto split: option.split)
      ultimately show ?thesis using t l Some True A
        by (cases dstkey) (auto simp: sinterGenericCommand_def F_def)
    next
      case False
      have ne: "F k \<noteq> {}" if "k \<in> set setkeys" for k using False that by (auto simp: v(3) F_def split: if_splits)
      from sort_sets_ok[OF q v(1), of qsortCompareSetsByCardinality] obtain s2 sets2 where
        s2: "sort_sets qsort qsortCompareSetsByCardinality sets s1 = Some (s2, sets2)" "mset sets2 = mset sets" "quiet env s1 s2" by blast
      have "sets = map Some setkeys" unfolding v(3) using ne by (auto simp: F_def)
      then have "set sets2 = Some ` set setkeys" using mset_eq_setD[OF s2(2)] by simp
      then have keys: "set (map the sets2) = set setkeys" by (simp add: image_image)
      then obtain kf rest where k: "map the sets2 = kf # rest" using ks by (cases "map the sets2") auto
      have "sees env F s2 (set (kf # rest))"
        by (rule sees_mono[OF sees_quiet[OF v(1) s2(3)]]) (use keys[unfolded k] ne in \<open>auto simp: v(2) F_def\<close>)
      note * = sinter_sets[OF _ _ this mode]
      have p2: "cmd_post env (set setkeys) s s2" by (rule cmd_post_seq[OF p(1) cmd_post_quiet[OF cmd_post_ok(1)[OF p(1)] s2(3)]])
      from *[OF cmd_post_ok(1)[OF p2]] can_write_post[OF p2] ok(3) keys[unfolded k] show ?thesis
        using t l Some False s2(1) k cmd_post_trans[OF p2] by (fastforce simp: sinterGenericCommand_def F_def)
    qed
  qed
qed

end
