(* ===== verification/Set_Union.thy ===== *)
theory Set_Union
  imports Set_Several
begin

text \<open>
  \<open>SUNION\<close>, \<open>SDIFF\<close> and their storing forms: the union and, by either algorithm, the difference of the sets.
\<close>

section \<open>Union and difference\<close>

text \<open>The result so far, with its cardinality.\<close>

definition is_acc :: "set_env \<Rightarrow> byte list set \<Rightarrow> setobj \<times> int \<Rightarrow> bool" where
  "is_acc env A acc \<longleftrightarrow> set_inv env (fst acc) \<and> set_elems env (fst acc) = A \<and> snd acc = int (card A) \<and> card A < 2 ^ 31"

lemma is_acc_empty: "env_ok env \<Longrightarrow> is_acc env {} (createIntsetObject, 0)"
  using set_inv_empty(1) by (simp add: is_acc_def)

lemma is_acc_finite: "is_acc env A acc \<Longrightarrow> finite A"
  using set_elems_finite by (auto simp: is_acc_def)

lemma add_body_ok:
  assumes e: "elem_str e = None \<longrightarrow> is_int64 (elem_ll e)" "arg_bytes (elem_str e) (elem_ll e) = lp_text e" "sds_fits (lp_text e)"
    and acc: "is_acc env A acc" and room: "card (insert (lp_text e) A) < 2 ^ 31"
  shows "\<exists>acc'. add_body env acc e = Some (acc', True) \<and> is_acc env (insert (lp_text e) A) acc'"
proof -
  note a = acc[unfolded is_acc_def]
  have r: "card (set_elems env (fst acc)) < 2 ^ 64 - 1" using a by simp
  from setTypeAddAux_ok[OF conjunct1[OF a] e(1) _ r] e(2,3) a obtain dst where
    d: "setTypeAddAux env (fst acc) (elem_str e) (elem_ll e) = Some (dst, lp_text e \<notin> A)" "set_inv env dst"
      "set_elems env dst = insert (lp_text e) A" by (auto simp: set_result_def)
  have c: "card (insert (lp_text e) A) = card A + (if lp_text e \<in> A then 0 else 1)"
    using is_acc_finite[OF acc] by (simp add: card_insert_if)
  have n: "add_cardinality (snd acc) (if lp_text e \<notin> A then 1 else 0) = Some (int (card (insert (lp_text e) A)))"
    using a room c by (auto simp: add_cardinality_def)
  show ?thesis unfolding add_body_def d(1) using n d(2,3) room by (simp add: is_acc_def)
qed

lemma remove_body_ok:
  assumes e: "elem_str e = None \<longrightarrow> is_int64 (elem_ll e)" "arg_bytes (elem_str e) (elem_ll e) = lp_text e" "sds_fits (lp_text e)"
    and acc: "is_acc env A acc"
  shows "\<exists>acc'. remove_body env acc e = Some (acc', True) \<and> is_acc env (A - {lp_text e}) acc'"
proof -
  note a = acc[unfolded is_acc_def]
  from setTypeRemoveAux_ok[OF conjunct1[OF a] e(1)] e(2,3) a obtain dst where
    d: "setTypeRemoveAux env (fst acc) (elem_str e) (elem_ll e) = Some (dst, lp_text e \<in> A)" "set_inv env dst"
      "set_elems env dst = A - {lp_text e}" by (auto simp: set_result_def)
  define m where "m = card (A - {lp_text e})"
  have c: "card A = m + (if lp_text e \<in> A then 1 else 0)"
    using card.remove[OF is_acc_finite[OF acc], of "lp_text e"] by (cases "lp_text e \<in> A") (simp_all only: m_def, simp_all)
  have n: "add_cardinality (snd acc) (if lp_text e \<in> A then -1 else 0) = Some (int m)"
    using a c by (auto simp: add_cardinality_def)
  have "m < 2 ^ 31" using a c by (simp split: if_splits)
  then show ?thesis unfolding remove_body_def d(1) using n d(2,3) by (simp add: is_acc_def m_def[symmetric] del: card_Diff_insert)
qed

lemma add_fold_ok:
  assumes rep: "set_rep env ob es" "set_limits env ob es" and acc: "is_acc env A acc" and room: "card (A \<union> lp_text ` set es) < 2 ^ 31"
  shows "\<exists>acc'. fold_body (add_body env) es acc = Some acc' \<and> is_acc env (A \<union> lp_text ` set es) acc'"
proof (rule fold_body_inv[where I = "\<lambda>xs acc. is_acc env (A \<union> lp_text ` set xs) acc" and xs = "[]"])
  fix xs e ys acc
  assume es: "es = xs @ e # ys" and I: "is_acc env (A \<union> lp_text ` set xs) acc"
  have "card (insert (lp_text e) (A \<union> lp_text ` set xs)) \<le> card (A \<union> lp_text ` set es)"
    using is_acc_finite[OF acc] by (intro card_mono) (auto simp: es)
  then show "\<exists>acc'. add_body env acc e = Some (acc', True) \<and> is_acc env (A \<union> lp_text ` set (xs @ [e])) acc'"
    using add_body_ok[OF elem_arg(1-3)[OF rep] I] room es by auto
qed (use acc in auto)

lemma remove_fold_ok:
  assumes rep: "set_rep env ob es" "set_limits env ob es" and acc: "is_acc env A acc"
  shows "\<exists>acc'. fold_body (remove_body env) es acc = Some acc' \<and> is_acc env (A - lp_text ` set es) acc'"
proof (rule fold_body_inv[where I = "\<lambda>xs acc. is_acc env (A - lp_text ` set xs) acc" and xs = "[]"])
  fix xs e ys acc
  assume es: "es = xs @ e # ys" and I: "is_acc env (A - lp_text ` set xs) acc"
  have "A - lp_text ` set (xs @ [e]) = A - lp_text ` set xs - {lp_text e}" by auto
  then show "\<exists>acc'. remove_body env acc e = Some (acc', True) \<and> is_acc env (A - lp_text ` set (xs @ [e])) acc'"
    using remove_body_ok[OF elem_arg(1-3)[OF rep] I] es by simp
qed (use acc in auto)

text \<open>Iterating over the set at a key.\<close>

lemma iterate_at:
  assumes "sees env F s K" "k \<in> K"
  obtains ob es where "set_at_key s k = Some ob" "set_rep env ob es" "F k = lp_text ` set es" "quiet env s (store_set k ob s)"
    "set_limits env ob es"
proof -
  obtain ob where ob: "set_at_key s k = Some ob" "set_inv env ob" "set_elems env ob = F k"
    by (rule sees_at[OF assms]) auto
  from ob(2) obtain es where es: "env_ok env" "set_rep env ob es" "set_elems env ob = lp_text ` set es" "set_limits env ob es" by (rule set_invE)
  show ?thesis using that[OF ob(1) es(2)] es(3,4) ob(3) sees_store[OF assms ob(2,3)] by simp
qed

lemma union_sets_ok:
  "sees env F s {k. Some k \<in> set sets} \<Longrightarrow> is_acc env A acc \<Longrightarrow> card (A \<union> (\<Union>k \<in> {k. Some k \<in> set sets}. F k)) < 2 ^ 31 \<Longrightarrow>
    \<exists>s' acc'. union_sets env sets acc s = Some (s', acc') \<and> quiet env s s' \<and>
      is_acc env (A \<union> (\<Union>k \<in> {k. Some k \<in> set sets}. F k)) acc'"
proof (induction env sets acc s arbitrary: A rule: union_sets.induct)
  case (1 env acc s)
  then show ?case by (simp add: sees_def quiet_refl)
next
  case (2 env ks acc s)
  then show ?case by simp
next
  case (3 env k ks acc s)
  obtain ob es where ob: "set_at_key s k = Some ob" "set_rep env ob es" "F k = lp_text ` set es" "quiet env s (store_set k ob s)" "set_limits env ob es"
    by (rule iterate_at[OF 3(2), of k]) auto
  note it = set_iterate_ok[OF ob(2)]
  have u: "A \<union> (\<Union>k \<in> {k'. Some k' \<in> set (Some k # ks)}. F k) = A \<union> F k \<union> (\<Union>k \<in> {k. Some k \<in> set ks}. F k)" by auto
  have fin: "finite (A \<union> F k \<union> (\<Union>k \<in> {k. Some k \<in> set ks}. F k))"
  proof -
    have "finite {k. Some k \<in> set ks}" using finite_vimageI[of "set ks" Some] by (simp add: vimage_def)
    moreover have "finite (F k')" if "k' \<in> {k'. Some k' \<in> set (Some k # ks)}" for k'
      by (rule sees_at[OF 3(2) that]) (use set_elems_finite in metis)
    ultimately show ?thesis using is_acc_finite[OF 3(3)] by auto
  qed
  have "card (A \<union> F k) \<le> card (A \<union> F k \<union> (\<Union>k \<in> {k. Some k \<in> set ks}. F k))" using fin by (intro card_mono) auto
  then have "card (A \<union> lp_text ` set es) < 2 ^ 31" using 3(4) ob(3) u by simp
  from add_fold_ok[OF ob(2,5) 3(3) this] obtain acc' where
    a: "fold_body (add_body env) es acc = Some acc'" "is_acc env (A \<union> F k) acc'" by (auto simp: ob(3))
  have s': "sees env F (store_set k ob s) {k. Some k \<in> set ks}" by (rule sees_mono[OF sees_quiet[OF 3(2) ob(4)]]) auto
  from 3(1)[OF ob(1) _ _ s' a(2)] 3(4) a(1) u obtain s2 acc2 where
    "union_sets env ks acc' (store_set k ob s) = Some (s2, acc2)" "quiet env (store_set k ob s) s2"
    "is_acc env (A \<union> F k \<union> (\<Union>k \<in> {k. Some k \<in> set ks}. F k)) acc2" by (auto simp: it)
  then show ?case unfolding u using ob(1) a(1) quiet_trans[OF ob(4)] by (simp add: it)
qed

section \<open>The two algorithms for the difference\<close>

lemma diff_work_ok:
  "sees env F s {k'. Some k' \<in> set (Some k0 # sets)} \<Longrightarrow>
    \<exists>s' one' two'. diff_work k0 sets one two s = Some (s', one', two') \<and> quiet env s s'"
proof (induction k0 sets one two s rule: diff_work.induct)
  case (1 k0 one two s)
  then show ?case by (simp add: sees_def quiet_refl)
next
  case (2 k0 ks one two s)
  then show ?case by simp
next
  case (3 k0 k ks one two s)
  obtain ob0 where ob0: "set_at_key s k0 = Some ob0" "set_inv env ob0" "set_elems env ob0 = F k0"
    by (rule sees_at[OF 3(2), of k0]) auto
  from setTypeSize_ok[OF ob0(2)] ob0(3) obtain ob0' where
    z0: "setTypeSize ob0 = Some (ob0', card (F k0))" "set_inv env ob0'" "set_elems env ob0' = F k0" by (auto simp: set_result_def)
  have q0: "quiet env s (store_set k0 ob0' s)" by (rule sees_store[OF 3(2) _ z0(2,3)]) simp
  note s1 = sees_quiet[OF 3(2) q0]
  obtain ob where ob: "set_at_key (store_set k0 ob0' s) k = Some ob" "set_inv env ob" "set_elems env ob = F k"
    by (rule sees_at[OF s1, of k]) auto
  from setTypeSize_ok[OF ob(2)] ob(3) obtain ob' where
    z: "setTypeSize ob = Some (ob', card (F k))" "set_inv env ob'" "set_elems env ob' = F k" by (auto simp: set_result_def)
  have q: "quiet env (store_set k0 ob0' s) (store_set k ob' (store_set k0 ob0' s))" by (rule sees_store[OF s1 _ z(2,3)]) simp
  have "sees env F (store_set k ob' (store_set k0 ob0' s)) {k'. Some k' \<in> set (Some k0 # ks)}"
    by (rule sees_mono[OF sees_quiet[OF s1 q]]) auto
  from 3(1)[OF ob0(1) z0(1) refl refl ob(1) z(1) refl this] show ?case
    using ob0(1) z0(1) ob(1) z(1) quiet_trans[OF quiet_trans[OF q0 q]] by auto
qed

lemma diff_check_ok:
  assumes e: "elem_str e = None \<longrightarrow> is_int64 (elem_ll e)" "arg_bytes (elem_str e) (elem_ll e) = lp_text e" "sds_fits (lp_text e)"
  shows "sees env F s {k. Some k \<in> set sets} \<Longrightarrow>
    \<exists>s'. diff_check env k0 sets e s = Some (s', \<forall>k. Some k \<in> set sets \<longrightarrow> k \<noteq> k0 \<and> lp_text e \<notin> F k) \<and> quiet env s s'"
proof (induction sets arbitrary: s)
  case Nil
  then show ?case by (simp add: sees_def quiet_refl)
next
  case (Cons w ks)
  have IH: "\<exists>s'. diff_check env k0 ks e s1 = Some (s', \<forall>k. Some k \<in> set ks \<longrightarrow> k \<noteq> k0 \<and> lp_text e \<notin> F k) \<and> quiet env s s'"
    if "quiet env s s1" for s1
  proof -
    have "sees env F s1 {k. Some k \<in> set ks}" by (rule sees_mono[OF sees_quiet[OF Cons.prems that]]) auto
    from Cons.IH[OF this] show ?thesis using quiet_trans[OF that] by blast
  qed
  have qs: "quiet env s s" using Cons.prems by (simp add: sees_def quiet_refl)
  show ?case
  proof (cases w)
    case None
    then show ?thesis using IH[OF qs] by simp
  next
    case (Some k)
    obtain ob where ob: "set_at_key s k = Some ob" "set_inv env ob" "set_elems env ob = F k"
      by (rule sees_at[OF Cons.prems, of k]) (auto simp: Some)
    from setTypeIsMemberAux_ok[OF ob(2) e(1)] ob(3) e(2,3) obtain ob' where
      m: "setTypeIsMemberAux env ob (elem_str e) (elem_ll e) = Some (ob', lp_text e \<in> F k)" "set_inv env ob'"
        "set_elems env ob' = F k" by (auto simp: set_result_def)
    have q: "quiet env s (store_set k ob' s)" by (rule sees_store[OF Cons.prems _ m(2,3)]) (simp add: Some)
    show ?thesis using Some ob(1) m(1) q qs IH[OF q] by (cases "k = k0"; cases "lp_text e \<in> F k") auto
  qed
qed

lemma diff1_fold_ok:
  fixes k0 :: key and s :: "('o, 'q) server"
  assumes rep: "set_rep env ob es" "set_limits env ob es" and s: "sees env F s {k. Some k \<in> set sets}" and env: "env_ok env"
    and room: "card (lp_text ` set es) < 2 ^ 31"
  defines "Q \<equiv> \<lambda>e. \<forall>k. Some k \<in> set sets \<longrightarrow> k \<noteq> k0 \<and> lp_text e \<notin> F k"
  shows "\<exists>s' acc'. fold_body (diff1_body env k0 sets) es (s, createIntsetObject, 0) = Some (s', acc') \<and> quiet env s s' \<and>
    is_acc env (lp_text ` set (filter Q es)) acc'"
proof -
  let ?I = "\<lambda>xs (s1, acc). quiet env s s1 \<and> is_acc env (lp_text ` set (filter Q xs)) acc"
  have "\<exists>acc. fold_body (diff1_body env k0 sets) es (s, createIntsetObject, 0) = Some acc \<and> ?I es acc"
  proof (rule fold_body_inv[where I = ?I and xs = "[]"])
    fix xs e ys and st :: "('o, 'q) server \<times> setobj \<times> int"
    assume es: "es = xs @ e # ys" and I: "?I xs st"
    obtain s1 acc where st: "st = (s1, acc)" by (cases st)
    have q: "quiet env s s1" and a: "is_acc env (lp_text ` set (filter Q xs)) acc" using I st by simp_all
    have e: "e \<in> set es" using es by simp
    from diff_check_ok[OF elem_arg(1-3)[OF rep e] sees_quiet[OF s q], of k0] obtain s2 where
      c: "diff_check env k0 sets e s1 = Some (s2, Q e)" "quiet env s1 s2" by (auto simp: Q_def)
    have "card (insert (lp_text e) (lp_text ` set (filter Q xs))) \<le> card (lp_text ` set es)" by (intro card_mono) (auto simp: es)
    then have "card (insert (lp_text e) (lp_text ` set (filter Q xs))) < 2 ^ 31" using room by simp
    from add_body_ok[OF elem_arg(1-3)[OF rep e] a this] show
      "\<exists>st'. diff1_body env k0 sets st e = Some (st', True) \<and> ?I (xs @ [e]) st'"
      using st c(1) a quiet_trans[OF q c(2)] by (cases "Q e") (auto simp: diff1_body_def)
  qed (use s is_acc_empty[OF env] in \<open>auto simp: sees_def quiet_refl\<close>)
  then show ?thesis by auto
qed

text \<open>Algorithm 2, after the first set: once nothing is left, the other sets do not matter.\<close>

lemma diff2_rest:
  "sees env F s {k. Some k \<in> set sets} \<Longrightarrow> is_acc env A acc \<Longrightarrow>
    \<exists>s' acc'. diff2_sets env False sets acc s = Some (s', acc') \<and> quiet env s s' \<and>
      is_acc env (A - (\<Union>k \<in> {k. Some k \<in> set sets}. F k)) acc'"
proof (induction sets arbitrary: acc s A)
  case Nil
  then show ?case by (simp add: sees_def quiet_refl)
next
  case (Cons w ks)
  show ?case
  proof (cases w)
    case None
    then show ?thesis using Cons by simp
  next
    case (Some k)
    note s = Cons.prems(1)[unfolded Some]
    obtain ob es where ob: "set_at_key s k = Some ob" "set_rep env ob es" "F k = lp_text ` set es" "quiet env s (store_set k ob s)" "set_limits env ob es"
      by (rule iterate_at[OF s, of k]) auto
  note it = set_iterate_ok[OF ob(2)]
    have u: "A - (\<Union>k \<in> {k'. Some k' \<in> set (Some k # ks)}. F k) = A - F k - (\<Union>k \<in> {k. Some k \<in> set ks}. F k)" by auto
    from remove_fold_ok[OF ob(2,5) Cons.prems(2)] obtain acc' where
      a: "fold_body (remove_body env) es acc = Some acc'" "is_acc env (A - F k) acc'" by (auto simp: ob(3))
    have s': "sees env F (store_set k ob s) {k. Some k \<in> set ks}" by (rule sees_mono[OF sees_quiet[OF s ob(4)]]) auto
    show ?thesis
    proof (cases "snd acc' = 0")
      case True
      then have "A - F k = {}" using a(2) is_acc_finite[OF a(2)] by (auto simp: is_acc_def)
      then have same: "A - F k - (\<Union>k \<in> {k. Some k \<in> set ks}. F k) = A - F k" by blast
      show ?thesis unfolding Some u same using ob a True by (auto simp: it)
    next
      case False
      from Cons.IH[OF s' a(2)] show ?thesis unfolding Some u using ob(1) a(1) False quiet_trans[OF ob(4)] by (auto simp: it)
    qed
  qed
qed

lemma diff2_ok:
  assumes s: "sees env F s {k. Some k \<in> set (Some k0 # sets)}" and env: "env_ok env" and room: "card (F k0) < 2 ^ 31"
  shows "\<exists>s' acc'. diff2_sets env True (Some k0 # sets) (createIntsetObject, 0) s = Some (s', acc') \<and> quiet env s s' \<and>
      is_acc env (F k0 - (\<Union>k \<in> {k. Some k \<in> set sets}. F k)) acc'"
proof -
  obtain ob es where ob: "set_at_key s k0 = Some ob" "set_rep env ob es" "F k0 = lp_text ` set es" "quiet env s (store_set k0 ob s)" "set_limits env ob es"
    by (rule iterate_at[OF s, of k0]) auto
  note it = set_iterate_ok[OF ob(2)]
  from add_fold_ok[OF ob(2,5) is_acc_empty[OF env]] room ob(3) obtain acc' where
    a: "fold_body (add_body env) es (createIntsetObject, 0) = Some acc'" "is_acc env (F k0) acc'" by auto
  have s': "sees env F (store_set k0 ob s) {k. Some k \<in> set sets}" by (rule sees_mono[OF sees_quiet[OF s ob(4)]]) auto
  show ?thesis
  proof (cases "snd acc' = 0")
    case True
    then have "F k0 = {}" using a(2) is_acc_finite[OF a(2)] by (auto simp: is_acc_def)
    then have same: "F k0 - (\<Union>k \<in> {k. Some k \<in> set sets}. F k) = F k0" by blast
    show ?thesis unfolding same using ob a True by (auto simp: it)
  next
    case False
    from diff2_rest[OF s' a(2)] show ?thesis using ob(1) a(1) False quiet_trans[OF ob(4)] by (auto simp: it)
  qed
qed

lemma diff1_ok:
  assumes s: "sees env F s {k. Some k \<in> set (Some k0 # sets)}" and q: "qsort_permutes qsort" and env: "env_ok env"
    and room: "card (F k0) < 2 ^ 31" and k0: "Some k0 \<notin> set sets"
  shows "\<exists>s' acc'. (do {
      (s, ks) \<leftarrow> (if length (Some k0 # sets) > 1 then sort_sets qsort qsortCompareSetsByRevCardinality sets s else Some (s, []));
      ob \<leftarrow> set_at_key s k0;
      (ob, s, acc) \<leftarrow> set_iterate env (diff1_body env k0 ks) ob (s, createIntsetObject, 0);
      Some (store_set k0 ob s, acc)
    }) = Some (s', acc') \<and> quiet env s s' \<and> is_acc env (F k0 - (\<Union>k \<in> {k. Some k \<in> set sets}. F k)) acc'"
proof -
  have inv: "db_inv env s" using s by (simp add: sees_def)
  have ss: "sees env F s {k. Some k \<in> set sets}" by (rule sees_mono[OF s]) auto
  have "\<exists>s1 ks. (if length (Some k0 # sets) > 1 then sort_sets qsort qsortCompareSetsByRevCardinality sets s else Some (s, [])) =
      Some (s1, ks) \<and> set ks = set sets \<and> quiet env s s1"
  proof (cases "sets = []")
    case True
    then show ?thesis using quiet_refl[OF inv] by simp
  next
    case False
    from sort_sets_ok[OF q ss, of qsortCompareSetsByRevCardinality] obtain s1 ks where
      "sort_sets qsort qsortCompareSetsByRevCardinality sets s = Some (s1, ks)" "mset ks = mset sets" "quiet env s s1" by blast
    then show ?thesis using mset_eq_setD[of ks sets] False by simp
  qed
  then obtain s1 ks where s1: "(if length (Some k0 # sets) > 1 then sort_sets qsort qsortCompareSetsByRevCardinality sets s
      else Some (s, [])) = Some (s1, ks)" "set ks = set sets" "quiet env s s1" by blast
  note see1 = sees_quiet[OF s s1(3)]
  obtain ob es where ob: "set_at_key s1 k0 = Some ob" "set_rep env ob es" "F k0 = lp_text ` set es" "set_limits env ob es"
    by (rule iterate_at[OF see1, of k0]) auto
  note it = set_iterate_ok[OF ob(2)]
  have see2: "sees env F s1 {k. Some k \<in> set ks}" by (rule sees_mono[OF see1]) (auto simp: s1(2))
  from diff1_fold_ok[OF ob(2,4) see2 env room[unfolded ob(3)], of k0] obtain s2 acc where
    f: "fold_body (diff1_body env k0 ks) es (s1, createIntsetObject, 0) = Some (s2, acc)" "quiet env s1 s2"
      "is_acc env (lp_text ` set (filter (\<lambda>e. \<forall>k. Some k \<in> set ks \<longrightarrow> k \<noteq> k0 \<and> lp_text e \<notin> F k) es)) acc" by blast
  have A: "lp_text ` set (filter (\<lambda>e. \<forall>k. Some k \<in> set ks \<longrightarrow> k \<noteq> k0 \<and> lp_text e \<notin> F k) es) =
      F k0 - (\<Union>k \<in> {k. Some k \<in> set sets}. F k)" using k0 ob(3) s1(2) by auto
  obtain ob' where ob': "set_at_key s1 k0 = Some ob'" "set_inv env ob'" "set_elems env ob' = F k0"
    by (rule sees_at[OF see1, of k0]) auto
  then have o: "set_inv env ob" "set_elems env ob = F k0" using ob(1) by simp_all
  have "quiet env s2 (store_set k0 ob s2)" by (rule sees_store[OF sees_quiet[OF see1 f(2)] _ o]) simp
  then have "quiet env s (store_set k0 ob s2)" using quiet_trans[OF s1(3) quiet_trans[OF f(2)]] by blast
  then show ?thesis unfolding s1(1) using ob(1) f(1,3) A by (simp add: it)
qed

lemma diff_sets_ok:
  assumes s: "sees env F s {k. Some k \<in> set sets}" and q: "qsort_permutes qsort" and env: "env_ok env" and ne: "sets \<noteq> []"
    and room: "\<And>k. sets ! 0 = Some k \<Longrightarrow> card (F k) < 2 ^ 31"
  shows "\<exists>s' acc'. diff_sets env qsort sets s = Some (s', acc') \<and> quiet env s s' \<and>
    is_acc env (case sets ! 0 of None \<Rightarrow> {} | Some k0 \<Rightarrow> F k0 - (\<Union>k \<in> {k. Some k \<in> set (tl sets)}. F k)) acc'"
proof -
  have inv: "db_inv env s" using s by (simp add: sees_def)
  obtain w ks where sets: "sets = w # ks" using ne by (cases sets) auto
  show ?thesis
  proof (cases w)
    case None
    then show ?thesis using sets quiet_refl[OF inv] is_acc_empty[OF env] by (simp add: diff_sets_def)
  next
    case (Some k0)
    note sets = sets[unfolded Some]
    show ?thesis
    proof (cases "Some k0 \<in> set ks")
      case True
      then have e: "F k0 - (\<Union>k \<in> {k. Some k \<in> set ks}. F k) = {}" by auto
      have "is_acc env (F k0 - (\<Union>k \<in> {k. Some k \<in> set ks}. F k)) (createIntsetObject, 0)"
        unfolding e by (rule is_acc_empty[OF env])
      then show ?thesis using sets True quiet_refl[OF inv] by (simp add: diff_sets_def)
    next
      case False
      have "sees env F s {k'. Some k' \<in> set (Some k0 # sets)}" by (rule sees_mono[OF s]) (auto simp: sets)
      from diff_work_ok[OF this] obtain s1 one two where
        w: "diff_work k0 sets 0 0 s = Some (s1, one, two)" "quiet env s s1" by blast
      note s1 = sees_quiet[OF s[unfolded sets] w(2)]
      have room0: "card (F k0) < 2 ^ 31" using room sets by simp
      show ?thesis
      proof (cases "one div 2 \<le> two")
        case True
        from diff1_ok[OF s1 q env room0 False] show ?thesis
          using w sets True False quiet_trans[OF w(2)] by (fastforce simp: diff_sets_def)
      next
        case two: False
        from diff2_ok[OF s1 env room0] show ?thesis
          using w sets two False quiet_trans[OF w(2)] by (fastforce simp: diff_sets_def)
      qed
    qed
  qed
qed

text \<open>The reply, or the storing of the result.\<close>

lemma sunionDiff_finish:
  assumes ok: "watch_ok s" "db_inv env s" "dstkey \<noteq> None \<longrightarrow> can_write s" and acc: "is_acc env A (dst, n)"
  shows "\<exists>s' rs. (case dstkey of
       None \<Rightarrow> do {
         (_, rs) \<leftarrow> set_iterate env bulks_body dst [];
         Some (s, RSetLen (nat n) # rs)
       }
     | Some d \<Rightarrow> do {
         (dst, n) \<leftarrow> setTypeSize dst;
         if n > 0 then do {
           s \<leftarrow> setKey d (OBJ_SET dst) s;
           (dst, n) \<leftarrow> setTypeSize dst;
           Some (add_dirty 1 (store_set d dst s), [RInt (int n)])
         }
         else Some (delete_dst d s, [RInt 0])
       }) = Some (s', rs) \<and> cmd_post env (set_option dstkey) s s' \<and> set_reply env A dstkey None s' rs"
proof (cases dstkey)
  case None
  have a: "set_inv env dst" "set_elems env dst = A" "n = int (card A)" using acc by (simp_all add: is_acc_def)
  from a(1) obtain es where es: "env_ok env" "set_rep env dst es" "set_elems env dst = lp_text ` set es" "set_limits env dst es" by (rule set_invE)
  have b: "fold_body bulks_body fs rs = Some (rs @ map elem_bulk fs)" for fs rs
    by (induction fs arbitrary: rs) (simp_all add: bulks_body_def)
  have "set_iterate env bulks_body dst [] = Some (dst, map elem_bulk es)" unfolding set_iterate_ok[OF es(2)] b by simp
  moreover have "map elem_bulk es = map RBulk (map lp_text es)" using elem_arg(4)[OF es(2,4)] by simp
  ultimately show ?thesis using None a cmd_post_refl[OF ok(1,2)] es(3) set_rep_distinct[OF es(2)]
    by (auto simp: set_reply_def intro!: exI[of _ "map lp_text es"])
next
  case (Some d)
  then have w: "can_write s" using ok(3) by simp
  have a: "set_inv env dst" "set_elems env dst = A" using acc by (simp_all add: is_acc_def)
  from setTypeSize_ok[OF a(1)] a(2) obtain dst1 where
    z: "setTypeSize dst = Some (dst1, card A)" "set_inv env dst1" "set_elems env dst1 = A" by (auto simp: set_result_def)
  show ?thesis
  proof (cases "A = {}")
    case True
    then show ?thesis using Some z(1) delete_dst_ok[OF ok(1,2), of d] by (simp add: set_reply_def)
  next
    case False
    then have "card A > 0" using is_acc_finite[OF acc] by (simp add: card_gt_0_iff)
    with store_result[OF ok(1,2) w z(2), of d] z(3) False show ?thesis using Some z(1) by (auto simp: set_reply_def)
  qed
qed

lemma sunionDiffGenericCommand_ok:
  fixes op :: set_op
  assumes ok: "watch_ok s" "db_inv env s" "dstkey \<noteq> None \<longrightarrow> can_write s" and q: "qsort_permutes qsort" and ks: "setkeys \<noteq> []"
  defines "F \<equiv> \<lambda>k. set_of env (visible s k)"
  defines "A \<equiv> (case op of SET_OP_UNION \<Rightarrow> (\<Union>k \<in> set setkeys. F k) | SET_OP_DIFF \<Rightarrow> F (hd setkeys) - (\<Union>k \<in> set (tl setkeys). F k))"
  assumes room: "case op of SET_OP_UNION \<Rightarrow> card A < 2 ^ 31 | SET_OP_DIFF \<Rightarrow> card (F (hd setkeys)) < 2 ^ 31"
  shows "if \<exists>k \<in> set setkeys. checkType_set (visible s k)
    then \<exists>s'. sunionDiffGenericCommand env qsort setkeys dstkey op s = Some (s', [RErr WRONGTYPE]) \<and> cmd_post env (set setkeys) s s'
    else \<exists>s' rs. sunionDiffGenericCommand env qsort setkeys dstkey op s = Some (s', rs) \<and>
      cmd_post env (set setkeys \<union> set_option dstkey) s s' \<and> set_reply env A dstkey None s' rs"
proof -
  obtain s1 r where l: "lookup_sets setkeys s = (s1, r)" by fastforce
  note p = lookup_sets_ok[OF ok(1,2) l]
  note env = db_invD(2)[OF ok(2)]
  show ?thesis
  proof (cases r)
    case None
    then show ?thesis using l p(1,3) by (auto simp: sunionDiffGenericCommand_def split: if_splits)
  next
    case (Some sets)
    then have t: "\<not> (\<exists>k \<in> set setkeys. checkType_set (visible s k))" using p(3) by (auto split: if_splits)
    note v = lookup_sets_sees[OF ok(1,2) l[unfolded Some]]
    have see: "sees env F s1 {k. Some k \<in> set sets}" using v(1) by (simp add: F_def)
    have sets: "sets = map (\<lambda>k. if F k = {} then None else Some k) setkeys" using v(3) by (simp add: F_def)
    define res where "res = (case op of
               SET_OP_UNION \<Rightarrow> union_sets env sets (createIntsetObject, 0) s1
             | SET_OP_DIFF \<Rightarrow> diff_sets env qsort sets s1)"
    have "\<exists>s2 acc. res = Some (s2, acc) \<and> quiet env s1 s2 \<and> is_acc env A acc"
    proof (cases op)
      case SET_OP_UNION
      have "(\<Union>k \<in> {k. Some k \<in> set sets}. F k) = A" by (auto simp: A_def SET_OP_UNION sets split: if_splits)
      then show ?thesis using union_sets_ok[OF see is_acc_empty[OF env]] room SET_OP_UNION by (simp add: res_def)
    next
      case SET_OP_DIFF
      obtain k0 rest where k: "setkeys = k0 # rest" using ks by (cases setkeys) auto
      have "(\<Union>k \<in> {k. Some k \<in> set (tl sets)}. F k) = (\<Union>k \<in> set rest. F k)" by (auto simp: k sets split: if_splits)
      then have "(case sets ! 0 of None \<Rightarrow> {} | Some k0 \<Rightarrow> F k0 - (\<Union>k \<in> {k. Some k \<in> set (tl sets)}. F k)) = A"
        by (auto simp: A_def SET_OP_DIFF sets k)
      moreover have "sets \<noteq> []" "\<And>k. sets ! 0 = Some k \<Longrightarrow> card (F k) < 2 ^ 31"
        using room SET_OP_DIFF by (auto simp: sets k split: if_splits)
      ultimately show ?thesis using diff_sets_ok[OF see q env] SET_OP_DIFF by (simp add: res_def)
    qed
    then obtain s2 dst n where r: "res = Some (s2, dst, n)" "quiet env s1 s2" "is_acc env A (dst, n)" by (metis prod.collapse)
    have p2: "cmd_post env (set setkeys) s s2" by (rule cmd_post_seq[OF p(1) cmd_post_quiet[OF cmd_post_ok(1)[OF p(1)] r(2)]])
    have w2: "dstkey \<noteq> None \<longrightarrow> can_write s2" using can_write_post[OF p2] ok(3) by simp
    from sunionDiff_finish[OF cmd_post_ok[OF p2] w2 r(3)] obtain s' rs where
      f: "sunionDiffGenericCommand env qsort setkeys dstkey op s = Some (s', rs)" "cmd_post env (set_option dstkey) s2 s'"
      "set_reply env A dstkey None s' rs"
      using l Some r(1) by (auto simp: sunionDiffGenericCommand_def res_def)
    show ?thesis using t f(1,3) cmd_post_trans[OF p2 f(2)] by auto
  qed
qed

end
