(* ===== verification/Expire.thy ===== *)
theory Expire
  imports Set_Union
begin

text \<open>
  The commands on keys of any type: the expire commands of \<open>expire.c\<close>, the part of \<open>RESTORE\<close> (\<open>cluster.c\<close>) that
  works on the keyspace, and what these and \<open>DEL\<close>, \<open>EXISTS\<close> and \<open>RENAME\<close> of \<open>db.c\<close> do. Times are signed 64 bit milliseconds;
  a sum or difference that overflows is undefined, so the operation has no result (\<open>None\<close>). The list of keys with an expire time that
  a writable replica keeps, and the rewriting of commands for propagation are left out.
\<close>

section \<open>Options and arguments\<close>

text \<open>\<open>strcasecmp\<close> on strings that end at the first zero byte.\<close>

definition tolower :: "byte \<Rightarrow> byte" where
  "tolower b = (if 65 \<le> unat b \<and> unat b \<le> 90 then b + 32 else b)"

definition strcaseeq :: "byte list \<Rightarrow> byte list \<Rightarrow> bool" where
  "strcaseeq a b \<longleftrightarrow> map tolower (takeWhile (\<lambda>x. x \<noteq> 0) a) = map tolower (takeWhile (\<lambda>x. x \<noteq> 0) b)"

definition bytes_of :: "string \<Rightarrow> byte list" where
  "bytes_of = map (\<lambda>c. word_of_nat (of_char c))"

record expire_flags =
  EXPIRE_NX :: bool
  EXPIRE_XX :: bool
  EXPIRE_GT :: bool
  EXPIRE_LT :: bool

definition no_flags :: expire_flags where
  "no_flags = \<lparr>EXPIRE_NX = False, EXPIRE_XX = False, EXPIRE_GT = False, EXPIRE_LT = False\<rparr>"

fun parse_expire_opts :: "byte list list \<Rightarrow> expire_flags \<Rightarrow> reply_error + expire_flags" where
  "parse_expire_opts [] f = Inr f"
| "parse_expire_opts (opt # opts) f =
     (if strcaseeq opt (bytes_of ''nx'') then parse_expire_opts opts (f\<lparr>EXPIRE_NX := True\<rparr>)
      else if strcaseeq opt (bytes_of ''xx'') then parse_expire_opts opts (f\<lparr>EXPIRE_XX := True\<rparr>)
      else if strcaseeq opt (bytes_of ''gt'') then parse_expire_opts opts (f\<lparr>EXPIRE_GT := True\<rparr>)
      else if strcaseeq opt (bytes_of ''lt'') then parse_expire_opts opts (f\<lparr>EXPIRE_LT := True\<rparr>)
      else Inl SYNTAX)"

definition parseExtendedExpireArgumentsOrReply :: "byte list list \<Rightarrow> reply_error + expire_flags" where
  "parseExtendedExpireArgumentsOrReply opts =
     (case parse_expire_opts opts no_flags of
        Inl e \<Rightarrow> Inl e
      | Inr f \<Rightarrow>
          if EXPIRE_NX f \<and> EXPIRE_XX f \<or> EXPIRE_NX f \<and> EXPIRE_GT f \<or> EXPIRE_NX f \<and> EXPIRE_LT f then Inl INCOMPATIBLE_OPTIONS
          else if EXPIRE_GT f \<and> EXPIRE_LT f then Inl INCOMPATIBLE_OPTIONS
          else Inr f)"

section \<open>Expire commands\<close>

datatype expire_unit = UNIT_SECONDS | UNIT_MILLISECONDS

definition LLONG_MAX :: int where "LLONG_MAX = 2 ^ 63 - 1"
definition LLONG_MIN :: int where "LLONG_MIN = - (2 ^ 63)"

definition checkAlreadyExpired :: "('o, 'q) server \<Rightarrow> int \<Rightarrow> bool" where
  "checkAlreadyExpired s when \<longleftrightarrow> when \<le> mstime s \<and> \<not> loading s \<and> \<not> masterhost s"

text \<open>Whether the options let the expire time be set.\<close>

definition expire_allowed :: "expire_flags \<Rightarrow> int \<Rightarrow> int \<Rightarrow> bool" where
  "expire_allowed flag current_expire when =
     (if EXPIRE_NX flag \<and> current_expire \<noteq> -1 then False
      else if EXPIRE_XX flag \<and> current_expire = -1 then False
      else if EXPIRE_GT flag \<and> (when \<le> current_expire \<or> current_expire = -1) then False
      else if EXPIRE_LT flag \<and> current_expire \<noteq> -1 \<and> when \<ge> current_expire then False
      else True)"

text \<open>The time in milliseconds, or \<open>None\<close> for the error.\<close>

definition expire_when :: "int \<Rightarrow> int \<Rightarrow> expire_unit \<Rightarrow> int option" where
  "expire_when param basetime unit = do {
     when \<leftarrow> (if unit = UNIT_SECONDS
              then if param > LLONG_MAX div 1000 \<or> param < - (- LLONG_MIN div 1000) then None else Some (param * 1000)
              else Some param);
     if when > LLONG_MAX - basetime then None else Some (when + basetime)
   }"

definition expireGenericCommand :: "key \<Rightarrow> byte list \<Rightarrow> byte list list \<Rightarrow> int \<Rightarrow> expire_unit \<Rightarrow>
    ('o, 'q) server \<Rightarrow> (('o, 'q) server \<times> reply list) option" where
  "expireGenericCommand key param opts basetime unit s =
     (case parseExtendedExpireArgumentsOrReply opts of
        Inl e \<Rightarrow> Some (s, [RErr e])
      | Inr flag \<Rightarrow>
          (case string2ll param of
             None \<Rightarrow> Some (s, [RErr NOT_AN_INTEGER])
           | Some value \<Rightarrow>
               (case expire_when value basetime unit of
                  None \<Rightarrow> Some (s, [RErr INVALID_EXPIRE])
                | Some when \<Rightarrow> do {
                    let (s, v) = lookupKeyWrite key s;
                    if v = None then Some (s, [RInt 0])
                    else if \<not> expire_allowed flag (getExpire s key) when then Some (s, [RInt 0])
                    else if checkAlreadyExpired s when then do {
                      let (s, deleted) = dbGenericDelete key s;
                      c_assert deleted;
                      Some (signalModifiedKey key (add_dirty 1 s), [RInt 1])
                    }
                    else do {
                      s \<leftarrow> setExpire key when s;
                      Some (add_dirty 1 (signalModifiedKey key s), [RInt 1])
                    }
                  })))"

definition expireCommand :: "key \<Rightarrow> byte list \<Rightarrow> byte list list \<Rightarrow> ('o, 'q) server \<Rightarrow> (('o, 'q) server \<times> reply list) option" where
  "expireCommand key param opts s = expireGenericCommand key param opts (mstime s) UNIT_SECONDS s"

definition expireatCommand :: "key \<Rightarrow> byte list \<Rightarrow> byte list list \<Rightarrow> ('o, 'q) server \<Rightarrow> (('o, 'q) server \<times> reply list) option" where
  "expireatCommand key param opts s = expireGenericCommand key param opts 0 UNIT_SECONDS s"

definition pexpireCommand :: "key \<Rightarrow> byte list \<Rightarrow> byte list list \<Rightarrow> ('o, 'q) server \<Rightarrow> (('o, 'q) server \<times> reply list) option" where
  "pexpireCommand key param opts s = expireGenericCommand key param opts (mstime s) UNIT_MILLISECONDS s"

definition pexpireatCommand :: "key \<Rightarrow> byte list \<Rightarrow> byte list list \<Rightarrow> ('o, 'q) server \<Rightarrow> (('o, 'q) server \<times> reply list) option" where
  "pexpireatCommand key param opts s = expireGenericCommand key param opts 0 UNIT_MILLISECONDS s"

text \<open>A value of type \<open>long long\<close>; an overflow is undefined.\<close>

definition long_long :: "int \<Rightarrow> int option" where
  "long_long v = do { c_assert (is_int64 v); Some v }"

definition ttlGenericCommand :: "key \<Rightarrow> bool \<Rightarrow> bool \<Rightarrow> ('o, 'q) server \<Rightarrow> (('o, 'q) server \<times> reply list) option" where
  "ttlGenericCommand key output_ms output_abs s = do {
     let (s, v) = lookupKeyRead key s;
     if v = None then Some (s, [RInt (-2)])
     else do {
       let expire = getExpire s key;
       ttl \<leftarrow> (if expire \<noteq> -1 then do {
                 ttl \<leftarrow> (if output_abs then Some expire else long_long (expire - mstime s));
                 Some (if ttl < 0 then 0 else ttl)
               } else Some (-1));
       if ttl = -1 then Some (s, [RInt (-1)])
       else if output_ms then Some (s, [RInt ttl])
       else do { n \<leftarrow> long_long (ttl + 500); Some (s, [RInt (n div 1000)]) }
     }
   }"

definition persistCommand :: "key \<Rightarrow> ('o, 'q) server \<Rightarrow> (('o, 'q) server \<times> reply list) option" where
  "persistCommand key s = do {
     let (s, v) = lookupKeyWrite key s;
     if v \<noteq> None then do {
       let (s, removed) = removeExpire key s;
       if removed then Some (add_dirty 1 (signalModifiedKey key s), [RInt 1])
       else Some (s, [RInt 0])
     }
     else Some (s, [RInt 0])
   }"

fun touch_keys :: "key list \<Rightarrow> ('o, 'q) server \<Rightarrow> int \<Rightarrow> ('o, 'q) server \<times> int" where
  "touch_keys [] s n = (s, n)"
| "touch_keys (key # keys) s n = (case lookupKeyRead key s of (s, v) \<Rightarrow> touch_keys keys s (if v \<noteq> None then n + 1 else n))"

definition touchCommand :: "key list \<Rightarrow> ('o, 'q) server \<Rightarrow> (('o, 'q) server \<times> reply list) option" where
  "touchCommand argv s = (case touch_keys argv s 0 of (s, n) \<Rightarrow> Some (s, [RInt n]))"

text \<open>The cycle of active expiration tries one key.\<close>

definition activeExpireCycleTryExpire :: "key \<Rightarrow> int \<Rightarrow> ('o, 'q) server \<Rightarrow> ('o, 'q) server" where
  "activeExpireCycleTryExpire key now s =
     (case db_expires s key of
        None \<Rightarrow> s
      | Some t \<Rightarrow> if now > t then deleteExpiredKeyAndPropagate key s else s)"

section \<open>Restoring a key\<close>

text \<open>
  \<open>RESTORE\<close> after its options are parsed. The object comes from the payload, which the decoder of the dump
  format checks and reads; \<open>None\<close> is a payload it refuses.
\<close>

definition restoreCommand :: "key \<Rightarrow> byte list \<Rightarrow> 'o robj option \<Rightarrow> bool \<Rightarrow> bool \<Rightarrow>
    ('o, 'q) server \<Rightarrow> (('o, 'q) server \<times> reply list) option" where
  "restoreCommand key ttl_arg payload replace absttl s = do {
     let (s, busy) = (if replace then (s, False) else (case lookupKeyWrite key s of (s, v) \<Rightarrow> (s, v \<noteq> None)));
     if busy then Some (s, [RErr BUSYKEY])
     else (case string2ll ttl_arg of
         None \<Rightarrow> Some (s, [RErr NOT_AN_INTEGER])
       | Some ttl \<Rightarrow>
           if ttl < 0 then Some (s, [RErr INVALID_TTL])
           else (case payload of
               None \<Rightarrow> Some (s, [RErr BAD_PAYLOAD])
             | Some obj \<Rightarrow> do {
                 let (s, deleted) = (if replace then dbDelete key s else (s, False));
                 ttl \<leftarrow> (if ttl \<noteq> 0 \<and> \<not> absttl then long_long (ttl + mstime s) else Some ttl);
                 if ttl \<noteq> 0 \<and> checkAlreadyExpired s ttl then
                   Some (if deleted then add_dirty 1 (signalModifiedKey key s) else s, [ROk])
                 else do {
                   s \<leftarrow> dbAdd key obj s;
                   s \<leftarrow> (if ttl \<noteq> 0 then setExpire key ttl s else Some s);
                   Some (add_dirty 1 (signalModifiedKey key s), [ROk])
                 }
               }))
   }"

end
