(* ===== verification/Expire_Correct.thy ===== *)
theory Expire_Correct
  imports Expire
begin

text \<open>
  The commands on keys of any type keep the keyspace well-formed and touch what they change; what each replies and
  leaves behind.
\<close>

section \<open>Changes that are signalled\<close>

lemma change_signal:
  assumes ok: "watch_ok s" "db_inv env s" and w: "db_watched_keys s1 = db_watched_keys s" "clients s1 = clients s" "same_env s s1"
    and data: "\<And>k. k \<noteq> key \<Longrightarrow> db_keys s1 k = db_keys s k \<and> db_expires s1 k = db_expires s k"
    and new: "obj_ok env (db_keys s1 key)" "db_keys s1 key = None \<Longrightarrow> db_expires s1 key = None"
  shows "cmd_post env {key} s (signalModifiedKey key s1)" "same_data s1 (signalModifiedKey key s1)"
proof -
  have sig: "cmd_effect env {key} s (signalModifiedKey key s1)" "same_data s1 (signalModifiedKey key s1)"
    by (rule signal_change[OF ok(1) w]; simp add: data)+
  have "obj_ok env (db_keys s1 k) \<and> (db_keys s1 k = None \<longrightarrow> db_expires s1 k = None)" for k
    using data[of k] new db_invD(1)[OF ok(2), of k] by (cases "k = key") auto
  then have "db_inv env s1" using db_invD(2)[OF ok(2)] by (simp add: db_inv_def)
  then show "cmd_post env {key} s (signalModifiedKey key s1)" using cmd_postI[OF sig(1)] same_data_inv[OF sig(2)] by auto
  show "same_data s1 (signalModifiedKey key s1)" by (rule sig(2))
qed

lemma expireIfNeeded_post:
  assumes ok: "watch_ok s" "db_inv env s" and e: "expireIfNeeded key f a s = (s', st)"
  shows "cmd_post env {key} s s'"
proof (cases "st = KEY_DELETED")
  case True
  then have d: "effect {key} s s'" "db_keys s' key = None" "db_keys s key \<noteq> None \<longrightarrow> db_expires s' key = None"
    using expireIfNeeded_ok[OF ok(1) e] by auto
  have "s' = deleteExpiredKeyAndPropagate key s" and x: "keyIsExpired s key" using e True by (auto simp: expireIfNeeded_def split: if_splits)
  have "db_expires s key \<noteq> None" using x by (cases "db_expires s key") (simp_all add: keyIsExpired_def getExpire_def Let_def split: if_splits)
  then have "db_keys s key \<noteq> None" using db_invD(1)[OF ok(2), of key] by auto
  then have "lookup_deletes key s s'" using d by (simp add: lookup_deletes_def)
  then show ?thesis using lookup_deletes_inv[OF ok(2)] effect_cmd[OF d(1)] by (auto intro: cmd_postI)
next
  case False
  then show ?thesis using expireIfNeeded_ok[OF ok(1) e] cmd_post_refl[OF ok] by auto
qed

section \<open>DEL, EXISTS, TOUCH\<close>

lemma del_loop_ok:
  assumes "watch_ok s" "db_inv env s" "del_loop keys s n = (s', m)"
  shows "cmd_post env (set keys) s s' \<and> (\<forall>k. db_keys s' k = (if k \<in> set keys then None else db_keys s k))"
  using assms
proof (induction keys arbitrary: s n)
  case Nil
  then show ?case using cmd_post_refl by auto
next
  case (Cons key keys)
  obtain s1 st where e: "expireIfNeeded key False False s = (s1, st)" by fastforce
  note p1 = expireIfNeeded_post[OF Cons.prems(1,2) e]
  have k1: "db_keys s1 k = (if k = key \<and> st = KEY_DELETED then None else db_keys s k)" for k
    using expireIfNeeded_ok[OF Cons.prems(1) e] by (auto simp: effect_def)
  obtain s2 n2 where r: "del_loop keys s2 n2 = (s', m)" "cmd_post env {key} s s2"
    "\<And>k. db_keys s2 k = (if k = key then None else db_keys s k)"
  proof (cases "st = KEY_DELETED \<or> db_keys s1 key = None")
    case True
    then have "del_loop keys s1 n = (s', m)"
      using Cons.prems(3) e by (auto simp: dbGenericDelete_def dbFind_def split: if_splits)
    then show ?thesis using that p1 k1 True by (metis (full_types))
  next
    case False
    let ?d = "fst (dbDelete key s1)"
    have d: "dbGenericDelete key s1 = (?d, True)" using False by (auto simp: dbDelete_def dbGenericDelete_def dbFind_def)
    have "del_loop keys (add_dirty 1 (signalModifiedKey key ?d)) (n + 1) = (s', m)" using Cons.prems(3) e False d by simp
    moreover note del = delete_signal[OF cmd_post_ok(1)[OF p1] db_invD(1)[OF cmd_post_ok(2)[OF p1]] db_invD(2)[OF Cons.prems(2)], of key]
    have "cmd_post env {key} s (add_dirty 1 (signalModifiedKey key ?d))" using cmd_post_dirty[OF cmd_post_seq[OF p1 del(1)]] False by simp
    moreover have "db_keys (add_dirty 1 (signalModifiedKey key ?d)) k = (if k = key then None else db_keys s k)" for k
      using del(2) False k1[of k] by simp
    ultimately show ?thesis using that by blast
  qed
  from Cons.IH[OF cmd_post_ok[OF r(2)] r(1)] show ?case using cmd_post_trans[OF r(2), of "set keys" s'] r(3) by auto
qed

lemma delGenericCommand_ok:
  assumes "watch_ok s" "db_inv env s"
  shows "\<exists>s' n. delGenericCommand keys s = Some (s', [RInt n]) \<and> cmd_post env (set keys) s s' \<and>
    (\<forall>k. db_keys s' k = (if k \<in> set keys then None else db_keys s k))"
proof -
  obtain s' n where l: "del_loop keys s 0 = (s', n)" by fastforce
  show ?thesis using del_loop_ok[OF assms l] l by (simp add: delGenericCommand_def)
qed

lemma exists_loop_ok:
  assumes "watch_ok s" "db_inv env s" "exists_loop keys s n = (s', m)"
  shows "cmd_post env (set keys) s s' \<and> m = n + int (length (filter (\<lambda>k. visible s k \<noteq> None) keys))"
  using assms
proof (induction keys arbitrary: s n)
  case Nil
  then show ?case using cmd_post_refl by auto
next
  case (Cons key keys)
  obtain s1 v where l: "lookupKeyRead key s = (s1, v)" by fastforce
  note p1 = cmd_post_read[OF Cons.prems(1,2) l]
  have v: "v = visible s key" by (rule lookupKeyRead_visible[OF l])
  have same: "visible s1 k = visible s k" for k by (rule lookupKeyRead_keeps[OF Cons.prems(1) l])
  have "exists_loop keys s1 (if v \<noteq> None then n + 1 else n) = (s', m)"
    using Cons.prems(3) l by (simp add: lookupKeyRead_def)
  from Cons.IH[OF cmd_post_ok[OF p1] this] show ?case using cmd_post_trans[OF p1, of "set keys" s'] v same by auto
qed

lemma touch_keys_exists: "touch_keys keys s n = exists_loop keys s n"
  by (induction keys arbitrary: s n) (simp_all add: lookupKeyRead_def)

lemma existsCommand_ok:
  assumes "watch_ok s" "db_inv env s"
  shows "\<exists>s'. existsCommand keys s = Some (s', [RInt (int (length (filter (\<lambda>k. visible s k \<noteq> None) keys)))]) \<and> cmd_post env (set keys) s s'"
    "touchCommand keys s = existsCommand keys s"
proof -
  obtain s' n where l: "exists_loop keys s 0 = (s', n)" by fastforce
  show "\<exists>s'. existsCommand keys s = Some (s', [RInt (int (length (filter (\<lambda>k. visible s k \<noteq> None) keys)))]) \<and> cmd_post env (set keys) s s'"
    using exists_loop_ok[OF assms l] l by (simp add: existsCommand_def)
  show "touchCommand keys s = existsCommand keys s" by (simp add: touchCommand_def existsCommand_def touch_keys_exists)
qed

section \<open>Expire times\<close>

lemma expireGenericCommand_ok:
  assumes ok: "watch_ok s" "db_inv env s" "can_write s"
    and p: "parseExtendedExpireArgumentsOrReply opts = Inr flag" "string2ll param = Some n" "expire_when n basetime unit = Some when"
    and l: "lookupKeyWrite key s = (s1, v)"
  shows "if v = None \<or> \<not> expire_allowed flag (getExpire s1 key) when
    then expireGenericCommand key param opts basetime unit s = Some (s1, [RInt 0])
    else \<exists>s'. expireGenericCommand key param opts basetime unit s = Some (s', [RInt 1]) \<and> cmd_post env {key} s s' \<and>
      (if checkAlreadyExpired s when then db_keys s' key = None
       else db_keys s' key = v \<and> db_expires s' key = Some when)"
proof (cases "v = None \<or> \<not> expire_allowed flag (getExpire s1 key) when")
  case True
  then show ?thesis using p l by (auto simp: expireGenericCommand_def)
next
  case False
  note l1 = lookup_write[OF ok l]
  note p1 = cmd_post_write[OF ok l]
  obtain ob where k: "db_keys s1 key = Some ob" using False l1(4) by auto
  have e: "checkAlreadyExpired s1 when = checkAlreadyExpired s when"
    using p1 by (auto simp: cmd_post_def cmd_effect_def same_env_def checkAlreadyExpired_def)
  show ?thesis
  proof (cases "checkAlreadyExpired s when")
    case True
    let ?d = "fst (dbDelete key s1)"
    have d: "dbGenericDelete key s1 = (?d, True)" using k by (auto simp: dbDelete_def dbGenericDelete_def dbFind_def)
    have dd: "db_keys ?d = (db_keys s1)(key := None)" "db_expires ?d = (db_expires s1)(key := None)"
      "db_watched_keys ?d = db_watched_keys s1" "clients ?d = clients s1" "same_env s1 ?d"
      using k by (auto simp: dbDelete_present same_env_def)
    have "cmd_post env {key} s1 (signalModifiedKey key (add_dirty 1 ?d))" "same_data (add_dirty 1 ?d) (signalModifiedKey key (add_dirty 1 ?d))"
      by (rule change_signal[OF l1(3,2)]; simp add: dd)+
    then show ?thesis using p l False True e d cmd_post_seq[OF p1] dd(1)
      by (auto simp: expireGenericCommand_def same_data_def)
  next
    case live: False
    let ?s = "s1\<lparr>db_expires := (db_expires s1)(key \<mapsto> when)\<rparr>"
    have k': "db_keys s1 key = v" using l1(4) by simp
    have "cmd_post env {key} s1 (signalModifiedKey key ?s)" "same_data ?s (signalModifiedKey key ?s)"
      by (rule change_signal[OF l1(3,2)]; use k db_invD(1)[OF l1(2), of key] in \<open>simp add: same_env_def\<close>)+
    then show ?thesis using p l False live e k k' cmd_post_dirty[OF cmd_post_seq[OF p1]]
      by (auto simp: expireGenericCommand_def same_data_def setExpire_def dbFind_def)
  qed
qed

lemma expireGenericCommand_post:
  assumes ok: "watch_ok s" "db_inv env s" "can_write s"
  shows "\<exists>s' rs. expireGenericCommand key param opts basetime unit s = Some (s', rs) \<and> cmd_post env {key} s s'"
proof -
  obtain s1 v where l: "lookupKeyWrite key s = (s1, v)" by fastforce
  note p1 = cmd_post_write[OF ok l]
  consider (err) rs where "expireGenericCommand key param opts basetime unit s = Some (s, rs)"
    | (run) flag n t where "parseExtendedExpireArgumentsOrReply opts = Inr flag" "string2ll param = Some n"
      "expire_when n basetime unit = Some t"
    by (cases "parseExtendedExpireArgumentsOrReply opts"; cases "string2ll param"; cases "expire_when (the (string2ll param)) basetime unit")
      (auto simp: expireGenericCommand_def)
  then show ?thesis
  proof cases
    case err
    then show ?thesis using cmd_post_refl[OF ok(1,2)] by auto
  next
    case run
    show ?thesis using expireGenericCommand_ok[OF ok run l] p1 by (auto split: if_splits)
  qed
qed

lemma persistCommand_ok:
  assumes ok: "watch_ok s" "db_inv env s" "can_write s" and l: "lookupKeyWrite key s = (s1, v)"
  shows "\<exists>s'. persistCommand key s = Some (s', [RInt (if v \<noteq> None \<and> db_expires s1 key \<noteq> None then 1 else 0)]) \<and>
    cmd_post env {key} s s' \<and> db_keys s' key = v \<and> (v \<noteq> None \<longrightarrow> db_expires s' key = None)"
proof -
  note l1 = lookup_write[OF ok l]
  note p1 = cmd_post_write[OF ok l]
  let ?s = "s1\<lparr>db_expires := (db_expires s1)(key := None)\<rparr>"
  have k: "db_keys s1 key = v" using l1(4) by simp
  have sig: "cmd_post env {key} s1 (signalModifiedKey key ?s)" "same_data ?s (signalModifiedKey key ?s)"
    by (rule change_signal[OF l1(3,2)]; use db_invD(1)[OF l1(2), of key] in \<open>simp add: same_env_def\<close>)+
  have same: "?s = s1" if "db_expires s1 key = None" using that by (simp add: fun_upd_idem)
  show ?thesis
  proof (cases "v \<noteq> None \<and> db_expires s1 key \<noteq> None")
    case True
    then show ?thesis using l sig k cmd_post_dirty[OF cmd_post_seq[OF p1 sig(1)]]
      by (auto simp: persistCommand_def removeExpire_def same_data_def)
  next
    case False
    then show ?thesis using l p1 k same by (auto simp: persistCommand_def removeExpire_def)
  qed
qed

lemma ttlGenericCommand_post:
  assumes ok: "watch_ok s" "db_inv env s" and r: "ttlGenericCommand key ms ab s = Some (s', rs)"
  shows "cmd_post env {key} s s'"
proof -
  obtain s1 v where l: "lookupKeyRead key s = (s1, v)" by fastforce
  have "s' = s1" using r l by (auto simp: ttlGenericCommand_def Let_def split: if_splits bind_splits)
  then show ?thesis using cmd_post_read[OF ok l] by simp
qed

section \<open>RENAME\<close>

lemma renameGenericCommand_ok:
  assumes ok: "watch_ok s" "db_inv env s" "can_write s"
    and l: "lookupKeyWrite src s = (s1, v)" "lookupKeyWrite dst s1 = (s2, w)"
  shows "if v = None then renameGenericCommand src dst nx s = Some (s1, [RErr NOKEY])
    else if src = dst then renameGenericCommand src dst nx s = Some (s1, [if nx then RInt 0 else ROk])
    else if w \<noteq> None \<and> nx then renameGenericCommand src dst nx s = Some (s2, [RInt 0])
    else \<exists>s'. renameGenericCommand src dst nx s = Some (s', [if nx then RInt 1 else ROk]) \<and> cmd_post env {src, dst} s s' \<and>
      db_keys s' = (db_keys s2)(dst := v, src := None) \<and> db_expires s' src = None \<and>
      db_expires s' dst = (if getExpire s1 src = -1 then None else Some (getExpire s1 src))"
proof -
  note l1 = lookup_write[OF ok l(1)]
  note l2 = lookup_write[OF l1(3,2,5) l(2)]
  have post: "cmd_post env {src, dst} s s2"
    using cmd_post_trans[OF cmd_post_write[OF ok l(1)] cmd_post_write[OF l1(3,2,5) l(2)]] by (simp add: insert_commute)
  show ?thesis
  proof (cases "v = None \<or> src = dst \<or> w \<noteq> None \<and> nx")
    case True
    then show ?thesis using l by (auto simp: renameGenericCommand_def)
  next
    case False
    then obtain val where v: "v = Some val" and ne: "src \<noteq> dst" by auto
    have src2: "db_keys s2 src = Some val"
    proof -
      have "s2 = s1 \<or> effect {dst} s1 s2" using lookupKeyWrite_ok[OF l1(3,5) l(2)] by (auto simp: lookup_deletes_def)
      then show ?thesis using ne l1(4) v by (auto simp: effect_def)
    qed
    define t where "t = getExpire s1 src"
    define s3 where "s3 = s2\<lparr>db_keys := (db_keys s2)(dst \<mapsto> val, src := None),
      db_expires := (db_expires s2)(dst := if t = -1 then None else Some t, src := None)\<rparr>"
    have wn: "db_expires s2 dst = None" if "w = None" using that l2(4) db_invD(1)[OF l2(2), of dst] by simp
    have run: "renameGenericCommand src dst nx s =
        Some (add_dirty 1 (signalModifiedKey dst (signalModifiedKey src s3)), [if nx then RInt 1 else ROk])"
    proof -
      define d where "d = (if w \<noteq> None then fst (dbDelete dst s2) else s2)"
      have d: "d = s2\<lparr>db_keys := (db_keys s2)(dst := None), db_expires := (db_expires s2)(dst := None)\<rparr>"
        using l2(4) wn by (auto simp: d_def dbDelete_present fun_upd_idem)
      define e where "e = d\<lparr>db_keys := (db_keys s2)(dst \<mapsto> val)\<rparr>"
      define f where "f = s2\<lparr>db_keys := (db_keys s2)(dst \<mapsto> val), db_expires := (db_expires s2)(dst := if t = -1 then None else Some t)\<rparr>"
      have a: "dbAdd dst val d = Some e" unfolding d e_def by (simp add: dbAdd_def dbFind_def)
      have b: "(if t \<noteq> -1 then setExpire dst t e else Some e) = Some f"
        unfolding d e_def f_def by (simp add: setExpire_def dbFind_def)
      have c: "fst (dbDelete src f) = s3"
        using src2 ne by (simp add: dbDelete_present s3_def f_def)
      have "renameGenericCommand src dst nx s = do {
          s \<leftarrow> dbAdd dst val d;
          s \<leftarrow> (if t \<noteq> -1 then setExpire dst t s else Some s);
          Some (add_dirty 1 (signalModifiedKey dst (signalModifiedKey src (fst (dbDelete src s)))), [if nx then RInt 1 else ROk]) }"
        using l v ne False by (auto simp: renameGenericCommand_def d_def Let_def simp flip: t_def)
      then show ?thesis by (simp add: a b c split del: if_split)
    qed
    have t0: "touched {} s2 s3" by (rule touched_refl[OF l2(3)]) (simp_all add: s3_def)
    have t2: "touched {dst, src} s2 (signalModifiedKey dst (signalModifiedKey src s3))"
      by (rule touched_signal(1)[OF touched_signal(1)[OF t0]])
    have sd: "same_data s3 (signalModifiedKey dst (signalModifiedKey src s3))"
      by (rule same_data_trans[OF touched_signal(2)[OF t0] touched_signal(2)[OF touched_signal(1)[OF t0]]])
    have s3: "db_keys s3 = (db_keys s2)(dst \<mapsto> val, src := None)"
      "db_expires s3 = (db_expires s2)(dst := if t = -1 then None else Some t, src := None)" by (simp_all add: s3_def)
    note data = same_data_simps(1,2)[OF sd] s3
    have e: "same_env s2 (signalModifiedKey dst (signalModifiedKey src s3))"
      using same_env_trans[of s2 s3] same_data_env[OF sd] by (simp add: s3_def same_env_def)
    have "cmd_effect env {dst, src} s2 (signalModifiedKey dst (signalModifiedKey src s3))"
      using t2 e by (simp add: cmd_effect_def data)
    moreover have "db_inv env s3" using l2(2) src2 ne db_invD(1)[OF l2(2), of src] by (auto simp: db_inv_def s3)
    ultimately have "cmd_post env {src, dst} s2 (signalModifiedKey dst (signalModifiedKey src s3))"
      using same_data_inv[OF sd] by (auto intro: cmd_postI)
    then show ?thesis using run v False cmd_post_dirty[OF cmd_post_seq[OF post]] ne by (auto simp: data t_def)
  qed
qed

lemma renameGenericCommand_post:
  assumes ok: "watch_ok s" "db_inv env s" "can_write s"
  shows "\<exists>s' rs. renameGenericCommand src dst nx s = Some (s', rs) \<and> cmd_post env {src, dst} s s'"
proof -
  obtain s1 v where l1: "lookupKeyWrite src s = (s1, v)" by fastforce
  obtain s2 w where l2: "lookupKeyWrite dst s1 = (s2, w)" by fastforce
  note w1 = lookup_write[OF ok l1]
  have "cmd_post env {src, dst} s s1" by (rule cmd_post_mono[OF cmd_post_write[OF ok l1]]) simp
  moreover have "cmd_post env {src, dst} s s2"
    using cmd_post_trans[OF cmd_post_write[OF ok l1] cmd_post_write[OF w1(3,2,5) l2]] by (simp add: insert_commute)
  ultimately show ?thesis using renameGenericCommand_ok[OF ok l1 l2, of nx] by (auto split: if_splits)
qed

section \<open>RESTORE\<close>

text \<open>The last part of \<open>RESTORE\<close>: an expired key is not created, otherwise it is.\<close>

lemma restore_tail:
  assumes run: "do {
      ttl \<leftarrow> (if ttl \<noteq> 0 \<and> \<not> absttl then long_long (ttl + mstime s) else Some ttl);
      if ttl \<noteq> 0 \<and> checkAlreadyExpired s ttl then
        Some (if deleted then add_dirty 1 (signalModifiedKey key s) else s, [ROk])
      else do {
        s \<leftarrow> dbAdd key obj s;
        s \<leftarrow> (if ttl \<noteq> 0 then setExpire key ttl s else Some s);
        Some (add_dirty 1 (signalModifiedKey key s), [ROk])
      } } = Some (s', rs)"
    and none: "db_keys s key = None" "db_expires s key = None"
  shows "s' = (if deleted then add_dirty 1 (signalModifiedKey key s) else s) \<or>
    (\<exists>t. s' = add_dirty 1 (signalModifiedKey key (s\<lparr>db_keys := (db_keys s)(key \<mapsto> obj), db_expires := (db_expires s)(key := t)\<rparr>)))"
proof -
  have u: "s\<lparr>db_keys := (db_keys s)(key \<mapsto> obj)\<rparr> = s\<lparr>db_keys := (db_keys s)(key \<mapsto> obj), db_expires := (db_expires s)(key := None)\<rparr>"
    using none(2) by (simp add: fun_upd_idem)
  obtain t where t: "(if ttl \<noteq> 0 \<and> \<not> absttl then long_long (ttl + mstime s) else Some ttl) = Some t"
    using run by (auto split: bind_splits)
  have add: "dbAdd key obj s = Some (s\<lparr>db_keys := (db_keys s)(key \<mapsto> obj)\<rparr>)" using none(1) by (simp add: dbAdd_def dbFind_def)
  consider "t \<noteq> 0 \<and> checkAlreadyExpired s t" | "t = 0" | "t \<noteq> 0" "\<not> checkAlreadyExpired s t" by blast
  then show ?thesis
  proof cases
    case 1
    then show ?thesis using run unfolding t by simp
  next
    case 2
    then have "s' = add_dirty 1 (signalModifiedKey key (s\<lparr>db_keys := (db_keys s)(key \<mapsto> obj)\<rparr>))"
      using run unfolding t by (simp add: add)
    then show ?thesis by (subst (asm) u) blast
  next
    case 3
    then have "s' = add_dirty 1 (signalModifiedKey key (s\<lparr>db_keys := (db_keys s)(key \<mapsto> obj), db_expires := (db_expires s)(key \<mapsto> t)\<rparr>))"
      using run unfolding t by (simp add: add setExpire_def dbFind_def)
    then show ?thesis by blast
  qed
qed

lemma restoreCommand_post:
  assumes ok: "watch_ok s" "db_inv env s" "can_write s" and p: "\<And>ob. payload = Some ob \<Longrightarrow> obj_ok env (Some ob)"
    and r: "restoreCommand key ttl_arg payload replace absttl s = Some (s', rs)"
  shows "cmd_post env {key} s s'"
proof -
  obtain s1 busy where l: "(if replace then (s, False) else (case lookupKeyWrite key s of (s, v) \<Rightarrow> (s, v \<noteq> None))) = (s1, busy)"
    by fastforce
  have p1: "cmd_post env {key} s s1" "\<not> replace \<Longrightarrow> busy = (db_keys s1 key \<noteq> None)"
    using l cmd_post_refl[OF ok(1,2)] cmd_post_write[OF ok] lookup_write(4)[OF ok] by (auto split: if_splits prod.splits)
  note ok1 = cmd_post_ok[OF p1(1)]
  show ?thesis
  proof (cases "s' = s1")
    case False
    have nb: "\<not> busy" using r l False by (auto simp: restoreCommand_def)
    obtain ttl where tt: "string2ll ttl_arg = Some ttl" using r l False nb by (cases "string2ll ttl_arg") (auto simp: restoreCommand_def)
    have pos: "\<not> ttl < 0" using r l False nb tt by (auto simp: restoreCommand_def)
    obtain obj where "payload = Some obj" using r l False nb tt pos by (cases payload) (auto simp: restoreCommand_def)
    note o = nb tt this
    obtain s2 deleted where d: "(if replace then dbDelete key s1 else (s1, False)) = (s2, deleted)" by fastforce
    have s2: "db_keys s2 = (db_keys s1)(key := None)" "db_expires s2 = (db_expires s1)(key := None)"
      "db_watched_keys s2 = db_watched_keys s1" "clients s2 = clients s1" "same_env s1 s2" "\<not> deleted \<Longrightarrow> s2 = s1"
      using d p1(2) o(1) db_invD(1)[OF ok1(2), of key]
      by (auto simp: dbDelete_def dbGenericDelete_def dbFind_def same_env_def fun_upd_idem split: if_splits option.splits)
    have run: "do {
        ttl \<leftarrow> (if ttl \<noteq> 0 \<and> \<not> absttl then long_long (ttl + mstime s2) else Some ttl);
        if ttl \<noteq> 0 \<and> checkAlreadyExpired s2 ttl then
          Some (if deleted then add_dirty 1 (signalModifiedKey key s2) else s2, [ROk])
        else do {
          s \<leftarrow> dbAdd key obj s2;
          s \<leftarrow> (if ttl \<noteq> 0 then setExpire key ttl s else Some s);
          Some (add_dirty 1 (signalModifiedKey key s), [ROk])
        } } = Some (s', rs)" using r l o d pos by (simp add: restoreCommand_def)
    have "db_keys s2 key = None" "db_expires s2 key = None" by (simp_all add: s2)
    from restore_tail[OF run this]
    show ?thesis
    proof
      assume s': "s' = (if deleted then add_dirty 1 (signalModifiedKey key s2) else s2)"
      have "cmd_post env {key} s1 (signalModifiedKey key s2)" by (rule change_signal[OF ok1]; simp add: s2)
      then show ?thesis using s' s2(6) False cmd_post_dirty[OF cmd_post_seq[OF p1(1)]] by (auto split: if_splits)
    next
      assume "\<exists>t. s' = add_dirty 1 (signalModifiedKey key (s2\<lparr>db_keys := (db_keys s2)(key \<mapsto> obj), db_expires := (db_expires s2)(key := t)\<rparr>))"
      then obtain t where s': "s' = add_dirty 1 (signalModifiedKey key (s2\<lparr>db_keys := (db_keys s2)(key \<mapsto> obj), db_expires := (db_expires s2)(key := t)\<rparr>))" by blast
      have "same_env s1 (s2\<lparr>db_keys := f, db_expires := g\<rparr>)" for f g using s2(5) by (simp add: same_env_def)
      then have "cmd_post env {key} s1 (signalModifiedKey key (s2\<lparr>db_keys := (db_keys s2)(key \<mapsto> obj), db_expires := (db_expires s2)(key := t)\<rparr>))"
        by (intro change_signal(1)[OF ok1]) (simp_all add: s2 p[OF o(3)])
      then show ?thesis using s' cmd_post_dirty[OF cmd_post_seq[OF p1(1)]] by simp
    qed
  qed (use p1 in simp)
qed

section \<open>Reading the expire time back\<close>

lemma ttl_live:
  assumes k: "db_keys s key = Some v" "db_expires s key = Some t" and t: "0 \<le> t" "mstime s \<le> t"
  shows "ttlGenericCommand key ms True s =
      (if ms then Some (s, [RInt t]) else do { n \<leftarrow> long_long (t + 500); Some (s, [RInt (n div 1000)]) })"
    "is_int64 (t - mstime s) \<Longrightarrow> ttlGenericCommand key True False s = Some (s, [RInt (t - mstime s)])"
proof -
  have "lookupKeyRead key s = (s, Some v)" "getExpire s key = t"
    using k t by (auto simp: lookupKeyRead_def lookupKey_def dbFind_def expireIfNeeded_def keyIsExpired_def getExpire_def Let_def)
  then show "ttlGenericCommand key ms True s =
      (if ms then Some (s, [RInt t]) else do { n \<leftarrow> long_long (t + 500); Some (s, [RInt (n div 1000)]) })"
    "is_int64 (t - mstime s) \<Longrightarrow> ttlGenericCommand key True False s = Some (s, [RInt (t - mstime s)])"
    using t by (simp_all add: ttlGenericCommand_def long_long_def Let_def)
qed

lemma pexpireat_live:
  assumes ok: "watch_ok s" "db_inv env s" "can_write s" and key: "lookupKeyWrite key s = (s, Some v)"
    and t: "is_int64 t" "mstime s < t"
  shows "\<exists>s'. pexpireatCommand key (sdec t) [] s = Some (s', [RInt 1]) \<and> cmd_post env {key} s s' \<and>
    db_keys s' key = Some v \<and> db_expires s' key = Some t \<and> same_env s s'"
proof -
  have p: "parseExtendedExpireArgumentsOrReply [] = Inr no_flags" "string2ll (sdec t) = Some t"
    "expire_when t 0 UNIT_MILLISECONDS = Some t"
    using t(1) by (simp_all add: parseExtendedExpireArgumentsOrReply_def no_flags_def string2ll_iff expire_when_def LLONG_MAX_def range_simps)
  have a: "expire_allowed no_flags (getExpire s key) t" "\<not> checkAlreadyExpired s t"
    using t(2) by (simp_all add: expire_allowed_def no_flags_def checkAlreadyExpired_def)
  from expireGenericCommand_ok[OF ok p key] a obtain s' where
    s': "pexpireatCommand key (sdec t) [] s = Some (s', [RInt 1])" "cmd_post env {key} s s'" "db_keys s' key = Some v"
      "db_expires s' key = Some t" by (auto simp: pexpireatCommand_def)
  moreover have "same_env s s'" using s'(2) by (auto simp: cmd_post_def cmd_effect_def)
  ultimately show ?thesis by blast
qed

definition init_server :: "('o, 'q) server" where
  "init_server = \<lparr>db_keys = Map.empty, db_expires = Map.empty, db_watched_keys = (\<lambda>_. []),
     clients = (\<lambda>_. \<lparr>cl_multi = False, cl_dirty_cas = False, cl_dirty_exec = False, cl_master = False, cl_commands = [], cl_watched_keys = []\<rparr>),
     current_client = 0, watching_clients = 0, dirty = 0, stat_expiredkeys = 0, also_propagate = [], mstime = 0, loading = False,
     lazy_expire_disabled = False, masterhost = False, repl_slave_ro = True, expire_paused = False\<rparr>"

lemma init_server_ok: "watch_ok init_server" "env_ok env \<Longrightarrow> db_inv env init_server" "can_write init_server"
  by (simp_all add: init_server_def watch_ok_def watch_inv_def none_expired_def db_inv_def can_write_def)

text \<open>After its time a key is not found, and the lookup deletes it.\<close>

lemma lookup_expired:
  assumes ok: "watch_ok s" and k: "db_keys s key \<noteq> None" "db_expires s key = Some t" "0 \<le> t" "t < mstime s"
    and m: "\<not> loading s" "\<not> lazy_expire_disabled s" "\<not> masterhost s" "\<not> expire_paused s"
  shows "\<exists>s'. lookupKeyRead key s = (s', None) \<and> db_keys s' key = None \<and> db_expires s' key = None"
proof -
  have "keyIsExpired s key" using k m(1) by (simp add: keyIsExpired_def getExpire_def Let_def)
  then have "lookupKeyRead key s = (deleteExpiredKeyAndPropagate key s, None)"
    using k(1) m by (auto simp: lookupKeyRead_def lookupKey_def expireIfNeeded_def dbFind_def)
  then show ?thesis using deleteExpired_ok(2,3)[OF ok, of key] k(1) by blast
qed

text \<open>C34: on a master that is not loading, has lazy expiry enabled and does not pause expiration, \<open>PEXPIREAT\<close> with a time in the
  future on an existing key replies 1, touches only that key and keeps its value. Until the time has passed, \<open>PEXPIRETIME\<close> gives the time
  back, \<open>PTTL\<close> the milliseconds left, a lookup of the key finds its value and changes nothing, and \<open>PERSIST\<close> replies 1 and removes the time; after
  that time, a lookup of the key finds nothing and deletes the key, and \<open>PTTL\<close> and \<open>PEXPIRETIME\<close> reply -2.\<close>
theorem expire_time_round_trip:
  fixes s :: "('o, 'q) server"
  assumes ok: "watch_ok s" "db_inv env s" "can_write s" "\<not> loading s" "\<not> lazy_expire_disabled s" "\<not> masterhost s"
    and key: "lookupKeyWrite key s = (s, Some v)" and t: "is_int64 t" "0 \<le> mstime s" "mstime s < t"
  shows "\<exists>s'. pexpireatCommand key (sdec t) [] s = Some (s', [RInt 1]) \<and> cmd_post env {key} s s' \<and>
    (\<forall>now. 0 \<le> now \<and> now \<le> t \<longrightarrow>
       ttlGenericCommand key True True (s'\<lparr>mstime := now\<rparr>) = Some (s'\<lparr>mstime := now\<rparr>, [RInt t]) \<and>
       ttlGenericCommand key True False (s'\<lparr>mstime := now\<rparr>) = Some (s'\<lparr>mstime := now\<rparr>, [RInt (t - now)]) \<and>
       lookupKeyRead key (s'\<lparr>mstime := now\<rparr>) = (s'\<lparr>mstime := now\<rparr>, Some v) \<and>
       (\<exists>s''. persistCommand key (s'\<lparr>mstime := now\<rparr>) = Some (s'', [RInt 1]) \<and> db_keys s'' key = Some v \<and> db_expires s'' key = None)) \<and>
    (\<forall>now > t. \<exists>s''. lookupKeyRead key (s'\<lparr>mstime := now\<rparr>) = (s'', None) \<and> db_keys s'' key = None \<and> db_expires s'' key = None \<and>
       (\<forall>abs. ttlGenericCommand key True abs (s'\<lparr>mstime := now\<rparr>) = Some (s'', [RInt (-2)])))"
proof -
  from pexpireat_live[OF ok(1-3) key t(1,3)] obtain s' where
    s': "pexpireatCommand key (sdec t) [] s = Some (s', [RInt 1])" "cmd_post env {key} s s'" "db_keys s' key = Some v"
      "db_expires s' key = Some t" "same_env s s'" by blast
  have w: "watch_ok (s'\<lparr>mstime := now\<rparr>)" "db_inv env (s'\<lparr>mstime := now\<rparr>)" "can_write (s'\<lparr>mstime := now\<rparr>)" for now
    using cmd_post_ok[OF s'(2)] can_write_post[OF s'(2)] ok(3) watch_ok_cong[of "s'\<lparr>mstime := now\<rparr>" s']
      db_inv_cong[of "s'\<lparr>mstime := now\<rparr>" s'] by (simp_all add: can_write_def)
  have live: "ttlGenericCommand key True True (s'\<lparr>mstime := now\<rparr>) = Some (s'\<lparr>mstime := now\<rparr>, [RInt t]) \<and>
       ttlGenericCommand key True False (s'\<lparr>mstime := now\<rparr>) = Some (s'\<lparr>mstime := now\<rparr>, [RInt (t - now)]) \<and>
       lookupKeyRead key (s'\<lparr>mstime := now\<rparr>) = (s'\<lparr>mstime := now\<rparr>, Some v) \<and>
       (\<exists>s''. persistCommand key (s'\<lparr>mstime := now\<rparr>) = Some (s'', [RInt 1]) \<and> db_keys s'' key = Some v \<and> db_expires s'' key = None)"
    if now: "0 \<le> now" "now \<le> t" for now
  proof -
    let ?n = "s'\<lparr>mstime := now\<rparr>"
    have d: "is_int64 (t - now)" using t now by (simp add: range_simps)
    have l: "lookupKeyRead key ?n = (?n, Some v)" "lookupKeyWrite key ?n = (?n, Some v)"
      using s'(3,4) now by (auto simp: lookupKeyRead_def lookupKeyWrite_def lookupKey_def dbFind_def expireIfNeeded_def
        keyIsExpired_def getExpire_def Let_def)
    then have "visible ?n key = Some v" by (simp add: visible_def)
    then show ?thesis using d l(1) ttl_live[of ?n key v t] persistCommand_ok[OF w l(2)] s'(3,4) t now by auto
  qed
  have gone: "\<exists>s''. lookupKeyRead key (s'\<lparr>mstime := now\<rparr>) = (s'', None) \<and> db_keys s'' key = None \<and> db_expires s'' key = None \<and>
       (\<forall>abs. ttlGenericCommand key True abs (s'\<lparr>mstime := now\<rparr>) = Some (s'', [RInt (-2)]))" if "now > t" for now
  proof -
    have "\<not> loading s'" "\<not> lazy_expire_disabled s'" "\<not> masterhost s'" "\<not> expire_paused s'"
      using s'(5) ok(3-6) by (simp_all add: same_env_def can_write_def)
    then show ?thesis using lookup_expired[OF w(1)[of now], of key t] that t s'(3,4) by (auto simp: ttlGenericCommand_def)
  qed
  show ?thesis using s'(1,2) live gone by blast
qed

theorem expire_time_round_trip_witness:
  "\<exists>s' :: (unit, unit) server. pexpireatCommand [1] (sdec 2500) [] (init_server\<lparr>db_keys := [[1] \<mapsto> OBJ_OTHER ()], mstime := 1000\<rparr>) =
    Some (s', [RInt 1]) \<and> snd (lookupKeyRead [1] (s'\<lparr>mstime := 2500\<rparr>)) = Some (OBJ_OTHER ()) \<and>
    snd (lookupKeyRead [1] (s'\<lparr>mstime := 2501\<rparr>)) = None \<and> db_keys (fst (lookupKeyRead [1] (s'\<lparr>mstime := 2501\<rparr>))) [1] = None"
proof -
  let ?s = "init_server\<lparr>db_keys := [[1] \<mapsto> OBJ_OTHER ()], mstime := 1000\<rparr> :: (unit, unit) server"
  have "watch_ok ?s" "db_inv small_env ?s" "can_write ?s" "\<not> loading ?s" "\<not> lazy_expire_disabled ?s" "\<not> masterhost ?s"
    "lookupKeyWrite [1] ?s = (?s, Some (OBJ_OTHER ()))" "is_int64 2500" "0 \<le> mstime ?s" "mstime ?s < 2500"
    using small_env_ok
    by (simp_all add: init_server_def watch_ok_def watch_inv_def none_expired_def db_inv_def can_write_def lookupKeyWrite_def lookupKey_def
      dbFind_def expireIfNeeded_def keyIsExpired_def getExpire_def range_simps)
  from expire_time_round_trip[OF this] obtain s' where
    "pexpireatCommand [1] (sdec 2500) [] ?s = Some (s', [RInt 1])"
    "\<And>now. 0 \<le> now \<and> now \<le> 2500 \<Longrightarrow> lookupKeyRead [1] (s'\<lparr>mstime := now\<rparr>) = (s'\<lparr>mstime := now\<rparr>, Some (OBJ_OTHER ()))"
    "\<And>now. now > 2500 \<Longrightarrow> \<exists>s''. lookupKeyRead [1] (s'\<lparr>mstime := now\<rparr>) = (s'', None) \<and> db_keys s'' [1] = None" by blast
  from this(1) this(2)[of 2500] this(3)[of 2501] show ?thesis by auto
qed

section \<open>Overflow of times\<close>

text \<open>C35: The expire commands detect every overflow. The time they compute is exact and fits 64 bits, and they report an
  error only if the argument in milliseconds or the sum with the base time does not fit.\<close>

theorem expire_when_exact:
  fixes unit :: expire_unit
  assumes n: "is_int64 n" and base: "0 \<le> base" "is_int64 base"
  defines "ms \<equiv> (if unit = UNIT_SECONDS then n * 1000 else n)"
  shows "case expire_when n base unit of Some when \<Rightarrow> when = ms + base \<and> is_int64 when
    | None \<Rightarrow> \<not> is_int64 ms \<or> \<not> is_int64 (ms + base)"
proof -
  have lo: "- (2 ^ 63 :: int) \<le> n * 1000" if "n \<ge> - (2 ^ 63 div 1000)" using that by simp
  have hi: "n * 1000 \<le> 2 ^ 63 - 1" if "n \<le> (2 ^ 63 - 1) div 1000" using that by simp
  have "n * 1000 > 2 ^ 63 - 1" if "n > (2 ^ 63 - 1) div 1000" using that by simp
  moreover have "n * 1000 < - (2 ^ 63)" if "n < - (2 ^ 63 div 1000)" using that by simp
  ultimately show ?thesis using n base lo hi
    by (auto simp: expire_when_def ms_def range_simps LLONG_MAX_def LLONG_MIN_def)
qed

theorem expire_when_exact_witness:
  "expire_when 7 1000 UNIT_SECONDS = Some 8000 \<and> is_int64 8000"
  using expire_when_exact[of 7 1000 UNIT_SECONDS] by (simp add: range_simps expire_when_def LLONG_MAX_def LLONG_MIN_def)

text \<open>C36: Two commands do not check. \<open>EXPIRETIME\<close> rounds by adding 500 and overflows exactly when the expire time lies less than 500
  milliseconds below the largest 64 bit value, a time \<open>PEXPIREAT\<close> accepts. \<open>RESTORE\<close> adds the current time to a relative time to live
  and overflows exactly when the sum does not fit.\<close>

theorem unchecked_time_overflow:
  fixes s :: "('o, 'q) server"
  assumes ok: "watch_ok s" "db_inv env s" "can_write s" and key: "lookupKeyWrite key s = (s, Some v)"
    and t: "is_int64 t" "0 \<le> mstime s" "mstime s < t"
  shows "\<exists>s'. pexpireatCommand key (sdec t) [] s = Some (s', [RInt 1]) \<and>
    (ttlGenericCommand key False True s' = None \<longleftrightarrow> t > LLONG_MAX - 500) \<and>
    (restoreCommand key (sdec t) (Some obj) True False s = None \<longleftrightarrow> t > LLONG_MAX - mstime s)"
proof -
  from pexpireat_live[OF ok key t(1,3)] obtain s' where
    s': "pexpireatCommand key (sdec t) [] s = Some (s', [RInt 1])" "db_keys s' key = Some v" "db_expires s' key = Some t" "same_env s s'" by blast
  have "mstime s' = mstime s" using s'(4) by (simp add: same_env_def)
  then have "ttlGenericCommand key False True s' = None \<longleftrightarrow> t > LLONG_MAX - 500"
    using ttl_live(1)[of s' key v t False] s'(2,3) t by (auto simp: long_long_def c_assert_def range_simps LLONG_MAX_def)
  moreover have "restoreCommand key (sdec t) (Some obj) True False s = None \<longleftrightarrow> t > LLONG_MAX - mstime s"
  proof -
    obtain s2 d where d: "dbDelete key s = (s2, d)" by fastforce
    have s2: "mstime s2 = mstime s" "db_keys s2 key = None"
      using d by (auto simp: dbDelete_def dbGenericDelete_def dbFind_def split: option.splits)
    have n: "string2ll (sdec t) = Some t" using t(1) by (simp add: string2ll_iff)
    have i: "is_int64 (t + mstime s) \<longleftrightarrow> \<not> t > LLONG_MAX - mstime s" using t by (auto simp: range_simps LLONG_MAX_def)
    have a: "restoreCommand key (sdec t) (Some obj) True False s \<noteq> None" if "is_int64 (t + mstime s)"
      using t d n s2 that by (cases "checkAlreadyExpired s2 (t + mstime s)")
        (simp_all add: restoreCommand_def long_long_def c_assert_def dbAdd_def setExpire_def dbFind_def)
    have b: "restoreCommand key (sdec t) (Some obj) True False s = None" if "\<not> is_int64 (t + mstime s)"
      using t d n s2 that by (simp add: restoreCommand_def long_long_def c_assert_def)
    show ?thesis using a b unfolding i by (cases "t > LLONG_MAX - mstime s") simp_all
  qed
  ultimately show ?thesis using s'(1) by (intro exI[of _ s'] conjI)
qed

theorem unchecked_time_overflow_witness:
  "\<exists>s' :: (unit, unit) server. pexpireatCommand [1] (sdec LLONG_MAX) [] (init_server\<lparr>db_keys := [[1] \<mapsto> OBJ_OTHER ()], mstime := 1000\<rparr>) =
    Some (s', [RInt 1]) \<and> ttlGenericCommand [1] False True s' = None"
proof -
  let ?s = "init_server\<lparr>db_keys := [[1] \<mapsto> OBJ_OTHER ()], mstime := 1000\<rparr> :: (unit, unit) server"
  have "watch_ok ?s" "db_inv small_env ?s" "can_write ?s" "lookupKeyWrite [1] ?s = (?s, Some (OBJ_OTHER ()))"
    "is_int64 LLONG_MAX" "0 \<le> mstime ?s" "mstime ?s < LLONG_MAX"
    using small_env_ok
    by (simp_all add: init_server_def watch_ok_def watch_inv_def none_expired_def db_inv_def can_write_def lookupKeyWrite_def lookupKey_def
      dbFind_def expireIfNeeded_def keyIsExpired_def getExpire_def range_simps LLONG_MAX_def)
  from unchecked_time_overflow[OF this, of "OBJ_OTHER ()"] show ?thesis by (auto simp: LLONG_MAX_def)
qed

end
