(* ===== verification/Commands.thy ===== *)
theory Commands
  imports Expire_Correct
begin

text \<open>
  The commands of the modelled components behind one dispatch, as \<open>call\<close> runs them through the command table: \<open>SADD\<close> to
  \<open>SDIFFSTORE\<close> of \<open>t_set.c\<close>, \<open>DEL\<close> to \<open>RENAMENX\<close> of \<open>db.c\<close>, \<open>EXPIRE\<close> to \<open>TOUCH\<close> of \<open>expire.c\<close>, and \<open>RESTORE\<close>. What
  the commands do is stated over the abstract keyspace: a key holds a set of byte strings or an opaque value.
\<close>

section \<open>Command functions\<close>

definition sinterCommand :: "set_env \<Rightarrow> qsort_fn \<Rightarrow> key list \<Rightarrow> ('o, 'q) server \<Rightarrow> (('o, 'q) server \<times> reply list) option" where
  "sinterCommand env qsort keys s = sinterGenericCommand env qsort keys None None s"

text \<open>The options of \<open>SINTERCARD\<close> after the keys.\<close>

fun parse_limit :: "byte list list \<Rightarrow> nat \<Rightarrow> reply_error + nat" where
  "parse_limit [] limit = Inr limit"
| "parse_limit [opt] limit = Inl SYNTAX"
| "parse_limit (opt # v # args) limit =
     (if strcaseeq opt (bytes_of ''LIMIT'') then
        case string2ll v of
          None \<Rightarrow> Inl LIMIT_RANGE
        | Some n \<Rightarrow> if n < 0 then Inl LIMIT_RANGE else parse_limit args (nat n)
      else Inl SYNTAX)"

definition sinterCardCommand :: "set_env \<Rightarrow> qsort_fn \<Rightarrow> byte list \<Rightarrow> byte list list \<Rightarrow>
    ('o, 'q) server \<Rightarrow> (('o, 'q) server \<times> reply list) option" where
  "sinterCardCommand env qsort numkeys_arg args s =
     (case string2ll numkeys_arg of
        None \<Rightarrow> Some (s, [RErr NUMKEYS_RANGE])
      | Some numkeys \<Rightarrow>
          if numkeys < 1 then Some (s, [RErr NUMKEYS_RANGE])
          else if numkeys > int (length args) then Some (s, [RErr NUMKEYS_ARGS])
          else (case parse_limit (drop (nat numkeys) args) 0 of
              Inl e \<Rightarrow> Some (s, [RErr e])
            | Inr limit \<Rightarrow> sinterGenericCommand env qsort (take (nat numkeys) args) None (Some limit) s))"

definition sinterstoreCommand :: "set_env \<Rightarrow> qsort_fn \<Rightarrow> key \<Rightarrow> key list \<Rightarrow>
    ('o, 'q) server \<Rightarrow> (('o, 'q) server \<times> reply list) option" where
  "sinterstoreCommand env qsort dst keys s = sinterGenericCommand env qsort keys (Some dst) None s"

definition sunionCommand :: "set_env \<Rightarrow> qsort_fn \<Rightarrow> key list \<Rightarrow> ('o, 'q) server \<Rightarrow> (('o, 'q) server \<times> reply list) option" where
  "sunionCommand env qsort keys s = sunionDiffGenericCommand env qsort keys None SET_OP_UNION s"

definition sunionstoreCommand :: "set_env \<Rightarrow> qsort_fn \<Rightarrow> key \<Rightarrow> key list \<Rightarrow>
    ('o, 'q) server \<Rightarrow> (('o, 'q) server \<times> reply list) option" where
  "sunionstoreCommand env qsort dst keys s = sunionDiffGenericCommand env qsort keys (Some dst) SET_OP_UNION s"

definition sdiffCommand :: "set_env \<Rightarrow> qsort_fn \<Rightarrow> key list \<Rightarrow> ('o, 'q) server \<Rightarrow> (('o, 'q) server \<times> reply list) option" where
  "sdiffCommand env qsort keys s = sunionDiffGenericCommand env qsort keys None SET_OP_DIFF s"

definition sdiffstoreCommand :: "set_env \<Rightarrow> qsort_fn \<Rightarrow> key \<Rightarrow> key list \<Rightarrow>
    ('o, 'q) server \<Rightarrow> (('o, 'q) server \<times> reply list) option" where
  "sdiffstoreCommand env qsort dst keys s = sunionDiffGenericCommand env qsort keys (Some dst) SET_OP_DIFF s"

section \<open>Dispatch\<close>

datatype 'o key_command =
    SADD key "byte list list" | SREM key "byte list list" | SMOVE key key "byte list"
  | SISMEMBER key "byte list" | SMISMEMBER key "byte list list" | SCARD key
  | SINTER "key list" | SINTERCARD "byte list" "byte list list" | SINTERSTORE key "key list"
  | SUNION "key list" | SUNIONSTORE key "key list" | SDIFF "key list" | SDIFFSTORE key "key list"
  | DEL "key list" | EXISTS "key list" | RENAME key key | RENAMENX key key
  | EXPIRE key "byte list" "byte list list" | EXPIREAT key "byte list" "byte list list"
  | PEXPIRE key "byte list" "byte list list" | PEXPIREAT key "byte list" "byte list list"
  | TTL key | PTTL key | EXPIRETIME key | PEXPIRETIME key | PERSIST key | TOUCH "key list"
  | RESTORE key "byte list" "'o option" bool bool

text \<open>The commands with the flag \<open>CMD_WRITE\<close>.\<close>

fun is_write :: "'o key_command \<Rightarrow> bool" where
  "is_write (SADD _ _) = True" | "is_write (SREM _ _) = True" | "is_write (SMOVE _ _ _) = True"
| "is_write (SINTERSTORE _ _) = True" | "is_write (SUNIONSTORE _ _) = True" | "is_write (SDIFFSTORE _ _) = True"
| "is_write (DEL _) = True" | "is_write (RENAME _ _) = True" | "is_write (RENAMENX _ _) = True"
| "is_write (EXPIRE _ _ _) = True" | "is_write (EXPIREAT _ _ _) = True" | "is_write (PEXPIRE _ _ _) = True"
| "is_write (PEXPIREAT _ _ _) = True" | "is_write (PERSIST _) = True" | "is_write (RESTORE _ _ _ _ _) = True"
| "is_write _ = False"

text \<open>
  What the code can count: member arguments shorter than \<open>2 ^ 32\<close> bytes, which \<open>lpFind\<close> does not truncate; fewer than \<open>2 ^ 64\<close>
  members in a set; fewer than \<open>2 ^ 31\<close> where the code counts in an \<open>int\<close>; and times whose sums fit 64 bits. The number of
  arguments is what the command table demands.
\<close>

definition ttl_fits :: "key \<Rightarrow> bool \<Rightarrow> bool \<Rightarrow> ('o, 'q) server \<Rightarrow> bool" where
  "ttl_fits key output_ms output_abs s =
     (let expire = getExpire s key; ttl = (if output_abs then expire else expire - mstime s)
      in is_int64 ttl \<and> (output_ms \<or> is_int64 (ttl + 500)))"

definition restore_fits :: "byte list \<Rightarrow> bool \<Rightarrow> ('o, 'q) server \<Rightarrow> bool" where
  "restore_fits ttl_arg absttl s =
     (case string2ll ttl_arg of None \<Rightarrow> True | Some ttl \<Rightarrow> ttl \<le> 0 \<or> absttl \<or> is_int64 (ttl + mstime s))"

fun cmd_fits :: "set_env \<Rightarrow> 'o key_command \<Rightarrow> ('o, 'q) server \<Rightarrow> bool" where
  "cmd_fits env (SADD key args) s = (args \<noteq> [] \<and> (\<forall>x \<in> set args. sds_fits x) \<and>
     card (set_of env (db_keys s key)) + length args \<le> 2 ^ 64 - 1)"
| "cmd_fits env (SREM key args) s = (\<forall>x \<in> set args. sds_fits x)"
| "cmd_fits env (SMOVE src dst ele) s = (sds_fits ele \<and> card (set_of env (db_keys s dst)) < 2 ^ 64 - 1)"
| "cmd_fits env (SISMEMBER key ele) s = sds_fits ele"
| "cmd_fits env (SMISMEMBER key args) s = (\<forall>x \<in> set args. sds_fits x)"
| "cmd_fits env (SINTER keys) s = (keys \<noteq> [])"
| "cmd_fits env (SINTERSTORE dst keys) s = (keys \<noteq> [])"
| "cmd_fits env (SUNION keys) s = (keys \<noteq> [] \<and> card (\<Union>k \<in> set keys. set_of env (visible s k)) < 2 ^ 31)"
| "cmd_fits env (SUNIONSTORE dst keys) s = (keys \<noteq> [] \<and> card (\<Union>k \<in> set keys. set_of env (visible s k)) < 2 ^ 31)"
| "cmd_fits env (SDIFF keys) s = (keys \<noteq> [] \<and> card (set_of env (visible s (hd keys))) < 2 ^ 31)"
| "cmd_fits env (SDIFFSTORE dst keys) s = (keys \<noteq> [] \<and> card (set_of env (visible s (hd keys))) < 2 ^ 31)"
| "cmd_fits env (TTL key) s = ttl_fits key False False s"
| "cmd_fits env (PTTL key) s = ttl_fits key True False s"
| "cmd_fits env (EXPIRETIME key) s = ttl_fits key False True s"
| "cmd_fits env (PEXPIRETIME key) s = ttl_fits key True True s"
| "cmd_fits env (RESTORE key ttl payload replace absttl) s = restore_fits ttl absttl s"
| "cmd_fits env _ s = True"

fun run_command :: "set_env \<Rightarrow> qsort_fn \<Rightarrow> 'o key_command \<Rightarrow> ('o, 'q) server \<Rightarrow> (('o, 'q) server \<times> reply list) option" where
  "run_command env qsort (SADD key args) s = saddCommand env key args s"
| "run_command env qsort (SREM key args) s = sremCommand env key args s"
| "run_command env qsort (SMOVE src dst ele) s = smoveCommand env src dst ele s"
| "run_command env qsort (SISMEMBER key ele) s = sismemberCommand env key ele s"
| "run_command env qsort (SMISMEMBER key args) s = smismemberCommand env key args s"
| "run_command env qsort (SCARD key) s = scardCommand key s"
| "run_command env qsort (SINTER keys) s = sinterCommand env qsort keys s"
| "run_command env qsort (SINTERCARD n args) s = sinterCardCommand env qsort n args s"
| "run_command env qsort (SINTERSTORE dst keys) s = sinterstoreCommand env qsort dst keys s"
| "run_command env qsort (SUNION keys) s = sunionCommand env qsort keys s"
| "run_command env qsort (SUNIONSTORE dst keys) s = sunionstoreCommand env qsort dst keys s"
| "run_command env qsort (SDIFF keys) s = sdiffCommand env qsort keys s"
| "run_command env qsort (SDIFFSTORE dst keys) s = sdiffstoreCommand env qsort dst keys s"
| "run_command env qsort (DEL keys) s = delGenericCommand keys s"
| "run_command env qsort (EXISTS keys) s = existsCommand keys s"
| "run_command env qsort (RENAME src dst) s = renameGenericCommand src dst False s"
| "run_command env qsort (RENAMENX src dst) s = renameGenericCommand src dst True s"
| "run_command env qsort (EXPIRE key param opts) s = expireCommand key param opts s"
| "run_command env qsort (EXPIREAT key param opts) s = expireatCommand key param opts s"
| "run_command env qsort (PEXPIRE key param opts) s = pexpireCommand key param opts s"
| "run_command env qsort (PEXPIREAT key param opts) s = pexpireatCommand key param opts s"
| "run_command env qsort (TTL key) s = ttlGenericCommand key False False s"
| "run_command env qsort (PTTL key) s = ttlGenericCommand key True False s"
| "run_command env qsort (EXPIRETIME key) s = ttlGenericCommand key False True s"
| "run_command env qsort (PEXPIRETIME key) s = ttlGenericCommand key True True s"
| "run_command env qsort (PERSIST key) s = persistCommand key s"
| "run_command env qsort (TOUCH keys) s = touchCommand keys s"
| "run_command env qsort (RESTORE key ttl payload replace absttl) s =
     restoreCommand key ttl (map_option OBJ_OTHER payload) replace absttl s"

text \<open>The keys a command may change.\<close>

fun cmd_keys :: "'o key_command \<Rightarrow> key set" where
  "cmd_keys (SADD key _) = {key}" | "cmd_keys (SREM key _) = {key}" | "cmd_keys (SMOVE src dst _) = {src, dst}"
| "cmd_keys (SISMEMBER key _) = {key}" | "cmd_keys (SMISMEMBER key _) = {key}" | "cmd_keys (SCARD key) = {key}"
| "cmd_keys (SINTER keys) = set keys" | "cmd_keys (SINTERCARD _ args) = set args" | "cmd_keys (SINTERSTORE dst keys) = insert dst (set keys)"
| "cmd_keys (SUNION keys) = set keys" | "cmd_keys (SUNIONSTORE dst keys) = insert dst (set keys)"
| "cmd_keys (SDIFF keys) = set keys" | "cmd_keys (SDIFFSTORE dst keys) = insert dst (set keys)"
| "cmd_keys (DEL keys) = set keys" | "cmd_keys (EXISTS keys) = set keys"
| "cmd_keys (RENAME src dst) = {src, dst}" | "cmd_keys (RENAMENX src dst) = {src, dst}"
| "cmd_keys (EXPIRE key _ _) = {key}" | "cmd_keys (EXPIREAT key _ _) = {key}" | "cmd_keys (PEXPIRE key _ _) = {key}"
| "cmd_keys (PEXPIREAT key _ _) = {key}" | "cmd_keys (TTL key) = {key}" | "cmd_keys (PTTL key) = {key}"
| "cmd_keys (EXPIRETIME key) = {key}" | "cmd_keys (PEXPIRETIME key) = {key}" | "cmd_keys (PERSIST key) = {key}"
| "cmd_keys (TOUCH keys) = set keys" | "cmd_keys (RESTORE key _ _ _ _) = {key}"

section \<open>Every command returns and keeps the keyspace well-formed\<close>

lemma lookupKeyWrite_visible: "lookupKeyWrite k s = (s', v) \<Longrightarrow> v = visible s k"
  by (auto simp: lookupKeyWrite_def lookupKey_def visible_eq hidden_def expireIfNeeded_def dbFind_def Let_def
      split: option.splits if_splits)

text \<open>What a command returns, and its effect, in the cases of the lemmas above.\<close>

definition cmd_returns :: "set_env \<Rightarrow> key set \<Rightarrow> ('o, 'q) server \<Rightarrow> (('o, 'q) server \<times> reply list) option \<Rightarrow> bool" where
  "cmd_returns env K s r \<longleftrightarrow> (\<exists>s' rs. r = Some (s', rs) \<and> cmd_post env K s s')"

lemma cmd_returnsI: "r = Some (s', rs) \<Longrightarrow> cmd_post env K s s' \<Longrightarrow> cmd_returns env K s r"
  by (auto simp: cmd_returns_def)

lemma cmd_returns_mono: "cmd_returns env K s r \<Longrightarrow> K \<subseteq> K' \<Longrightarrow> cmd_returns env K' s r"
  using cmd_post_mono by (auto simp: cmd_returns_def)

lemma update_commands_return:
  assumes ok: "watch_ok s" "db_inv env s" "can_write s"
  shows "args \<noteq> [] \<Longrightarrow> \<forall>x \<in> set args. sds_fits x \<Longrightarrow> card (set_of env (db_keys s key)) + length args \<le> 2 ^ 64 - 1 \<Longrightarrow>
      cmd_returns env {key} s (saddCommand env key args s)"
    "\<forall>x \<in> set args. sds_fits x \<Longrightarrow> cmd_returns env {key} s (sremCommand env key args s)"
    "sds_fits x \<Longrightarrow> card (set_of env (db_keys s dst)) < 2 ^ 64 - 1 \<Longrightarrow> cmd_returns env {key, dst} s (smoveCommand env key dst x s)"
proof -
  obtain s1 v where l: "lookupKeyWrite key s = (s1, v)" by fastforce
  obtain s2 w where l2: "lookupKeyWrite dst s1 = (s2, w)" by fastforce
  note p = cmd_post_write[OF ok l] and l1 = lookup_write[OF ok l]
  have p2: "cmd_post env {key, dst} s s2"
    using cmd_post_trans[OF p cmd_post_write[OF l1(3,2,5) l2]] by (simp add: insert_commute)
  show "cmd_returns env {key} s (saddCommand env key args s)"
    if "args \<noteq> []" "\<forall>x \<in> set args. sds_fits x" "card (set_of env (db_keys s key)) + length args \<le> 2 ^ 64 - 1"
    using saddCommand_ok[OF ok that l] p by (auto simp: cmd_returns_def split: if_splits)
  show "cmd_returns env {key} s (sremCommand env key args s)" if "\<forall>x \<in> set args. sds_fits x"
    using sremCommand_ok[OF ok that l] p by (auto simp: cmd_returns_def split: if_splits)
  show "cmd_returns env {key, dst} s (smoveCommand env key dst x s)"
    if "sds_fits x" "card (set_of env (db_keys s dst)) < 2 ^ 64 - 1"
    using smoveCommand_ok[OF ok that(1) l l2 that(2)] p2 by (auto simp: cmd_returns_def split: if_splits)
qed

lemma read_commands_return:
  assumes ok: "watch_ok s" "db_inv env s"
  shows "sds_fits x \<Longrightarrow> cmd_returns env {key} s (sismemberCommand env key x s)"
    "\<forall>x \<in> set xs. sds_fits x \<Longrightarrow> cmd_returns env {key} s (smismemberCommand env key xs s)"
    "cmd_returns env {key} s (scardCommand key s)"
proof -
  obtain s1 v where l: "lookupKeyRead key s = (s1, v)" by fastforce
  note p = cmd_post_read[OF ok l]
  show "cmd_returns env {key} s (sismemberCommand env key x s)" if "sds_fits x"
    using sismemberCommand_ok[OF ok that l] p by (auto simp: cmd_returns_def split: if_splits)
  show "cmd_returns env {key} s (smismemberCommand env key xs s)" if "\<forall>x \<in> set xs. sds_fits x"
    using smismemberCommand_ok[OF ok that l] p by (auto simp: cmd_returns_def split: if_splits)
  show "cmd_returns env {key} s (scardCommand key s)"
    using scardCommand_ok[OF ok l] p by (auto simp: cmd_returns_def split: if_splits)
qed

lemma inter_commands_return:
  assumes ok: "watch_ok s" "db_inv env s" "dst \<noteq> None \<longrightarrow> can_write s" and q: "qsort_permutes qsort" and ks: "keys \<noteq> []"
    and mode: "lim \<noteq> None \<longrightarrow> dst = None"
  shows "cmd_returns env (set keys \<union> set_option dst) s (sinterGenericCommand env qsort keys dst lim s)"
proof -
  have "cmd_post env (set keys) s s' \<Longrightarrow> cmd_post env (set keys \<union> set_option dst) s s'" for s'
    by (erule cmd_post_mono) simp
  then show ?thesis using sinterGenericCommand_ok[OF ok q ks mode] by (auto simp: cmd_returns_def split: if_splits)
qed

lemma union_commands_return:
  assumes ok: "watch_ok s" "db_inv env s" "dst \<noteq> None \<longrightarrow> can_write s" and q: "qsort_permutes qsort" and ks: "keys \<noteq> []"
    and room: "case op of SET_OP_UNION \<Rightarrow> card (\<Union>k \<in> set keys. set_of env (visible s k)) < 2 ^ 31
      | SET_OP_DIFF \<Rightarrow> card (set_of env (visible s (hd keys))) < 2 ^ 31"
  shows "cmd_returns env (set keys \<union> set_option dst) s (sunionDiffGenericCommand env qsort keys dst op s)"
proof -
  have m: "cmd_post env (set keys) s s' \<Longrightarrow> cmd_post env (set keys \<union> set_option dst) s s'" for s'
    by (erule cmd_post_mono) simp
  have "case op of SET_OP_UNION \<Rightarrow> card (case op of SET_OP_UNION \<Rightarrow> \<Union>k \<in> set keys. set_of env (visible s k)
        | SET_OP_DIFF \<Rightarrow> set_of env (visible s (hd keys)) - (\<Union>k \<in> set (tl keys). set_of env (visible s k))) < 2 ^ 31
      | SET_OP_DIFF \<Rightarrow> card (set_of env (visible s (hd keys))) < 2 ^ 31" using room by (cases op) simp_all
  from sunionDiffGenericCommand_ok[OF ok q ks this] m show ?thesis by (auto simp: cmd_returns_def split: if_splits)
qed

lemma ttl_returns:
  assumes ok: "watch_ok s" "db_inv env s" and fits: "ttl_fits key ms ab s"
  shows "cmd_returns env {key} s (ttlGenericCommand key ms ab s)"
proof -
  obtain s1 v where l: "lookupKeyRead key s = (s1, v)" by fastforce
  have same: "s1 = s" if "v \<noteq> None"
    using lookupKey_ok[OF ok(1) l[unfolded lookupKeyRead_def]] that by auto
  have small: "is_int64 (max 0 t + 500)" if "is_int64 (t + 500)" "is_int64 t" for t using that by (auto simp: range_simps)
  have "\<exists>rs. ttlGenericCommand key ms ab s = Some (s1, rs)"
  proof (cases "v = None \<or> getExpire s1 key = -1")
    case True
    then show ?thesis using l by (auto simp: ttlGenericCommand_def)
  next
    case False
    define t where "t = (if ab then getExpire s key else getExpire s key - mstime s)"
    have t: "is_int64 t" "ms \<or> is_int64 (max 0 t + 500)"
      using fits small[of t] by (auto simp: ttl_fits_def Let_def t_def split: if_splits)
    have "(if ab then Some (getExpire s key) else long_long (getExpire s key - mstime s)) = Some t"
      using t(1) by (cases ab) (simp_all add: t_def long_long_def c_assert_def)
    then have "ttlGenericCommand key ms ab s = (if ms then Some (s, [RInt (max 0 t)])
        else do { n \<leftarrow> long_long (max 0 t + 500); Some (s, [RInt (n div 1000)]) })"
      using l False same by (auto simp: ttlGenericCommand_def max_def)
    then show ?thesis using t(2) same False by (auto simp: long_long_def c_assert_def)
  qed
  then show ?thesis using cmd_post_read[OF ok l] by (auto intro: cmd_returnsI)
qed

lemma restore_returns:
  assumes ok: "watch_ok s" "db_inv env s" "can_write s" and fits: "restore_fits ttl_arg ab s"
  shows "cmd_returns env {key} s (restoreCommand key ttl_arg (map_option OBJ_OTHER payload) replace ab s)"
proof -
  obtain s1 busy where l: "(if replace then (s, False) else (case lookupKeyWrite key s of (s, v) \<Rightarrow> (s, v \<noteq> None))) = (s1, busy)"
    by fastforce
  have s1: "mstime s1 = mstime s" "\<not> replace \<Longrightarrow> busy = (db_keys s1 key \<noteq> None)"
    using l cmd_post_write[OF ok] lookup_write(4)[OF ok]
    by (auto simp: cmd_post_def cmd_effect_def same_env_def split: if_splits prod.splits)
  have "restoreCommand key ttl_arg (map_option OBJ_OTHER payload) replace ab s \<noteq> None"
  proof (cases "busy \<or> payload = None \<or> (\<forall>t. string2ll ttl_arg = Some t \<longrightarrow> t < 0)")
    case True
    then show ?thesis using l by (auto simp: restoreCommand_def split: option.split)
  next
    case False
    then obtain obj t where o: "\<not> busy" "payload = Some obj" "string2ll ttl_arg = Some t" "\<not> t < 0" by auto
    obtain s2 d where d: "(if replace then dbDelete key s1 else (s1, False)) = (s2, d)" by fastforce
    have s2: "mstime s2 = mstime s" "db_keys s2 key = None"
      using d s1 o(1) by (auto simp: dbDelete_def dbGenericDelete_def dbFind_def split: option.splits if_splits)
    have "\<exists>t'. (if t \<noteq> 0 \<and> \<not> ab then long_long (t + mstime s2) else Some t) = Some t'"
      using fits o(3,4) s2(1) by (auto simp: restore_fits_def long_long_def c_assert_def)
    then obtain t' where t': "(if t \<noteq> 0 \<and> \<not> ab then long_long (t + mstime s2) else Some t) = Some t'" by blast
    show ?thesis using l o d t' s2(2) by (auto simp: restoreCommand_def dbAdd_def setExpire_def dbFind_def)
  qed
  then obtain s' rs where r: "restoreCommand key ttl_arg (map_option OBJ_OTHER payload) replace ab s = Some (s', rs)" by fastforce
  have p: "obj_ok env (Some ob)" if "map_option OBJ_OTHER payload = Some ob" for ob using that by auto
  show ?thesis by (rule cmd_returnsI[OF r restoreCommand_post[OF ok p r]])
qed

lemma sintercard_returns:
  assumes ok: "watch_ok s" "db_inv env s" and q: "qsort_permutes qsort"
  shows "cmd_returns env (set args) s (sinterCardCommand env qsort n args s)"
proof (cases "\<exists>m l. string2ll n = Some m \<and> 1 \<le> m \<and> m \<le> int (length args) \<and> parse_limit (drop (nat m) args) 0 = Inr l")
  case True
  then obtain m l where m: "string2ll n = Some m" "1 \<le> m" "m \<le> int (length args)" "parse_limit (drop (nat m) args) 0 = Inr l" by blast
  have "take (nat m) args \<noteq> []" using m by auto
  from inter_commands_return[OF ok _ q this, of None "Some l"] have "cmd_returns env (set (take (nat m) args)) s
    (sinterGenericCommand env qsort (take (nat m) args) None (Some l) s)" by simp
  then show ?thesis using m cmd_returns_mono[OF _ set_take_subset] by (simp add: sinterCardCommand_def)
next
  case False
  then have "\<exists>rs. sinterCardCommand env qsort n args s = Some (s, rs)"
    by (auto simp: sinterCardCommand_def not_less not_le split: option.split sum.split)
  then show ?thesis using cmd_post_refl[OF ok] by (auto simp: cmd_returns_def)
qed

lemma key_commands_return:
  assumes ok: "watch_ok s" "db_inv env s"
  shows "cmd_returns env (set keys) s (delGenericCommand keys s)" "cmd_returns env (set keys) s (existsCommand keys s)"
    "cmd_returns env (set keys) s (touchCommand keys s)"
  using delGenericCommand_ok[OF ok, of keys] existsCommand_ok[OF ok, of keys] by (auto simp: cmd_returns_def)

lemma write_commands_return:
  assumes ok: "watch_ok s" "db_inv env s" "can_write s"
  shows "cmd_returns env {src, dst} s (renameGenericCommand src dst nx s)" "cmd_returns env {key} s (persistCommand key s)"
    "cmd_returns env {key} s (expireCommand key param opts s)" "cmd_returns env {key} s (expireatCommand key param opts s)"
    "cmd_returns env {key} s (pexpireCommand key param opts s)" "cmd_returns env {key} s (pexpireatCommand key param opts s)"
proof -
  obtain s1 v where l: "lookupKeyWrite key s = (s1, v)" by fastforce
  show "cmd_returns env {key} s (persistCommand key s)" using persistCommand_ok[OF ok l] by (auto simp: cmd_returns_def)
qed (use renameGenericCommand_post[OF ok] expireGenericCommand_post[OF ok] in
  \<open>simp_all add: cmd_returns_def expireCommand_def expireatCommand_def pexpireCommand_def pexpireatCommand_def\<close>)

lemma run_command_returns:
  assumes ok: "watch_ok s" "db_inv env s" "is_write cmd \<longrightarrow> can_write s" and q: "qsort_permutes qsort" and fits: "cmd_fits env cmd s"
  shows "cmd_returns env (cmd_keys cmd) s (run_command env qsort cmd s)"
proof -
  note int = inter_commands_return[OF ok(1,2) _ q] and un = union_commands_return[OF ok(1,2) _ q]
  show ?thesis
  proof (cases cmd)
    case (SINTERCARD n args)
    then show ?thesis using sintercard_returns[OF ok(1,2) q] by simp
  next
    case (SINTER keys)
    then show ?thesis using int[of None keys None] fits by (simp add: sinterCommand_def)
  next
    case (SINTERSTORE d keys)
    then show ?thesis using int[of "Some d" keys None] fits ok(3) by (simp add: sinterstoreCommand_def)
  next
    case (SUNION keys)
    then show ?thesis using un[of None keys SET_OP_UNION] fits by (simp add: sunionCommand_def)
  next
    case (SUNIONSTORE d keys)
    then show ?thesis using un[of "Some d" keys SET_OP_UNION] fits ok(3) by (simp add: sunionstoreCommand_def)
  next
    case (SDIFF keys)
    then show ?thesis using un[of None keys SET_OP_DIFF] fits by (simp add: sdiffCommand_def)
  next
    case (SDIFFSTORE d keys)
    then show ?thesis using un[of "Some d" keys SET_OP_DIFF] fits ok(3) by (simp add: sdiffstoreCommand_def)
  qed (use ok(3) fits update_commands_return[OF ok(1,2)] read_commands_return[OF ok(1,2)] key_commands_return[OF ok(1,2)]
      write_commands_return[OF ok(1,2)] ttl_returns[OF ok(1,2)] restore_returns[OF ok(1,2)] in simp_all)
qed

end
