(* ===== verification/Command_Props.thy ===== *)
theory Command_Props
  imports Commands
begin

text \<open>The properties of the commands on sets, and that every sequence of commands keeps the keyspace well-formed.\<close>

section \<open>Sequences of commands\<close>




text \<open>Insertion sort, a \<open>qsort\<close>.\<close>

fun insert_by :: "('a \<Rightarrow> 'a \<Rightarrow> int) \<Rightarrow> 'a \<Rightarrow> 'a list \<Rightarrow> 'a list" where
  "insert_by cmp x [] = [x]"
| "insert_by cmp x (y # ys) = (if cmp x y \<le> 0 then x # y # ys else y # insert_by cmp x ys)"

definition insertion_qsort :: qsort_fn where
  "insertion_qsort cmp xs = foldr (insert_by cmp) xs []"

lemma insertion_qsort_permutes: "qsort_permutes insertion_qsort"
proof -
  have i: "mset (insert_by cmp x ys) = add_mset x (mset ys)" for cmp x and ys :: "sized list" by (induction ys) auto
  have "mset (insertion_qsort cmp xs) = mset xs" for cmp xs by (induction xs) (simp_all add: insertion_qsort_def i)
  then show ?thesis by (simp add: qsort_permutes_def)
qed

text \<open>A keyspace with one set, and one with the same set twice.\<close>

lemma one_set:
  obtains ob where "set_inv small_env ob" "set_elems small_env ob = {[49]}"
proof -
  have e: "set_inv small_env createIntsetObject" "set_elems small_env createIntsetObject = {}"
    using set_inv_empty(1)[OF small_env_ok] by simp_all
  from setTypeAdd_ok[OF e(1), of "[49]"] e(2) show ?thesis using that by (auto simp: set_result_def sds_fits_def)
qed

lemma keyspace_ok:
  fixes m :: "key \<Rightarrow> unit robj option"
  assumes "\<And>k. obj_ok small_env (m k)"
  defines "s \<equiv> init_server\<lparr>db_keys := m\<rparr> :: (unit, unit) server"
  shows "watch_ok s" "db_inv small_env s" "can_write s" "visible s k = m k"
  using assms(1) small_env_ok unfolding s_def
  by (simp_all add: init_server_def watch_ok_def watch_inv_def none_expired_def db_inv_def can_write_def visible_eq hidden_def
    keyIsExpired_def getExpire_def)

section \<open>Properties\<close>



text \<open>C40: \<open>SADD\<close> adds the arguments to the set at the key, a missing key being the empty set, and replies how many were new; \<open>SREM\<close> removes them,
  replies how many were members, and deletes a key whose set became empty. Both touch no other key, keep the keyspace well-formed, and
  refuse a value of another type without any change.\<close>
theorem sadd_srem_sets:
  assumes ok: "watch_ok s" "db_inv env s" "can_write s" and args: "args \<noteq> []" "\<forall>x \<in> set args. length x < 2 ^ 32"
    and room: "card (set_of env (db_keys s key)) + length args \<le> 2 ^ 64 - 1"
  defines "A \<equiv> set_of env (visible s key)"
  shows "if checkType_set (visible s key)
    then saddCommand env key args s = Some (s, [RErr WRONGTYPE]) \<and> sremCommand env key args s = Some (s, [RErr WRONGTYPE])
    else (\<exists>s'. saddCommand env key args s = Some (s', [RInt (int (card (A \<union> set args) - card A))]) \<and> cmd_post env {key} s s' \<and>
        obj_view env (db_keys s' key) = Some (Inl (A \<union> set args))) \<and>
      (\<exists>s'. sremCommand env key args s = Some (s', [RInt (int (card A - card (A - set args)))]) \<and> cmd_post env {key} s s' \<and>
        obj_view env (db_keys s' key) = (if A - set args = {} then None else Some (Inl (A - set args))))"
proof -
  obtain s1 v where l: "lookupKeyWrite key s = (s1, v)" by fastforce
  have v: "visible s key = v" using lookupKeyWrite_visible[OF l] by simp
  have "s1 = s" if "checkType_set v" using lookup_write_again[of key s s1] l that by (cases v) auto
  moreover have "\<forall>x \<in> set args. sds_fits x" using args(2) by (simp add: sds_fits_def)
  ultimately show ?thesis using saddCommand_ok[OF ok args(1) _ room l] sremCommand_ok[OF ok _ l, of args] unfolding A_def v by (auto split: if_splits)
qed

theorem sadd_srem_sets_witness:
  "\<exists>s' :: (unit, unit) server. saddCommand small_env [107] [[49], [50], [49]] init_server = Some (s', [RInt 2]) \<and>
    obj_view small_env (db_keys s' [107]) = Some (Inl {[49], [50]})"
proof -
  let ?s = "init_server :: (unit, unit) server"
  have s: "db_keys ?s [107] = None" "visible ?s [107] = None" by (simp_all add: init_server_def visible_eq)
  have c: "card (set [[49], [50], [49]] :: byte list set) = 2" by (simp add: card_insert_if)
  have ok: "watch_ok ?s" "db_inv small_env ?s" "can_write ?s" by (rule init_server_ok small_env_ok)+
  have room: "card (set_of small_env (db_keys ?s [107])) + length [[49], [50], [49 :: byte]] \<le> 2 ^ 64 - 1" by (simp add: s)
  from sadd_srem_sets[OF ok _ _ room] obtain s' where
    "saddCommand small_env [107] [[49], [50], [49]] ?s = Some (s', [RInt (int (card (set [[49], [50], [49]] :: byte list set)))])"
    "obj_view small_env (db_keys s' [107]) = Some (Inl (set [[49], [50], [49]]))" by (auto simp: s)
  then show ?thesis unfolding c by auto
qed

text \<open>\<open>SMOVE\<close> moves a member from one set to another: if the source has it, it leaves the source, whose key goes with its last member, and is in the destination,
  which is created if need be; the reply is 1. If the source does not have it, or the two keys are the same, no set changes. A value of another type at either key is refused,
  and no other key is touched.\<close>
lemma smove_moves:
  fixes src :: key
  assumes ok: "watch_ok s" "db_inv env s" "can_write s" and x: "length x < 2 ^ 32"
    and room: "card (set_of env (db_keys s dst)) < 2 ^ 64 - 1"
  defines "A \<equiv> set_of env (visible s src)" and "B \<equiv> set_of env (visible s dst)"
  shows "\<exists>s' r. smoveCommand env src dst x s = Some (s', [r]) \<and> cmd_post env {src, dst} s s' \<and>
    (if visible s src = None then r = RInt 0
     else if checkType_set (visible s src) \<or> checkType_set (visible s dst) then r = RErr WRONGTYPE
     else r = RInt (if x \<in> A then 1 else 0) \<and>
       (src \<noteq> dst \<and> x \<in> A \<longrightarrow>
          obj_view env (db_keys s' src) = (if A - {x} = {} then None else Some (Inl (A - {x}))) \<and>
          obj_view env (db_keys s' dst) = Some (Inl (insert x B))) \<and>
       (src = dst \<or> x \<notin> A \<longrightarrow>
          obj_view env (db_keys s' src) = Some (Inl A) \<and> obj_view env (db_keys s' dst) = obj_view env (visible s dst)))"
proof -
  obtain s1 v where l: "lookupKeyWrite src s = (s1, v)" by fastforce
  obtain s2 w where l2: "lookupKeyWrite dst s1 = (s2, w)" by fastforce
  note l1 = lookup_write[OF ok l]
  have fit: "sds_fits x" using x by (simp add: sds_fits_def)
  have post: "cmd_post env {src, dst} s s2"
    using cmd_post_trans[OF cmd_post_write[OF ok l] cmd_post_write[OF l1(3,2,5) l2]] by (simp add: insert_commute)
  have v: "visible s src = v" using lookupKeyWrite_visible[OF l] by simp
  show ?thesis
  proof (cases v)
    case None
    then show ?thesis using smoveCommand_ok[OF ok fit l l2 room] post v by auto
  next
    case (Some ob)
    have "s1 = s" using lookup_write_again l Some by blast
    then have w: "visible s dst = w" using lookupKeyWrite_visible[OF l2] by simp
    have k: "db_keys s2 dst = w" "db_keys s2 src = v"
      using lookupKeyWrite_ok[OF l1(3,5) l2] l1(4) v w Some by (cases "src = dst"; auto simp: lookup_deletes_def effect_def)+
    have "obj_view env v = Some (Inl (set_of env v))" if "\<not> checkType_set v" using that Some by (cases v rule: checkType_cases) auto
    then show ?thesis using k smoveCommand_ok[OF ok fit l l2 room] post Some unfolding A_def B_def v w by (auto split: if_splits)
  qed
qed

text \<open>C38: \<open>SINTER\<close> replies each member of the intersection exactly once, preceded by how many there are; \<open>SINTERCARD\<close> replies their number, at
  most the limit; \<open>SINTERSTORE\<close> replies their number and leaves the intersection at the destination, which is deleted if it is empty. The sets are those the lookups
  show, whatever their encodings and whatever order \<open>qsort\<close> puts them in. A value of another type is refused, and only the destination and expired keys
  change.\<close>
theorem sinter_intersects:
  assumes ok: "watch_ok s" "db_inv env s" "dstkey \<noteq> None \<longrightarrow> can_write s" and q: "qsort_permutes qsort" and ks: "setkeys \<noteq> []"
    and mode: "card_limit \<noteq> None \<longrightarrow> dstkey = None"
  shows "if \<exists>k \<in> set setkeys. checkType_set (visible s k)
    then \<exists>s'. sinterGenericCommand env qsort setkeys dstkey card_limit s = Some (s', [RErr WRONGTYPE]) \<and> cmd_post env (set setkeys) s s'
    else \<exists>s' rs. sinterGenericCommand env qsort setkeys dstkey card_limit s = Some (s', rs) \<and>
      cmd_post env (set setkeys \<union> set_option dstkey) s s' \<and>
      set_reply env (\<Inter>k \<in> set setkeys. set_of env (visible s k)) dstkey card_limit s' rs"
  by (rule sinterGenericCommand_ok[OF assms])

theorem sinter_intersects_witness:
  "\<exists>ob (s' :: (unit, unit) server). set_elems small_env ob = {[49]} \<and>
    sinterGenericCommand small_env insertion_qsort [[97], [98]] None None
      (init_server\<lparr>db_keys := [[97] \<mapsto> OBJ_SET ob, [98] \<mapsto> OBJ_SET ob]\<rparr>) = Some (s', [RSetLen 1, RBulk [49]])"
proof -
  obtain ob where ob: "set_inv small_env ob" "set_elems small_env ob = {[49]}" by (rule one_set)
  let ?m = "[[97] \<mapsto> OBJ_SET ob, [98] \<mapsto> OBJ_SET ob] :: key \<Rightarrow> unit robj option"
  have m: "obj_ok small_env (?m k)" for k using ob by auto
  note k = keyspace_ok[of ?m, OF m]
  have d: "distinct xs \<and> set xs = {[49 :: byte]} \<Longrightarrow> xs = [[49]]" for xs
    by (cases xs rule: list.exhaust; cases "tl xs") auto
  from sinter_intersects[OF k(1,2) _ insertion_qsort_permutes, of None "[[97], [98]]" None] show ?thesis
    using ob(2) d by (fastforce simp: k(4) set_reply_def)
qed

text \<open>C39: \<open>SUNION\<close> and \<open>SDIFF\<close> reply each member of the union of all sets, or of the difference of the first set and all others, exactly once, preceded by how many there
  are; the storing forms reply the number and leave the result at the destination, which is deleted if the result is empty. For the difference this holds for
  both algorithms, whichever the work estimates select. The counter is an \<open>int\<close>: the union, or the first set, has fewer than \<open>2 ^ 31\<close> members.\<close>
theorem sunion_sdiff_compute:
  fixes op :: set_op
  assumes ok: "watch_ok s" "db_inv env s" "dstkey \<noteq> None \<longrightarrow> can_write s" and q: "qsort_permutes qsort" and ks: "setkeys \<noteq> []"
  defines "F \<equiv> \<lambda>k. set_of env (visible s k)"
  defines "A \<equiv> (case op of SET_OP_UNION \<Rightarrow> (\<Union>k \<in> set setkeys. F k) | SET_OP_DIFF \<Rightarrow> F (hd setkeys) - (\<Union>k \<in> set (tl setkeys). F k))"
  assumes room: "case op of SET_OP_UNION \<Rightarrow> card A < 2 ^ 31 | SET_OP_DIFF \<Rightarrow> card (F (hd setkeys)) < 2 ^ 31"
  shows "if \<exists>k \<in> set setkeys. checkType_set (visible s k)
    then \<exists>s'. sunionDiffGenericCommand env qsort setkeys dstkey op s = Some (s', [RErr WRONGTYPE]) \<and> cmd_post env (set setkeys) s s'
    else \<exists>s' rs. sunionDiffGenericCommand env qsort setkeys dstkey op s = Some (s', rs) \<and>
      cmd_post env (set setkeys \<union> set_option dstkey) s s' \<and> set_reply env A dstkey None s' rs"
  using sunionDiffGenericCommand_ok[OF ok q ks, of op] room unfolding F_def A_def by blast

theorem sunion_sdiff_compute_witness:
  "\<exists>ob (s' :: (unit, unit) server). set_elems small_env ob = {[49]} \<and>
    sunionDiffGenericCommand small_env insertion_qsort [[97], [98]] None SET_OP_DIFF
      (init_server\<lparr>db_keys := [[97] \<mapsto> OBJ_SET ob, [98] \<mapsto> OBJ_SET ob]\<rparr>) = Some (s', [RSetLen 0])"
proof -
  obtain ob where ob: "set_inv small_env ob" "set_elems small_env ob = {[49]}" by (rule one_set)
  let ?m = "[[97] \<mapsto> OBJ_SET ob, [98] \<mapsto> OBJ_SET ob] :: key \<Rightarrow> unit robj option"
  have m: "obj_ok small_env (?m k)" for k using ob by auto
  note k = keyspace_ok[of ?m, OF m]
  from sunion_sdiff_compute[OF k(1,2) _ insertion_qsort_permutes, of None "[[97], [98]]" SET_OP_DIFF] show ?thesis
    using ob(2) by (fastforce simp: k(4) set_reply_def)
qed

end
