(* ===== verification/Spec2Isabelle.thy ===== *)
theory Spec2Isabelle
  imports Command_Props
begin

text \<open>
  A verification development of the Redis 7.4.1 server that the repository carries in
  \<open>src/redis-stable/src\<close>: its compact encodings, its hash table, the set type over them, the keyspace with expiration and watched
  keys, and the commands on sets and keys. All file names below are relative to that directory.

  \<^bold>\<open>The parts and how they interact.\<close> A client command (\<open>t_set.c\<close>, \<open>db.c\<close>, \<open>expire.c\<close>) looks a key up in the keyspace, which may
  delete it because its time has passed, works on the object it finds, and signals the key, so that the clients that watch it are
  marked. A set object is an intset, a listpack or a hash table and moves between these encodings as it grows. Intsets and listpacks are flat byte
  buffers; integers in them and in strings are converted by \<open>util.c\<close>. The theories follow these layers.

  \<^bold>\<open>Conventions.\<close> A byte is an \<open>8 word\<close>, memory a list of bytes with the size of its allocation, a pointer into it an index, \<open>NULL\<close> the
  value \<open>None\<close>. A function that can fail an assertion, read or write outside its memory, or overflow a signed integer returns an
  option, whose \<open>None\<close> stands for these; an error the function reports itself is a value inside it. Functions that change state
  take and return it. Loops are recursive functions; those with no bound of their own are partial functions into the option type, and the
  theorems state that they return. Integers keep their width where the code depends on it: the 16 and 32 bit header fields and the 32 bit offsets of intsets and
  listpacks, \<open>unsigned long\<close> sizes of hash tables, 64 bit hashes and cursors, \<open>long long\<close> times and parsed numbers, \<open>int\<close> cardinalities. Memory allocation
  succeeds except where the code handles its failure (\<open>dictTryExpand\<close>, \<open>setTypeConvertAndExpand\<close> without panic), there the outcome is an argument.

  \<^bold>\<open>Theories.\<close>

  \<^item> \<open>Redis_Prelude\<close>: bytes, little-endian fields, memory moves, assertions, ranges, and lemmas on lists all theories use.

  \<^item> \<open>Set_Interface\<close>, \<open>Map_Interface\<close>: the contracts of a set encoding and of a dictionary, as locales, with what follows for any sequence of
  operations. They are interpreted on intsets (\<open>iset\<close>), on the set type (\<open>sset\<close>) and on the hash table (\<open>dmap\<close>).

  \<^item> \<open>Intset\<close> (\<open>intset.c\<close>): the packed sorted array with its encoding; \<open>intsetSearch\<close>, \<open>intsetAdd\<close> with \<open>intsetUpgradeAndAdd\<close>,
  \<open>intsetRemove\<close>, \<open>intsetValidateIntegrity\<close> and the rest of the interface. Search is exact, updates refine a set of integers, validation accepts exactly
  the serialised well-formed intsets, and the 32 bit byte count of \<open>intsetMoveTail\<close> wraps at \<open>2 ^ 29\<close> elements.

  \<^item> \<open>Util\<close> (\<open>util.c\<close>, \<open>lpStringToInt64\<close> of \<open>listpack.c\<close>): \<open>digits10\<close>, \<open>ull2string\<close>, \<open>ll2string\<close>, \<open>string2ll\<close>. Printing and parsing are inverse, and the parsers
  accept exactly the canonical decimals of 64 bit integers.

  \<^item> \<open>Listpack_Enc\<close>, \<open>Listpack\<close> (\<open>listpack.c\<close>): the entry encodings and the operations on the buffer, with reallocation, \<open>memmove\<close> and
  the assertions on bounds. \<open>Listpack_Correct\<close>, \<open>Listpack_Update\<close>, \<open>Listpack_Range\<close> show what each does to the list of entries (\<open>lp_rep\<close>);
  the search with a callback is a locale, \<open>lp_comparator\<close>, interpreted on the comparison of \<open>lpFind\<close>. \<open>Listpack_Props\<close> has the properties.

  \<^item> \<open>Dict\<close>, \<open>Dict_Scan\<close>, \<open>Dict_Iter\<close> (\<open>dict.c\<close>, \<open>dict.h\<close>): two tables of chains, incremental rehashing, resizing under the three
  policies, lookup, insertion, removal, the two-phase unlink, the scan with a reversed cursor, the iterators with their fingerprint.
  The hash function and the comparison are fields of \<open>dictType\<close>, constrained by \<open>type_ok\<close>; the clock of \<open>dictRehashMicroseconds\<close> is an
  argument. \<open>Dict_Correct\<close>, \<open>Dict_Map\<close>, \<open>Dict_Refine\<close> show that the table is a map under any interleaving with rehashing and resizing, and that rehashing ends;
  \<open>Dict_Scan\<close> that a scan misses no key that stays, however the tables change between the calls.

  \<^item> \<open>Set_Type\<close> (\<open>t_set.c\<close> up to \<open>setTypeDup\<close>, object creation of \<open>object.c\<close>, \<open>sdsfromlonglong\<close> of \<open>sds.c\<close>): the set object. \<open>Set_Correct\<close>, \<open>Set_Convert\<close>, \<open>Set_Add\<close>,
  \<open>Set_Refine\<close> show that it is a finite set of byte strings whatever its encoding, that the conversions keep it and that the configured limits hold.

  \<^item> \<open>Keyspace\<close>, \<open>Watch\<close> (\<open>db.c\<close>, \<open>touchWatchedKey\<close> and \<open>unwatchAllKeys\<close> of \<open>multi.c\<close>): one database with expire times and watched keys, as a record \<open>server\<close>. Lookups with
  lazy expiration, addition, replacement, deletion. Every operation touches the keys it changes.

  \<^item> \<open>Set_Commands\<close> (the set commands of \<open>t_set.c\<close>), \<open>Set_Keyspace\<close>, \<open>Set_Single\<close>, \<open>Set_Several\<close>, \<open>Set_Union\<close>: what each command replies and leaves, on the abstract keyspace
  of sets. \<open>qsort\<close> is an argument that permutes its input.

  \<^item> \<open>Expire\<close>, \<open>Expire_Correct\<close> (\<open>expire.c\<close>, \<open>DEL\<close>, \<open>EXISTS\<close>, \<open>RENAME\<close> of \<open>db.c\<close>, \<open>RESTORE\<close> of \<open>cluster.c\<close> without its payload).

  \<^item> \<open>Commands\<close>, \<open>Command_Props\<close>: the commands behind one dispatch, and that any sequence of them keeps the keyspace well-formed.

  \<^bold>\<open>Bounds.\<close> Intsets have fewer than \<open>2 ^ 29\<close> elements, since from there on byte offsets wrap; for set objects this is the condition \<open>env_ok\<close> on
  \<open>set-max-intset-entries\<close>, whose default is 512. Member strings are shorter than \<open>2 ^ 32\<close> bytes (\<open>sds_fits\<close>), since \<open>lpFind\<close> takes the length in 32 bits; \<open>setType_truncates_long_strings\<close> shows
  what happens beyond. Listpacks fit their 32 bit size field, which the insertions check. Hash tables have fewer than \<open>2 ^ 64\<close> entries. \<open>SUNION\<close> and \<open>SDIFF\<close> count in an
  \<open>int\<close> and are bounded by \<open>2 ^ 31\<close>. Times are exact as long as their sums fit 64 bits; \<open>unchecked_time_overflow\<close> gives the commands that do not check this. No definition takes fuel.

  The theorems on the keyspace assume that no client watches a key that was expired already when it was watched (part of \<open>watch_ok\<close>), and those on writing commands that the server accepts
  writes (\<open>can_write\<close>).

  \<^bold>\<open>Not modelled.\<close> Random sampling (\<open>SPOP\<close>, \<open>SRANDMEMBER\<close>, \<open>dictGetRandomKey\<close>, \<open>lpRandomPair\<close>) and \<open>SSCAN\<close>; the adaptive sampling of active expiration; keyspace
  events, statistics and access times; \<open>MULTI\<close> and \<open>EXEC\<close>; the other data types; networking, persistence, replication, clustering, scripting and modules; the tools; and the mailing
  application in Python beside the server.
\<close>

end
